(* ===== verification/Xv6_Prelude.thy ===== *)
theory Xv6_Prelude
  imports Main "HOL-Library.Word"
begin

text \<open>
  Shared vocabulary of the development: the machine types of \<^verbatim>\<open>types.h\<close>, blocks of bytes
  with their little-endian loads and stores, the state-and-outcome monad in which every
  kernel function is written, and its weakest preconditions.

  A kernel function either returns a value and a new state (\<open>Ret\<close>), calls
  \<^verbatim>\<open>panic\<close> with a message (\<open>Panic\<close>), goes to sleep on a resource another process
  holds (\<open>Blocked\<close>), or runs a loop for ever (\<open>Diverge\<close>).
\<close>

unbundle bit_operations_syntax

section \<open>Machine types\<close>

type_synonym uchar = "8 word"
type_synonym ushort = "16 word"
type_synonym uint = "32 word"

text \<open>A byte array: what a C pointer lets the code read, from the address it points to.\<close>

type_synonym bytes = "nat \<Rightarrow> uchar"

named_theorems wp_simps \<open>weakest-precondition equations of the kernel monad\<close>
named_theorems byte_simps \<open>loads after stores on byte arrays\<close>

lemma unat_of_nat32: "n < 2 ^ 32 \<Longrightarrow> unat (of_nat n :: uint) = n"
  by (simp add: unsigned_of_nat take_bit_eq_mod)

lemma unat_lt32: "unat (x :: uint) < 2 ^ 32"
  by (rule order_less_le_trans[OF unsigned_less]) simp

lemma unat_add32: "unat (x :: uint) + unat y < 2 ^ 32 \<Longrightarrow> unat (x + y) = unat x + unat y"
  by (simp add: unat_add_lem[THEN iffD1])

lemma unat_add_nowrap32:
  assumes "\<not> x + y < (x :: uint)"
  shows "unat (x + y) = unat x + unat y"
proof (cases "unat x + unat y < 2 ^ 32")
  case True
  then show ?thesis by (rule unat_add32)
next
  case False
  have "unat (x + y) = (unat x + unat y) mod 2 ^ 32" by (simp add: unat_word_ariths)
  also have "\<dots> = unat x + unat y - 2 ^ 32"
    using False unat_lt32[of x] unat_lt32[of y] by (simp add: le_mod_geq)
  finally show ?thesis using assms unat_lt32[of y] False by (simp add: word_less_nat_alt)
qed

lemma sint_small32:
  assumes "unat (x :: uint) < 2 ^ 31"
  shows "sint x = int (unat x)"
proof -
  have "int (unat x) < int (2 ^ 31)" using assms by (simp only: of_nat_less_iff)
  then have "uint x < 2 ^ 31" by simp
  moreover have "- (2 ^ 31) \<le> uint x" by (rule order_trans[of _ 0]) simp_all
  ultimately have "signed_take_bit 31 (uint x) = uint x"
    by (intro signed_take_bit_int_eq_self)
  then show ?thesis by (simp add: sint_uint)
qed

section \<open>Outcomes and the kernel monad\<close>

datatype 'a outcome = Ret 'a | Panic string | Blocked | Diverge

type_synonym ('s, 'a) prog = "'s \<Rightarrow> ('a \<times> 's) outcome"

definition kret :: "'a \<Rightarrow> ('s, 'a) prog" where
  "kret x = (\<lambda>s. Ret (x, s))"

definition kpanic :: "string \<Rightarrow> ('s, 'a) prog" where
  "kpanic msg = (\<lambda>s. Panic msg)"

definition kblock :: "('s, 'a) prog" where
  "kblock = (\<lambda>s. Blocked)"

definition kdiverge :: "('s, 'a) prog" where
  "kdiverge = (\<lambda>s. Diverge)"

definition kbind :: "('s, 'a) prog \<Rightarrow> ('a \<Rightarrow> ('s, 'b) prog) \<Rightarrow> ('s, 'b) prog" where
  "kbind m f = (\<lambda>s. case m s of
       Ret r \<Rightarrow> f (fst r) (snd r)
     | Panic msg \<Rightarrow> Panic msg
     | Blocked \<Rightarrow> Blocked
     | Diverge \<Rightarrow> Diverge)"

definition kget :: "('s \<Rightarrow> 'a) \<Rightarrow> ('s, 'a) prog" where
  "kget f = (\<lambda>s. Ret (f s, s))"

definition kmod :: "('s \<Rightarrow> 's) \<Rightarrow> ('s, unit) prog" where
  "kmod f = (\<lambda>s. Ret ((), f s))"

definition kwhen :: "bool \<Rightarrow> ('s, unit) prog \<Rightarrow> ('s, unit) prog" where
  "kwhen b m = (if b then m else kret ())"

text \<open>\<open>for (i = a; i < a + n; i++) body(i)\<close>\<close>

primrec kfor :: "nat \<Rightarrow> nat \<Rightarrow> (nat \<Rightarrow> ('s, unit) prog) \<Rightarrow> ('s, unit) prog" where
  "kfor a 0 body = kret ()"
| "kfor a (Suc n) body = kbind (body a) (\<lambda>_. kfor (Suc a) n body)"

text \<open>
  \<open>ksearch a n body\<close> is a \<open>for\<close> loop with an early return: the body answers
  \<open>Some x\<close> to leave the function with \<open>x\<close>, \<open>None\<close> to go on.
\<close>

primrec ksearch :: "nat \<Rightarrow> nat \<Rightarrow> (nat \<Rightarrow> ('s, 'a option) prog) \<Rightarrow> ('s, 'a option) prog" where
  "ksearch a 0 body = kret None"
| "ksearch a (Suc n) body = kbind (body a)
     (\<lambda>r. case r of Some x \<Rightarrow> kret (Some x) | None \<Rightarrow> ksearch (Suc a) n body)"

text \<open>The same with a state of its own: the body answers \<open>Inl x\<close> to leave, \<open>Inr st\<close> to go on.\<close>

primrec kscan :: "nat \<Rightarrow> nat \<Rightarrow> (nat \<Rightarrow> 'st \<Rightarrow> ('s, 'a + 'st) prog) \<Rightarrow> 'st \<Rightarrow> ('s, 'a + 'st) prog" where
  "kscan a 0 body st = kret (Inr st)"
| "kscan a (Suc n) body st = kbind (body a st)
     (\<lambda>r. case r of Inl x \<Rightarrow> kret (Inl x) | Inr st \<Rightarrow> kscan (Suc a) n body st)"

text \<open>A program on one component of the state, run in the whole state.\<close>

definition kzoom :: "('s \<Rightarrow> 't) \<Rightarrow> ('t \<Rightarrow> 's \<Rightarrow> 's) \<Rightarrow> ('t, 'a) prog \<Rightarrow> ('s, 'a) prog" where
  "kzoom get put m = (\<lambda>s. case m (get s) of
       Ret r \<Rightarrow> Ret (fst r, put (snd r) s)
     | Panic msg \<Rightarrow> Panic msg
     | Blocked \<Rightarrow> Blocked
     | Diverge \<Rightarrow> Diverge)"

lemmas kmonad_defs = kret_def kpanic_def kblock_def kdiverge_def kbind_def kget_def kmod_def

lemma kbind_kret [simp]: "kbind (kret x) f = f x"
  by (simp add: kbind_def kret_def)

lemma kbind_kret_right [simp]: "kbind m kret = m"
  by (rule ext) (simp add: kbind_def kret_def split: outcome.split)

lemma kbind_assoc [simp]: "kbind (kbind m f) g = kbind m (\<lambda>x. kbind (f x) g)"
  by (rule ext) (simp add: kbind_def split: outcome.split)

lemma kbind_kpanic [simp]: "kbind (kpanic e) f = kpanic e"
  by (simp add: kbind_def kpanic_def)

lemma kbind_kblock [simp]: "kbind kblock f = kblock"
  by (simp add: kbind_def kblock_def)

lemma kbind_Ret:
  "kbind m f s = Ret r \<longleftrightarrow> (\<exists>x s'. m s = Ret (x, s') \<and> f x s' = Ret r)"
  by (cases "m s") (auto simp: kbind_def)

lemma kbind_RetE:
  assumes "kbind m f s = Ret r"
  obtains x s' where "m s = Ret (x, s')" and "f x s' = Ret r"
  using assms by (auto simp: kbind_Ret)

lemma kbind_eval: "m s = Ret (x, s') \<Longrightarrow> kbind m f s = f x s'"
  by (simp add: kbind_def)

section \<open>Weakest preconditions\<close>

text \<open>
  \<open>wp m Q s\<close>: started in \<open>s\<close>, \<open>m\<close> returns and its result and final state satisfy \<open>Q\<close>
  (total correctness). \<open>wlp m Q s\<close>: if it returns, they do (partial correctness).
\<close>

definition wp :: "('s, 'a) prog \<Rightarrow> ('a \<Rightarrow> 's \<Rightarrow> bool) \<Rightarrow> 's \<Rightarrow> bool" where
  "wp m Q s = (case m s of Ret r \<Rightarrow> Q (fst r) (snd r) | _ \<Rightarrow> False)"

definition wlp :: "('s, 'a) prog \<Rightarrow> ('a \<Rightarrow> 's \<Rightarrow> bool) \<Rightarrow> 's \<Rightarrow> bool" where
  "wlp m Q s = (case m s of Ret r \<Rightarrow> Q (fst r) (snd r) | _ \<Rightarrow> True)"

lemma wp_kret [wp_simps]: "wp (kret x) Q s = Q x s"
  by (simp add: wp_def kret_def)

lemma wp_kbind [wp_simps]: "wp (kbind m f) Q s = wp m (\<lambda>x. wp (f x) Q) s"
  by (simp add: wp_def kbind_def split: outcome.split)

lemma wp_kret_fun: "wp (kret x) Q = Q x"
  by (simp add: fun_eq_iff wp_kret)

lemma wp_kbind_fun: "wp (kbind m f) Q = wp m (\<lambda>x. wp (f x) Q)"
  by (rule ext) (rule wp_kbind)

lemma wp_kget [wp_simps]: "wp (kget f) Q s = Q (f s) s"
  by (simp add: wp_def kget_def)

lemma wp_kmod [wp_simps]: "wp (kmod f) Q s = Q () (f s)"
  by (simp add: wp_def kmod_def)

lemma wp_kpanic [wp_simps]: "wp (kpanic e) Q s = False"
  by (simp add: wp_def kpanic_def)

lemma wp_kblock [wp_simps]: "wp kblock Q s = False"
  by (simp add: wp_def kblock_def)

lemma wp_if [wp_simps]: "wp (if b then m else m') Q s = (if b then wp m Q s else wp m' Q s)"
  by simp

lemma wp_kwhen [wp_simps]: "wp (kwhen b m) Q s = (if b then wp m Q s else Q () s)"
  by (simp add: kwhen_def wp_kret)

lemma wlp_kret [wp_simps]: "wlp (kret x) Q s = Q x s"
  by (simp add: wlp_def kret_def)

lemma wlp_kbind [wp_simps]: "wlp (kbind m f) Q s = wlp m (\<lambda>x. wlp (f x) Q) s"
  by (simp add: wlp_def kbind_def split: outcome.split)

lemma wlp_kget [wp_simps]: "wlp (kget f) Q s = Q (f s) s"
  by (simp add: wlp_def kget_def)

lemma wlp_kmod [wp_simps]: "wlp (kmod f) Q s = Q () (f s)"
  by (simp add: wlp_def kmod_def)

lemma wlp_kpanic [wp_simps]: "wlp (kpanic e) Q s = True"
  by (simp add: wlp_def kpanic_def)

lemma wlp_kblock [wp_simps]: "wlp kblock Q s = True"
  by (simp add: wlp_def kblock_def)

lemma wlp_kdiverge [wp_simps]: "wlp kdiverge Q s = True"
  by (simp add: wlp_def kdiverge_def)

lemma wlp_if [wp_simps]: "wlp (if b then m else m') Q s = (if b then wlp m Q s else wlp m' Q s)"
  by simp

lemma wlp_kwhen [wp_simps]: "wlp (kwhen b m) Q s = (if b then wlp m Q s else Q () s)"
  by (simp add: kwhen_def wlp_kret)

lemma wp_kzoom [wp_simps]: "wp (kzoom get put m) Q s = wp m (\<lambda>x t. Q x (put t s)) (get s)"
  by (simp add: wp_def kzoom_def split: outcome.split)

lemma wlp_kzoom [wp_simps]: "wlp (kzoom get put m) Q s = wlp m (\<lambda>x t. Q x (put t s)) (get s)"
  by (simp add: wlp_def kzoom_def split: outcome.split)

lemma wlp_all: "(\<And>x s'. Q x s') \<Longrightarrow> wlp m Q s"
  by (simp add: wlp_def split: outcome.split)

lemma wp_mono: "wp m Q s \<Longrightarrow> (\<And>x s'. Q x s' \<Longrightarrow> R x s') \<Longrightarrow> wp m R s"
  by (auto simp: wp_def split: outcome.splits)

lemma wlp_mono: "wlp m Q s \<Longrightarrow> (\<And>x s'. Q x s' \<Longrightarrow> R x s') \<Longrightarrow> wlp m R s"
  by (auto simp: wlp_def split: outcome.splits)

lemma wp_wlp: "wp m Q s \<Longrightarrow> wlp m Q s"
  by (auto simp: wp_def wlp_def split: outcome.splits)

lemma wlp_conj: "wlp m Q s \<Longrightarrow> wlp m R s \<Longrightarrow> wlp m (\<lambda>x s'. Q x s' \<and> R x s') s"
  by (auto simp: wlp_def split: outcome.splits)

lemma wp_wlp_conj: "wp m Q s \<Longrightarrow> wlp m R s \<Longrightarrow> wp m (\<lambda>x s'. Q x s' \<and> R x s') s"
  by (auto simp: wp_def wlp_def split: outcome.splits)

lemma wp_Ret: "wp m Q s \<longleftrightarrow> (\<exists>x s'. m s = Ret (x, s') \<and> Q x s')"
  by (auto simp: wp_def split: outcome.splits)

lemma wlpD: "wlp m Q s \<Longrightarrow> m s = Ret (x, s') \<Longrightarrow> Q x s'"
  by (simp add: wlp_def)

lemma wlpI: "(\<And>x s'. m s = Ret (x, s') \<Longrightarrow> Q x s') \<Longrightarrow> wlp m Q s"
  by (auto simp: wlp_def split: outcome.splits)

text \<open>Loop rules: an invariant indexed by the loop counter.\<close>

lemma wp_kfor:
  assumes "I a s"
    and "\<And>i s. a \<le> i \<Longrightarrow> i < a + n \<Longrightarrow> I i s \<Longrightarrow> wp (body i) (\<lambda>_. I (Suc i)) s"
  shows "wp (kfor a n body) (\<lambda>_. I (a + n)) s"
  using assms
proof (induction n arbitrary: a s)
  case 0
  then show ?case by (simp add: wp_kret)
next
  case (Suc n)
  have "wp (body a) (\<lambda>_. I (Suc a)) s"
    using Suc.prems(2)[of a s] Suc.prems(1) by simp
  then show ?case
    by (auto simp: wp_kbind elim!: wp_mono intro!: Suc.IH[of "Suc a", simplified] Suc.prems(2))
qed

lemma wlp_kfor:
  assumes "I a s"
    and "\<And>i s. a \<le> i \<Longrightarrow> i < a + n \<Longrightarrow> I i s \<Longrightarrow> wlp (body i) (\<lambda>_. I (Suc i)) s"
  shows "wlp (kfor a n body) (\<lambda>_. I (a + n)) s"
  using assms
proof (induction n arbitrary: a s)
  case 0
  then show ?case by (simp add: wlp_kret)
next
  case (Suc n)
  have "wlp (body a) (\<lambda>_. I (Suc a)) s"
    using Suc.prems(2)[of a s] Suc.prems(1) by simp
  then show ?case
    by (auto simp: wlp_kbind elim!: wlp_mono intro!: Suc.IH[of "Suc a", simplified] Suc.prems(2))
qed

lemma wlp_ksearch:
  assumes "I a s"
    and "\<And>i s. a \<le> i \<Longrightarrow> i < a + n \<Longrightarrow> I i s \<Longrightarrow>
           wlp (body i) (\<lambda>r s'. case r of Some x \<Rightarrow> Q (Some x) s' | None \<Rightarrow> I (Suc i) s') s"
    and "\<And>s. I (a + n) s \<Longrightarrow> Q None s"
  shows "wlp (ksearch a n body) Q s"
  using assms
proof (induction n arbitrary: a s)
  case 0
  then show ?case by (simp add: wlp_kret)
next
  case (Suc n)
  have *: "wlp (body a) (\<lambda>r s'. case r of Some x \<Rightarrow> Q (Some x) s' | None \<Rightarrow> I (Suc a) s') s"
    using Suc.prems(2)[of a s] Suc.prems(1) by simp
  have IH: "wlp (ksearch (Suc a) n body) Q s'" if "I (Suc a) s'" for s'
    using that by (intro Suc.IH) (auto intro: Suc.prems(2,3))
  from * show ?case
    by (auto simp: wlp_kbind wlp_kret split: option.splits elim!: wlp_mono intro: IH)
qed

lemma wp_ksearch:
  assumes "I a s"
    and "\<And>i s. a \<le> i \<Longrightarrow> i < a + n \<Longrightarrow> I i s \<Longrightarrow>
           wp (body i) (\<lambda>r s'. case r of Some x \<Rightarrow> Q (Some x) s' | None \<Rightarrow> I (Suc i) s') s"
    and "\<And>s. I (a + n) s \<Longrightarrow> Q None s"
  shows "wp (ksearch a n body) Q s"
  using assms
proof (induction n arbitrary: a s)
  case 0
  then show ?case by (simp add: wp_kret)
next
  case (Suc n)
  have *: "wp (body a) (\<lambda>r s'. case r of Some x \<Rightarrow> Q (Some x) s' | None \<Rightarrow> I (Suc a) s') s"
    using Suc.prems(2)[of a s] Suc.prems(1) by simp
  have IH: "wp (ksearch (Suc a) n body) Q s'" if "I (Suc a) s'" for s'
    using that by (intro Suc.IH) (auto intro: Suc.prems(2,3))
  from * show ?case
    by (auto simp: wp_kbind wp_kret split: option.splits elim!: wp_mono intro: IH)
qed

section \<open>Little-endian loads and stores\<close>

definition ld16 :: "bytes \<Rightarrow> nat \<Rightarrow> ushort" where
  "ld16 b p = ucast (b p) OR push_bit 8 (ucast (b (p + 1)))"

definition ld32 :: "bytes \<Rightarrow> nat \<Rightarrow> uint" where
  "ld32 b p = ucast (b p) OR push_bit 8 (ucast (b (p + 1)))
     OR push_bit 16 (ucast (b (p + 2))) OR push_bit 24 (ucast (b (p + 3)))"

definition st16 :: "bytes \<Rightarrow> nat \<Rightarrow> ushort \<Rightarrow> bytes" where
  "st16 b p v = b(p := ucast v, p + 1 := ucast (drop_bit 8 v))"

definition st32 :: "bytes \<Rightarrow> nat \<Rightarrow> uint \<Rightarrow> bytes" where
  "st32 b p v = b(p := ucast v, p + 1 := ucast (drop_bit 8 v),
     p + 2 := ucast (drop_bit 16 v), p + 3 := ucast (drop_bit 24 v))"

definition blit :: "bytes \<Rightarrow> nat \<Rightarrow> bytes \<Rightarrow> nat \<Rightarrow> nat \<Rightarrow> bytes" where
  \<comment> \<open>copy \<open>n\<close> bytes of \<open>src\<close> from offset \<open>so\<close> over \<open>dst\<close> at offset \<open>p\<close>\<close>
  "blit dst p src so n = (\<lambda>i. if p \<le> i \<and> i < p + n then src (so + (i - p)) else dst i)"

definition zero_bytes :: bytes where
  "zero_bytes = (\<lambda>_. 0)"

lemma ld16_st16 [byte_simps, simp]: "ld16 (st16 b p v) p = v"
  unfolding ld16_def st16_def by (rule bit_word_eqI) (auto simp: bit_simps)

lemma ld32_st32 [byte_simps, simp]: "ld32 (st32 b p v) p = v"
proof (rule bit_word_eqI)
  fix n
  assume "n < LENGTH(32)"
  then show "bit (ld32 (st32 b p v) p) n = bit v n"
    unfolding ld32_def st32_def by (cases "n < 24"; cases "n < 16"; auto simp: bit_simps)
qed

lemma st16_other [byte_simps, simp]: "i < p \<or> p + 2 \<le> i \<Longrightarrow> st16 b p v i = b i"
  by (auto simp: st16_def)

lemma st32_other [byte_simps, simp]: "i < p \<or> p + 4 \<le> i \<Longrightarrow> st32 b p v i = b i"
  by (auto simp: st32_def)

lemma ld16_cong: "(\<And>i. p \<le> i \<Longrightarrow> i < p + 2 \<Longrightarrow> b i = c i) \<Longrightarrow> ld16 b p = ld16 c p"
  by (simp add: ld16_def)

lemma ld32_cong: "(\<And>i. p \<le> i \<Longrightarrow> i < p + 4 \<Longrightarrow> b i = c i) \<Longrightarrow> ld32 b p = ld32 c p"
  by (simp add: ld32_def)

lemma ld16_st16_other [byte_simps, simp]:
  "q + 2 \<le> p \<or> p + 2 \<le> q \<Longrightarrow> ld16 (st16 b p v) q = ld16 b q"
  by (auto intro!: ld16_cong)

lemma ld16_st32_other [byte_simps, simp]:
  "q + 2 \<le> p \<or> p + 4 \<le> q \<Longrightarrow> ld16 (st32 b p v) q = ld16 b q"
  by (auto intro!: ld16_cong)

lemma ld32_st16_other [byte_simps, simp]:
  "q + 4 \<le> p \<or> p + 2 \<le> q \<Longrightarrow> ld32 (st16 b p v) q = ld32 b q"
  by (auto intro!: ld32_cong)

lemma ld32_st32_other [byte_simps, simp]:
  "q + 4 \<le> p \<or> p + 4 \<le> q \<Longrightarrow> ld32 (st32 b p v) q = ld32 b q"
  by (auto intro!: ld32_cong)

lemma ld16_zero [simp]: "ld16 zero_bytes p = 0"
  by (simp add: ld16_def zero_bytes_def)

lemma ld32_zero [simp]: "ld32 zero_bytes p = 0"
  by (simp add: ld32_def zero_bytes_def)

lemma blit_in [simp]: "p \<le> i \<Longrightarrow> i < p + n \<Longrightarrow> blit dst p src so n i = src (so + (i - p))"
  by (simp add: blit_def)

lemma blit_out [simp]: "i < p \<or> p + n \<le> i \<Longrightarrow> blit dst p src so n i = dst i"
  by (auto simp: blit_def)

lemma blit_0 [simp]: "blit dst p src so 0 = dst"
  by (rule ext) (auto simp: blit_def)

end
