(* ===== verification/Cstring.thy ===== *)
theory Cstring
  imports Xv6_Prelude
begin

text \<open>
  The byte and string routines of the kernel (\<^verbatim>\<open>string.c\<close>), of the user library
  (\<^verbatim>\<open>ulib.c\<close>) and the private copies of \<^verbatim>\<open>fs/sysfile.c\<close>. Routines that write take the
  whole memory, so that overlapping regions are modelled; a read-only pointer is the
  byte array it points to.
\<close>

section \<open>Memory routines\<close>

text \<open>\<^verbatim>\<open>stosb\<close> and \<^verbatim>\<open>stosl\<close> of \<^verbatim>\<open>x86.h\<close>: store \<open>cnt\<close> bytes, or \<open>cnt\<close> 32-bit words.\<close>

primrec stosb :: "bytes \<Rightarrow> nat \<Rightarrow> uchar \<Rightarrow> nat \<Rightarrow> bytes" where
  "stosb m a c 0 = m"
| "stosb m a c (Suc n) = stosb (m(a := c)) (a + 1) c n"

primrec stosl :: "bytes \<Rightarrow> nat \<Rightarrow> uint \<Rightarrow> nat \<Rightarrow> bytes" where
  "stosl m a v 0 = m"
| "stosl m a v (Suc n) = stosl (st32 m a v) (a + 4) v n"

definition memset :: "bytes \<Rightarrow> nat \<Rightarrow> uint \<Rightarrow> nat \<Rightarrow> bytes" where
  "memset m dst c n =
     (if dst mod 4 = 0 \<and> n mod 4 = 0 then
        (let c = c AND 0xFF
         in stosl m dst (push_bit 24 c OR push_bit 16 c OR push_bit 8 c OR c) (n div 4))
      else stosb m dst (ucast c) n)"

text \<open>\<^verbatim>\<open>memset\<close> of \<^verbatim>\<open>ulib.c\<close> always stores bytes.\<close>

definition user_memset :: "bytes \<Rightarrow> nat \<Rightarrow> uint \<Rightarrow> nat \<Rightarrow> bytes" where
  "user_memset m dst c n = stosb m dst (ucast c) n"

primrec memcmp_from :: "bytes \<Rightarrow> bytes \<Rightarrow> nat \<Rightarrow> nat \<Rightarrow> int" where
  "memcmp_from p q i 0 = 0"
| "memcmp_from p q i (Suc n) =
     (if p i \<noteq> q i then uint (p i) - uint (q i) else memcmp_from p q (Suc i) n)"

definition memcmp :: "bytes \<Rightarrow> bytes \<Rightarrow> nat \<Rightarrow> int" where
  "memcmp p q n = memcmp_from p q 0 n"

text \<open>The two copy loops of \<^verbatim>\<open>memmove\<close>: \<open>*d++ = *s++\<close> and \<open>*--d = *--s\<close>.\<close>

primrec copy_up :: "bytes \<Rightarrow> nat \<Rightarrow> nat \<Rightarrow> nat \<Rightarrow> bytes" where
  "copy_up m d s 0 = m"
| "copy_up m d s (Suc n) = copy_up (m(d := m s)) (d + 1) (s + 1) n"

primrec copy_down :: "bytes \<Rightarrow> nat \<Rightarrow> nat \<Rightarrow> nat \<Rightarrow> bytes" where
  "copy_down m d s 0 = m"
| "copy_down m d s (Suc n) = copy_down (m(d - 1 := m (s - 1))) (d - 1) (s - 1) n"

definition memmove :: "bytes \<Rightarrow> nat \<Rightarrow> nat \<Rightarrow> nat \<Rightarrow> bytes" where
  "memmove m dst src n =
     (if src < dst \<and> src + n > dst then copy_down m (dst + n) (src + n) n
      else copy_up m dst src n)"

definition memcpy :: "bytes \<Rightarrow> nat \<Rightarrow> nat \<Rightarrow> nat \<Rightarrow> bytes" where
  "memcpy m dst src n = memmove m dst src n"

text \<open>\<^verbatim>\<open>memmove\<close> of \<^verbatim>\<open>ulib.c\<close> has a signed count and copies upwards only.\<close>

definition user_memmove :: "bytes \<Rightarrow> nat \<Rightarrow> nat \<Rightarrow> int \<Rightarrow> bytes" where
  "user_memmove m dst src n = copy_up m dst src (nat n)"

section \<open>Strings\<close>

primrec strncmp_from :: "bytes \<Rightarrow> bytes \<Rightarrow> nat \<Rightarrow> nat \<Rightarrow> int" where
  "strncmp_from p q i 0 = 0"
| "strncmp_from p q i (Suc n) =
     (if p i \<noteq> 0 \<and> p i = q i then strncmp_from p q (Suc i) n
      else uint (p i) - uint (q i))"

definition strncmp :: "bytes \<Rightarrow> bytes \<Rightarrow> nat \<Rightarrow> int" where
  "strncmp p q n = strncmp_from p q 0 n"

text \<open>
  \<^verbatim>\<open>strncpy\<close>: the first loop copies up to and including the terminating zero, the second
  fills the rest of the \<open>n\<close> bytes with zeros.
\<close>

primrec strncpy_fill :: "bytes \<Rightarrow> nat \<Rightarrow> nat \<Rightarrow> bytes" where
  "strncpy_fill m s 0 = m"
| "strncpy_fill m s (Suc n) = strncpy_fill (m(s := 0)) (s + 1) n"

primrec strncpy_from :: "bytes \<Rightarrow> nat \<Rightarrow> bytes \<Rightarrow> nat \<Rightarrow> nat \<Rightarrow> bytes" where
  "strncpy_from m s t i 0 = m"
| "strncpy_from m s t i (Suc n) =
     (if t i \<noteq> 0 then strncpy_from (m(s := t i)) (s + 1) t (Suc i) n
      else strncpy_fill (m(s := t i)) (s + 1) n)"

definition strncpy :: "bytes \<Rightarrow> nat \<Rightarrow> bytes \<Rightarrow> int \<Rightarrow> bytes" where
  "strncpy m s t n = strncpy_from m s t 0 (nat n)"

text \<open>\<^verbatim>\<open>safestrcpy\<close>: \<open>n\<close> here counts the bytes that may still be copied (\<open>--n\<close> of the source).\<close>

primrec safestrcpy_from :: "bytes \<Rightarrow> nat \<Rightarrow> bytes \<Rightarrow> nat \<Rightarrow> nat \<Rightarrow> bytes" where
  "safestrcpy_from m s t i 0 = m(s := 0)"
| "safestrcpy_from m s t i (Suc n) =
     (if t i \<noteq> 0 then safestrcpy_from (m(s := t i)) (s + 1) t (Suc i) n
      else (m(s := t i))(s + 1 := 0))"

definition safestrcpy :: "bytes \<Rightarrow> nat \<Rightarrow> bytes \<Rightarrow> int \<Rightarrow> bytes" where
  "safestrcpy m s t n = (if n \<le> 0 then m else safestrcpy_from m s t 0 (nat (n - 1)))"

text \<open>Loops that stop at a terminating zero only: \<open>None\<close> when there is none.\<close>

partial_function (option) strlen_from :: "bytes \<Rightarrow> nat \<Rightarrow> nat option" where
  "strlen_from p n = (if p n = 0 then Some n else strlen_from p (Suc n))"

definition strlen :: "bytes \<Rightarrow> nat option" where
  "strlen p = strlen_from p 0"

partial_function (option) strcpy_from :: "bytes \<Rightarrow> nat \<Rightarrow> bytes \<Rightarrow> nat \<Rightarrow> bytes option" where
  "strcpy_from m s t i =
     (if t i = 0 then Some (m(s := t i)) else strcpy_from (m(s := t i)) (s + 1) t (Suc i))"

definition strcpy :: "bytes \<Rightarrow> nat \<Rightarrow> bytes \<Rightarrow> bytes option" where
  "strcpy m s t = strcpy_from m s t 0"

partial_function (option) strcmp_from :: "bytes \<Rightarrow> bytes \<Rightarrow> nat \<Rightarrow> int option" where
  "strcmp_from p q i =
     (if p i \<noteq> 0 \<and> p i = q i then strcmp_from p q (Suc i) else Some (uint (p i) - uint (q i)))"

definition strcmp :: "bytes \<Rightarrow> bytes \<Rightarrow> int option" where
  "strcmp p q = strcmp_from p q 0"

text \<open>\<^verbatim>\<open>strchr\<close>: the offset of the first \<open>c\<close>, \<open>Some None\<close> for the null pointer.\<close>

partial_function (option) strchr_from :: "bytes \<Rightarrow> uchar \<Rightarrow> nat \<Rightarrow> nat option option" where
  "strchr_from p c i =
     (if p i = 0 then Some None else if p i = c then Some (Some i) else strchr_from p c (Suc i))"

definition strchr :: "bytes \<Rightarrow> uchar \<Rightarrow> nat option option" where
  "strchr p c = strchr_from p c 0"

text \<open>\<^verbatim>\<open>atoi\<close>: the accumulator is a C \<open>int\<close>, which wraps.\<close>

partial_function (option) atoi_from :: "bytes \<Rightarrow> nat \<Rightarrow> uint \<Rightarrow> uint option" where
  "atoi_from p i n =
     (if 48 \<le> p i \<and> p i \<le> 57 then atoi_from p (Suc i) (n * 10 + ucast (p i) - 48) else Some n)"

definition atoi :: "bytes \<Rightarrow> uint option" where
  "atoi p = atoi_from p 0 0"

section \<open>C strings as byte lists\<close>

text \<open>
  \<open>cview xs\<close> is the byte array holding the string \<open>xs\<close> and its terminating zero;
  \<open>cstring xs\<close> says that \<open>xs\<close> has no zero byte of its own.
\<close>

definition cview :: "uchar list \<Rightarrow> bytes" where
  "cview xs = (\<lambda>i. if i < length xs then xs ! i else 0)"

definition cstring :: "uchar list \<Rightarrow> bool" where
  "cstring xs \<longleftrightarrow> 0 \<notin> set xs"

section \<open>Lemmas: memory routines\<close>

lemma stosb_eq: "stosb m a c n = (\<lambda>i. if a \<le> i \<and> i < a + n then c else m i)"
  by (induction n arbitrary: m a) (auto simp: fun_eq_iff)

lemma fill_pattern:
  fixes c :: uint
  defines "v \<equiv> push_bit 24 (c AND 0xFF) OR push_bit 16 (c AND 0xFF) OR push_bit 8 (c AND 0xFF) OR (c AND 0xFF)"
  shows "(ucast v :: uchar) = ucast c" "(ucast (drop_bit 8 v) :: uchar) = ucast c"
    "(ucast (drop_bit 16 v) :: uchar) = ucast c" "(ucast (drop_bit 24 v) :: uchar) = ucast c"
proof -
  have m: "0xFF = (mask 8 :: uint)" by (simp add: mask_eq_exp_minus_1)
  show "(ucast v :: uchar) = ucast c" "(ucast (drop_bit 8 v) :: uchar) = ucast c"
    "(ucast (drop_bit 16 v) :: uchar) = ucast c" "(ucast (drop_bit 24 v) :: uchar) = ucast c"
    unfolding v_def m by (rule bit_word_eqI; auto simp: bit_simps)+
qed

lemma stosl_eq:
  assumes "\<And>k. k < 4 \<Longrightarrow> (ucast (drop_bit (8 * k) v) :: uchar) = c"
  shows "stosl m a v n = (\<lambda>i. if a \<le> i \<and> i < a + 4 * n then c else m i)"
proof (induction n arbitrary: m a)
  case 0
  then show ?case by (auto simp: fun_eq_iff)
next
  case (Suc n)
  have "st32 m a v = (\<lambda>i. if a \<le> i \<and> i < a + 4 then c else m i)"
    using assms[of 0] assms[of 1] assms[of 2] assms[of 3]
    by (auto simp: st32_def fun_eq_iff)
  then show ?case by (auto simp: Suc fun_eq_iff)
qed

lemma memset_eq: "memset m dst c n = (\<lambda>i. if dst \<le> i \<and> i < dst + n then ucast c else m i)"
proof (cases "dst mod 4 = 0 \<and> n mod 4 = 0")
  case True
  let ?v = "push_bit 24 (c AND 0xFF) OR push_bit 16 (c AND 0xFF) OR push_bit 8 (c AND 0xFF) OR (c AND 0xFF)"
  have "(ucast (drop_bit (8 * k) ?v) :: uchar) = ucast c" if "k < 4" for k
  proof -
    from that have "k \<in> {0, 1, 2, 3}" by auto
    then show ?thesis
      using fill_pattern[of c] by (elim insertE emptyE) (simp_all only: mult_0_right drop_bit_0 id_apply nat_mult_1_right mult_numeral_1_right numeral_times_numeral num.simps arith_simps)
  qed
  then have "stosl m dst ?v (n div 4) = (\<lambda>i. if dst \<le> i \<and> i < dst + 4 * (n div 4) then ucast c else m i)"
    by (rule stosl_eq)
  moreover have "4 * (n div 4) = n" using True by presburger
  ultimately show ?thesis using True by (simp add: memset_def Let_def)
next
  case False
  then show ?thesis by (auto simp: memset_def stosb_eq)
qed

lemma copy_up_eq:
  assumes "d \<le> s \<or> s + n \<le> d"
  shows "copy_up m d s n = (\<lambda>i. if d \<le> i \<and> i < d + n then m (s + (i - d)) else m i)"
  using assms
proof (induction n arbitrary: m d s)
  case 0
  then show ?case by (auto simp: fun_eq_iff)
next
  case (Suc n)
  then have "d + 1 \<le> s + 1 \<or> (s + 1) + n \<le> d + 1" by auto
  note IH = Suc.IH[OF this]
  have step: "Suc (s + x - Suc d) = s + x - d" if "Suc d \<le> x" for x
    using that by arith
  show ?case using Suc.prems unfolding copy_up.simps IH by (auto simp: fun_eq_iff le_Suc_eq step)
qed

lemma copy_down_eq:
  assumes "s \<le> d"
  shows "copy_down m (d + n) (s + n) n = (\<lambda>i. if d \<le> i \<and> i < d + n then m (s + (i - d)) else m i)"
  using assms
proof (induction n arbitrary: m)
  case 0
  then show ?case by (auto simp: fun_eq_iff)
next
  case (Suc n)
  have "copy_down m (d + Suc n) (s + Suc n) (Suc n) = copy_down (m(d + n := m (s + n))) (d + n) (s + n) n"
    by simp
  also have "\<dots> = (\<lambda>i. if d \<le> i \<and> i < d + n then (m(d + n := m (s + n))) (s + (i - d))
                         else (m(d + n := m (s + n))) i)"
    by (rule Suc.IH[OF Suc.prems])
  also have "\<dots> = (\<lambda>i. if d \<le> i \<and> i < d + Suc n then m (s + (i - d)) else m i)"
    using Suc.prems by (auto simp: fun_eq_iff less_Suc_eq)
  finally show ?case .
qed

lemma memmove_eq: "memmove m dst src n = blit m dst m src n"
  by (auto simp: memmove_def copy_down_eq copy_up_eq blit_def)

lemma memcmp_from_0_iff: "memcmp_from p q i n = 0 \<longleftrightarrow> (\<forall>j<n. p (i + j) = q (i + j))"
proof (induction n arbitrary: i)
  case (Suc n)
  then show ?case by (auto simp: less_Suc_eq_0_disj word_uint_eq_iff[symmetric])
qed simp

section \<open>Lemmas: strings\<close>

lemma strncmp_from_0_iff:
  "strncmp_from p q i n = 0 \<longleftrightarrow> (\<forall>j<n. (\<forall>k<j. p (i + k) \<noteq> 0) \<longrightarrow> p (i + j) = q (i + j))"
proof (induction n arbitrary: i)
  case (Suc n)
  show ?case
  proof (cases "p i \<noteq> 0 \<and> p i = q i")
    case True
    then show ?thesis by (simp add: Suc All_less_Suc2)
  next
    case False
    then show ?thesis by (auto simp: word_uint_eq_iff[symmetric] All_less_Suc2)
  qed
qed simp

lemma strncmp_0_iff: "strncmp p q n = 0 \<longleftrightarrow> (\<forall>j<n. (\<forall>k<j. p k \<noteq> 0) \<longrightarrow> p j = q j)"
  by (simp add: strncmp_def strncmp_from_0_iff)

lemma strncpy_fill_eq: "strncpy_fill m s n = (\<lambda>i. if s \<le> i \<and> i < s + n then 0 else m i)"
  by (induction n arbitrary: m s) (auto simp: fun_eq_iff)

lemma strncpy_from_at:
  "strncpy_from m s t i n a =
     (if s \<le> a \<and> a < s + n then (if \<forall>k < a - s. t (i + k) \<noteq> 0 then t (i + (a - s)) else 0) else m a)"
proof (induction n arbitrary: m s i)
  case 0
  then show ?case by auto
next
  case (Suc n)
  consider "a < s" | "a = s" | d where "a = Suc (s + d)"
    by (metis less_imp_Suc_add linorder_neqE_nat)
  then show ?case
  proof cases
    case 2
    show ?thesis by (auto simp: 2 Suc[unfolded 2] strncpy_fill_eq)
  next
    case 3
    have "(\<forall>k < Suc d. t (i + k) \<noteq> 0) \<longleftrightarrow> t i \<noteq> 0 \<and> (\<forall>k < d. t (Suc i + k) \<noteq> 0)"
      by (simp add: All_less_Suc2)
    then show ?thesis by (auto simp: 3 Suc[unfolded 3] strncpy_fill_eq)
  qed (simp_all add: Suc strncpy_fill_eq)
qed

lemma strncpy_at:
  "strncpy m s t n a =
     (if s \<le> a \<and> a < s + nat n then (if \<forall>k < a - s. t k \<noteq> 0 then t (a - s) else 0) else m a)"
  unfolding strncpy_def strncpy_from_at by auto

lemma strlen_from_Some:
  assumes "p (n + d) = 0" "\<And>j. j < d \<Longrightarrow> p (n + j) \<noteq> 0"
  shows "strlen_from p n = Some (n + d)"
  using assms
proof (induction d arbitrary: n)
  case 0
  then show ?case by (simp add: strlen_from.simps)
next
  case (Suc d)
  have "p n \<noteq> 0" using Suc.prems(2)[of 0] by simp
  moreover have "strlen_from p (Suc n) = Some (Suc n + d)"
  proof (rule Suc.IH)
    show "p (Suc n + d) = 0" using Suc.prems(1) by simp
    show "p (Suc n + j) \<noteq> 0" if "j < d" for j using Suc.prems(2)[of "Suc j"] that by simp
  qed
  ultimately show ?case by (simp add: strlen_from.simps[of p n])
qed

lemma strlen_cview: "cstring xs \<Longrightarrow> strlen (cview xs) = Some (length xs)"
  using strlen_from_Some[of "cview xs" 0 "length xs"]
  by (auto simp: strlen_def cview_def cstring_def in_set_conv_nth)

section \<open>Properties\<close>

text \<open>C14: \<open>memmove\<close> moves: whatever the overlap of source and destination, afterwards the
  destination holds the \<open>n\<close> bytes the source held before, and no other byte changes.\<close>

theorem memmove_moves:
  "memmove m dst src n a = (if dst \<le> a \<and> a < dst + n then m (src + (a - dst)) else m a)"
  by (simp add: memmove_eq blit_def)

text \<open>C15: the word-filling fast path of the kernel's \<open>memset\<close> is equivalent to the byte loop of the
  user library's: both store the low byte of \<open>c\<close> in exactly the \<open>n\<close> bytes at \<open>dst\<close>.\<close>

theorem memset_fast_path: "memset m dst c n = user_memset m dst c n"
  by (simp add: memset_eq user_memset_def stosb_eq)

text \<open>C16: a name stored by \<open>strncpy\<close> in a field of \<open>n\<close> bytes is found again by \<open>strncmp\<close>: the field
  compares equal to a string if and only if that string agrees with the stored one up to its end
  or up to \<open>n\<close> bytes.\<close>

theorem strncpy_strncmp:
  "strncmp q (\<lambda>i. strncpy m s t (int n) (s + i)) n = 0 \<longleftrightarrow>
     (\<forall>j<n. (\<forall>k<j. q k \<noteq> 0) \<longrightarrow> q j = t j)"
proof -
  have "(\<forall>j<n. (\<forall>k<j. q k \<noteq> 0) \<longrightarrow> q j = (if \<forall>k<j. t k \<noteq> 0 then t j else 0)) \<longleftrightarrow>
      (\<forall>j<n. (\<forall>k<j. q k \<noteq> 0) \<longrightarrow> q j = t j)" (is "?L = ?R")
  proof
    assume L: ?L
    have "q j = t j" if "j < n" "\<forall>k<j. q k \<noteq> 0" for j
      using that
    proof (induction j rule: less_induct)
      case (less j)
      have "t k \<noteq> 0" if "k < j" for k using less.IH[OF that] less.prems that by auto
      then show ?case using L less.prems by auto
    qed
    then show ?R by blast
  next
    assume R: ?R
    have nz: "\<forall>k<j. t k \<noteq> 0" if "j < n" "\<forall>k<j. q k \<noteq> 0" for j
    proof (intro allI impI)
      fix k assume k: "k < j"
      then have "q k = t k" using R that by auto
      then show "t k \<noteq> 0" using that k by auto
    qed
    show ?L
    proof (intro allI impI)
      fix j assume j: "j < n" "\<forall>k<j. q k \<noteq> 0"
      have "q j = t j" using R j by blast
      then show "q j = (if \<forall>k<j. t k \<noteq> 0 then t j else 0)" unfolding if_P[OF nz[OF j]] .
    qed
  qed
  moreover have "strncpy m s t (int n) (s + j) = (if \<forall>k<j. t k \<noteq> 0 then t j else 0)" if "j < n" for j
    using that by (auto simp: strncpy_at)
  ultimately show ?thesis unfolding strncmp_0_iff by (simp cong: imp_cong)
qed

theorem strncpy_strncmp_witness:
  "strncmp (cview [97, 98]) (\<lambda>i. strncpy zero_bytes 4 (cview [97, 98]) (int 3) (4 + i)) 3 = 0"
  using strncpy_strncmp[of "cview [97, 98]" zero_bytes 4 "cview [97, 98]" 3] by simp

end
