(* ===== verification/Sector_Cache.thy ===== *)
theory Sector_Cache
  imports Xv6_Prelude
begin

text \<open>
  What the file systems rely on when they work on disk blocks. A client reads a sector into a
  locked buffer, looks at the buffer's bytes or overwrites them, asks for the change to be kept,
  and releases the buffer. The contract is stated over \<open>view\<close>, the contents of every sector as a
  reader would find them, so that clients never mention buffers, locks or the disk.

  It has two providers: the buffer cache itself, where keeping a change is \<open>bwrite\<close> (the FAT
  file system uses it this way), and the cache under the log, where it is \<open>log_write\<close> (the
  simple file system uses it this way).
\<close>

type_synonym dmap = "uint \<Rightarrow> uint \<Rightarrow> bytes"

definition dput :: "uint \<Rightarrow> uint \<Rightarrow> bytes \<Rightarrow> dmap \<Rightarrow> dmap" where
  \<comment> \<open>the sectors after one of them is overwritten\<close>
  "dput dev sec d D = D(dev := (D dev)(sec := d))"

lemma dput_same [simp]: "dput d x v D d x = v"
  by (simp add: dput_def)

lemma dput_other [simp]: "e \<noteq> d \<or> y \<noteq> x \<Longrightarrow> dput d x v D e y = D e y"
  by (auto simp: dput_def)

lemma dput_dput [simp]: "dput d x v (dput d x w D) = dput d x v D"
  by (simp add: dput_def fun_eq_iff)

lemma dput_triv [simp]: "dput d x (D d x) D = D"
  by (simp add: dput_def)

text \<open>
  \<open>inv\<close> is the provider's invariant, \<open>usable\<close> the sectors clients may touch, \<open>lk s i d x\<close> that
  buffer \<open>i\<close> is locked and holds sector \<open>x\<close> of device \<open>d\<close>, \<open>synced s i\<close> that its changes have
  been asked to be kept, and \<open>rest\<close> the state the provider does not touch.
\<close>

locale sector_cache =
  fixes inv :: "'s \<Rightarrow> bool"
    and view :: "'s \<Rightarrow> dmap"
    and usable :: "'s \<Rightarrow> uint \<Rightarrow> uint \<Rightarrow> bool"
    and lk :: "'s \<Rightarrow> nat \<Rightarrow> uint \<Rightarrow> uint \<Rightarrow> bool"
    and synced :: "'s \<Rightarrow> nat \<Rightarrow> bool"
    and rest :: "'s \<Rightarrow> 'r"
    and rd :: "uint \<Rightarrow> uint \<Rightarrow> ('s, nat) prog"
    and dat :: "nat \<Rightarrow> ('s, bytes) prog"
    and put :: "nat \<Rightarrow> bytes \<Rightarrow> ('s, unit) prog"
    and wr :: "nat \<Rightarrow> ('s, unit) prog"
    and rel :: "nat \<Rightarrow> ('s, unit) prog"
  assumes rd_law: "inv s \<Longrightarrow> usable s d x \<Longrightarrow> rd d x s = Ret (i, s') \<Longrightarrow>
      inv s' \<and> view s' = view s \<and> usable s' = usable s \<and> rest s' = rest s \<and>
      lk s' i d x \<and> synced s' i \<and> (\<forall>e y. \<not> lk s i e y) \<and>
      (\<forall>j. j \<noteq> i \<longrightarrow> lk s' j = lk s j \<and> synced s' j = synced s j)"
    and dat_law: "inv s \<Longrightarrow> lk s i d x \<Longrightarrow> dat i s = Ret (view s d x, s)"
    and lk_unique: "inv s \<Longrightarrow> lk s i d x \<Longrightarrow> lk s i e y \<Longrightarrow> e = d \<and> y = x"
    and put_law: "inv s \<Longrightarrow> usable s d x \<Longrightarrow> lk s i d x \<Longrightarrow> put i v s = Ret ((), s') \<Longrightarrow>
      inv s' \<and> view s' = dput d x v (view s) \<and> usable s' = usable s \<and> rest s' = rest s \<and>
      lk s' = lk s \<and> (\<forall>j. j \<noteq> i \<longrightarrow> synced s' j = synced s j)"
    and wr_law: "inv s \<Longrightarrow> usable s d x \<Longrightarrow> lk s i d x \<Longrightarrow> wr i s = Ret ((), s') \<Longrightarrow>
      inv s' \<and> view s' = view s \<and> usable s' = usable s \<and> rest s' = rest s \<and>
      lk s' = lk s \<and> synced s' i \<and>
      (\<forall>j e y. lk s j e y \<longrightarrow> j \<noteq> i \<longrightarrow> synced s' j = synced s j)"
    and rel_law: "inv s \<Longrightarrow> lk s i d x \<Longrightarrow> synced s i \<Longrightarrow> rel i s = Ret ((), s') \<Longrightarrow>
      inv s' \<and> view s' = view s \<and> usable s' = usable s \<and> rest s' = rest s \<and>
      (\<forall>e y. \<not> lk s' i e y) \<and> (\<forall>j. j \<noteq> i \<longrightarrow> lk s' j = lk s j \<and> synced s' j = synced s j)"
begin

text \<open>
  \<open>keeps s s'\<close>: the client holds the same buffers as before, with the same standing, and what
  lies outside the provider is unchanged. Every complete block operation keeps this.
\<close>

definition keeps :: "'s \<Rightarrow> 's \<Rightarrow> bool" where
  "keeps s s' \<longleftrightarrow> inv s' \<and> usable s' = usable s \<and> rest s' = rest s \<and> lk s' = lk s \<and>
     (\<forall>j e y. lk s j e y \<longrightarrow> synced s' j = synced s j)"

lemma keeps_refl: "inv s \<Longrightarrow> keeps s s"
  by (simp add: keeps_def)

lemma keeps_trans: "keeps s t \<Longrightarrow> keeps t u \<Longrightarrow> keeps s u"
  unfolding keeps_def by auto

lemma keeps_inv: "keeps s t \<Longrightarrow> inv t"
  by (simp add: keeps_def)

lemma keeps_usable: "keeps s t \<Longrightarrow> usable t = usable s"
  by (simp add: keeps_def)

text \<open>Run \<open>body\<close> on the contents of a sector: read it, look, release it.\<close>

lemma wlp_read_sector:
  assumes "inv s" "usable s d x"
    and "\<And>s'. keeps s s' \<Longrightarrow> view s' = view s \<Longrightarrow> wlp (k (view s d x)) Q s'"
  shows "wlp (kbind (rd d x) (\<lambda>i. kbind (dat i) (\<lambda>v. kbind (rel i) (\<lambda>_. k v)))) Q s"
proof (rule wlpI)
  fix z t
  assume "kbind (rd d x) (\<lambda>i. kbind (dat i) (\<lambda>v. kbind (rel i) (\<lambda>_. k v))) s = Ret (z, t)"
  then obtain i s1 v s1' s2 where r: "rd d x s = Ret (i, s1)" and dt: "dat i s1 = Ret (v, s1')"
    and e: "rel i s1' = Ret ((), s2)" and kk: "k v s2 = Ret (z, t)"
    by (auto simp: kbind_Ret)
  note l1 = rd_law[OF assms(1,2) r]
  have v: "v = view s d x" "s1' = s1" using dat_law[of s1 i d x] l1 dt by auto
  have l2: "inv s2 \<and> view s2 = view s1 \<and> usable s2 = usable s1 \<and> rest s2 = rest s1 \<and>
      (\<forall>e y. \<not> lk s2 i e y) \<and> (\<forall>j. j \<noteq> i \<longrightarrow> lk s2 j = lk s1 j \<and> synced s2 j = synced s1 j)"
    using rel_law[of s1 i d x s2] l1 e v by auto
  have "lk s2 j = lk s j" for j
    using l1 l2 by (cases "j = i") (auto simp: fun_eq_iff)
  moreover have "\<forall>j e y. lk s j e y \<longrightarrow> synced s2 j = synced s j" using l1 l2 by metis
  ultimately have "keeps s s2" using l1 l2 by (auto simp: keeps_def)
  then have "wlp (k v) Q s2" using l1 l2 unfolding v by (intro assms(3)) auto
  then show "Q z t" using kk by (rule wlpD)
qed

text \<open>Replace a sector by a function of its contents: read, modify, keep, release.\<close>

lemma wlp_update_sector:
  assumes "inv s" "usable s d x"
    and "\<And>s'. keeps s s' \<Longrightarrow> view s' = dput d x (f (view s d x)) (view s) \<Longrightarrow> wlp k Q s'"
  shows "wlp (kbind (rd d x) (\<lambda>i. kbind (dat i) (\<lambda>v. kbind (put i (f v)) (\<lambda>_.
           kbind (wr i) (\<lambda>_. kbind (rel i) (\<lambda>_. k)))))) Q s"
proof (rule wlpI)
  fix z t
  let ?v = "f (view s d x)"
  assume "kbind (rd d x) (\<lambda>i. kbind (dat i) (\<lambda>v. kbind (put i (f v)) (\<lambda>_.
           kbind (wr i) (\<lambda>_. kbind (rel i) (\<lambda>_. k))))) s = Ret (z, t)"
  then obtain i s1 v s1' s2 s3 s4 where r: "rd d x s = Ret (i, s1)" and dt: "dat i s1 = Ret (v, s1')"
    and p: "put i (f v) s1' = Ret ((), s2)" and w: "wr i s2 = Ret ((), s3)"
    and e: "rel i s3 = Ret ((), s4)" and kk: "k s4 = Ret (z, t)"
    by (auto simp: kbind_Ret)
  note l1 = rd_law[OF assms(1,2) r]
  have v: "v = view s d x" "s1' = s1" using dat_law[of s1 i d x] l1 dt by auto
  have l2: "inv s2 \<and> view s2 = dput d x ?v (view s) \<and> usable s2 = usable s \<and> rest s2 = rest s \<and>
      lk s2 = lk s1 \<and> (\<forall>j. j \<noteq> i \<longrightarrow> synced s2 j = synced s1 j)"
    using put_law[of s1 d x i ?v s2] l1 p v assms(2) by auto
  have l3: "inv s3 \<and> view s3 = view s2 \<and> usable s3 = usable s \<and> rest s3 = rest s \<and> lk s3 = lk s1 \<and>
      synced s3 i \<and> (\<forall>j e y. lk s1 j e y \<longrightarrow> j \<noteq> i \<longrightarrow> synced s3 j = synced s2 j)"
    using wr_law[of s2 d x i s3] l1 l2 w assms(2) by auto
  have l4: "inv s4 \<and> view s4 = view s3 \<and> usable s4 = usable s \<and> rest s4 = rest s \<and>
      (\<forall>e y. \<not> lk s4 i e y) \<and> (\<forall>j. j \<noteq> i \<longrightarrow> lk s4 j = lk s1 j \<and> synced s4 j = synced s3 j)"
    using rel_law[of s3 i d x s4] l1 l3 e by auto
  have "lk s4 j = lk s j" for j
    using l1 l4 by (cases "j = i") (auto simp: fun_eq_iff)
  moreover have "\<forall>j e y. lk s j e y \<longrightarrow> synced s4 j = synced s j" using l1 l2 l3 l4 by metis
  ultimately have "keeps s s4" using l4 by (auto simp: keeps_def)
  then have "wlp k Q s4" using l2 l3 l4 by (intro assms(3)) auto
  then show "Q z t" using kk by (rule wlpD)
qed

end

text \<open>
  The same with the resources it takes, so that clients can show that their operations return.
  \<open>kept s\<close> are the sectors the provider holds back for the running transaction, \<open>locks s\<close> is how
  many buffers are locked, \<open>cap\<close> how many there are, and \<open>lim s\<close> bounds the size of \<open>kept s\<close>.
  \<open>affords s K m h\<close>: changes to the sectors \<open>K\<close> and to \<open>m\<close> others can be kept, locking \<open>h\<close> buffers at
  a time.
\<close>

locale sector_store =
  sector_cache inv view usable lk synced rest rd dat put wr rel
  for inv :: "'s \<Rightarrow> bool"
    and view :: "'s \<Rightarrow> dmap"
    and usable :: "'s \<Rightarrow> uint \<Rightarrow> uint \<Rightarrow> bool"
    and lk :: "'s \<Rightarrow> nat \<Rightarrow> uint \<Rightarrow> uint \<Rightarrow> bool"
    and synced :: "'s \<Rightarrow> nat \<Rightarrow> bool"
    and rest :: "'s \<Rightarrow> 'r"
    and rd :: "uint \<Rightarrow> uint \<Rightarrow> ('s, nat) prog"
    and dat :: "nat \<Rightarrow> ('s, bytes) prog"
    and put :: "nat \<Rightarrow> bytes \<Rightarrow> ('s, unit) prog"
    and wr :: "nat \<Rightarrow> ('s, unit) prog"
    and rel :: "nat \<Rightarrow> ('s, unit) prog" +
  fixes kept :: "'s \<Rightarrow> (uint \<times> uint) set"
    and locks :: "'s \<Rightarrow> nat"
    and cap :: nat
    and lim :: "'s \<Rightarrow> nat"
  assumes finite_kept: "finite (kept s)"
    and rd_total: "inv s \<Longrightarrow> usable s d x \<Longrightarrow> (\<forall>i. \<not> lk s i d x) \<Longrightarrow> locks s + card (kept s) < cap \<Longrightarrow>
      \<exists>i s'. rd d x s = Ret (i, s')"
    and rd_cost: "inv s \<Longrightarrow> usable s d x \<Longrightarrow> rd d x s = Ret (i, s') \<Longrightarrow>
      kept s' = kept s \<and> locks s' = Suc (locks s) \<and> lim s' = lim s"
    and put_total: "inv s \<Longrightarrow> usable s d x \<Longrightarrow> lk s i d x \<Longrightarrow> \<exists>s'. put i v s = Ret ((), s') \<and>
      kept s' = kept s \<and> locks s' = locks s \<and> lim s' = lim s"
    and wr_total: "inv s \<Longrightarrow> usable s d x \<Longrightarrow> lk s i d x \<Longrightarrow> card (kept s) < lim s \<Longrightarrow> locks s + card (kept s) < cap \<Longrightarrow>
      \<exists>s'. wr i s = Ret ((), s')"
    and wr_cost: "inv s \<Longrightarrow> usable s d x \<Longrightarrow> lk s i d x \<Longrightarrow> wr i s = Ret ((), s') \<Longrightarrow>
      kept s' \<subseteq> insert (d, x) (kept s) \<and> locks s' = locks s \<and> lim s' = lim s"
    and rel_total: "inv s \<Longrightarrow> lk s i d x \<Longrightarrow> synced s i \<Longrightarrow> \<exists>s'. rel i s = Ret ((), s') \<and>
      kept s' = kept s \<and> Suc (locks s') = locks s \<and> lim s' = lim s"
begin

definition affords :: "'s \<Rightarrow> (uint \<times> uint) set \<Rightarrow> nat \<Rightarrow> nat \<Rightarrow> bool" where
  "affords s K m h \<longleftrightarrow> finite K \<and> locks s + h + card (kept s \<union> K) + m < cap \<and> card (kept s \<union> K) + m < lim s"

definition spends :: "'s \<Rightarrow> 's \<Rightarrow> (uint \<times> uint) set \<Rightarrow> bool" where
  "spends s s' X \<longleftrightarrow> keeps s s' \<and> kept s' \<subseteq> kept s \<union> X \<and> locks s' = locks s \<and> lim s' = lim s"

lemma spends_keeps: "spends s t X \<Longrightarrow> keeps s t"
  by (simp add: spends_def)

lemma spends_inv: "spends s t X \<Longrightarrow> inv t"
  by (simp add: spends_def keeps_def)

lemma spends_usable: "spends s t X \<Longrightarrow> usable t = usable s"
  by (simp add: spends_def keeps_def)

lemma spends_lk: "spends s t X \<Longrightarrow> lk t = lk s"
  by (simp add: spends_def keeps_def)

lemma spends_rest: "spends s t X \<Longrightarrow> rest t = rest s"
  by (simp add: spends_def keeps_def)

lemma spends_refl: "inv s \<Longrightarrow> spends s s X"
  by (auto simp: spends_def keeps_refl)

lemma spends_trans: "spends s t X \<Longrightarrow> spends t u Y \<Longrightarrow> spends s u (X \<union> Y)"
  by (auto simp: spends_def intro: keeps_trans)

lemma spends_mono: "spends s t X \<Longrightarrow> X \<subseteq> Y \<Longrightarrow> spends s t Y"
  by (auto simp: spends_def)

lemma affords_mono: "affords s K m h \<Longrightarrow> n \<le> m \<Longrightarrow> g \<le> h \<Longrightarrow> affords s K n g"
  by (auto simp: affords_def)

lemma affords_subset:
  assumes "affords s K m h" "L \<subseteq> K"
  shows "affords s L m h"
proof -
  have "finite K" using assms(1) by (simp add: affords_def)
  then have "card (kept s \<union> L) \<le> card (kept s \<union> K)" using assms(2) finite_kept[of s] by (intro card_mono) auto
  then show ?thesis using assms finite_subset[OF assms(2)] by (auto simp: affords_def)
qed

lemma affords_spends_more:
  assumes aff: "affords s K m h" and sp: "spends s t (A \<union> B)" and A: "A \<subseteq> K" and B: "finite B" "card B \<le> n" and n: "n \<le> m"
  shows "affords t (K \<union> B) (m - n) h"
proof -
  have K: "finite K" using aff by (simp add: affords_def)
  have "kept t \<union> (K \<union> B) \<subseteq> kept s \<union> K \<union> B" using sp A by (auto simp: spends_def)
  then have "card (kept t \<union> (K \<union> B)) \<le> card (kept s \<union> K \<union> B)"
    using K B finite_kept[of s] by (intro card_mono) auto
  also have "\<dots> \<le> card (kept s \<union> K) + card B" by (rule card_Un_le)
  finally show ?thesis using aff sp B n by (auto simp: affords_def spends_def)
qed

lemma affords_spends:
  "affords s K m h \<Longrightarrow> spends s t (A \<union> B) \<Longrightarrow> A \<subseteq> K \<Longrightarrow> finite B \<Longrightarrow> card B \<le> n \<Longrightarrow> n \<le> m \<Longrightarrow> affords t K (m - n) h"
  by (rule affords_subset[OF affords_spends_more]) auto

lemma affords_spends_in: "affords s K m h \<Longrightarrow> spends s t A \<Longrightarrow> A \<subseteq> K \<Longrightarrow> affords t K m h"
  using affords_spends[of s K m h t A "{}" 0] by simp

lemma affords_spends_1: "affords s K m h \<Longrightarrow> spends s t (insert x A) \<Longrightarrow> A \<subseteq> K \<Longrightarrow> 0 < m \<Longrightarrow> affords t K (m - 1) h"
  using affords_spends[of s K m h t A "{x}" 1] by simp

text \<open>\<open>takes s s' i d x\<close>: buffer \<open>i\<close> was locked for the sector, and nothing else happened.\<close>

definition takes :: "'s \<Rightarrow> 's \<Rightarrow> nat \<Rightarrow> uint \<Rightarrow> uint \<Rightarrow> bool" where
  "takes s s' i d x \<longleftrightarrow> inv s' \<and> view s' = view s \<and> usable s' = usable s \<and> rest s' = rest s \<and>
     lk s' i d x \<and> synced s' i \<and> (\<forall>e y. \<not> lk s i e y) \<and>
     (\<forall>j. j \<noteq> i \<longrightarrow> lk s' j = lk s j \<and> synced s' j = synced s j) \<and>
     kept s' = kept s \<and> locks s' = Suc (locks s) \<and> lim s' = lim s"

lemma affords_takes:
  "affords s K m (Suc h) \<Longrightarrow> takes s t i d x \<Longrightarrow> affords t K m h"
  by (auto simp: affords_def takes_def)

lemma affords_few:
  assumes "affords s K m h"
  shows "locks s + h + card (kept s) < cap" "card (kept s) < lim s"
proof -
  have "card (kept s) \<le> card (kept s \<union> K)"
    using assms finite_kept by (intro card_mono) (auto simp: affords_def)
  then show "locks s + h + card (kept s) < cap" "card (kept s) < lim s" using assms by (auto simp: affords_def)
qed

definition has_buffer :: "'s \<Rightarrow> bool" where
  "has_buffer s \<longleftrightarrow> locks s + card (kept s) < cap"

lemma affords_buffer: "affords s K m h \<Longrightarrow> has_buffer s"
  using affords_few(1)[of s K m h] by (simp add: has_buffer_def)

lemma buffer_spends: "has_buffer s \<Longrightarrow> spends s t {} \<Longrightarrow> has_buffer t"
  using card_mono[OF finite_kept, of "kept t" s] by (simp add: has_buffer_def spends_def)

text \<open>The rules are stated for \<open>wp (rd d x) (\<lambda>i. wp (dat i) ...)\<close>, the form \<open>wp_kbind_fun\<close> gives a program.\<close>

lemma wp_rd:
  assumes i: "inv s" "usable s d x" and free: "\<forall>i. \<not> lk s i d x" and room: "has_buffer s"
    and k: "\<And>i s'. takes s s' i d x \<Longrightarrow> Q i s'"
  shows "wp (rd d x) Q s"
proof -
  obtain b s1 where r: "rd d x s = Ret (b, s1)" using rd_total[OF i free] room by (auto simp: has_buffer_def)
  have "takes s s1 b d x" using rd_law[OF i r] rd_cost[OF i r] by (auto simp: takes_def)
  then show ?thesis using k by (simp add: wp_def r)
qed

lemma wp_dat:
  assumes t: "takes s s1 i d x" and m: "spends s1 s2 X" and k: "Q (view s2 d x) s2"
  shows "wp (dat i) Q s2"
proof -
  have "inv s2" "lk s2 i d x" using t m by (auto simp: takes_def spends_def keeps_def)
  then show ?thesis using k dat_law[of s2 i d x] by (simp add: wp_def)
qed

lemma wp_rel:
  assumes t: "takes s s1 i d x" and m: "spends s1 s2 X"
    and k: "\<And>s3. spends s s3 X \<Longrightarrow> view s3 = view s2 \<Longrightarrow> Q () s3"
  shows "wp (rel i) Q s2"
proof -
  have s2: "inv s2" "lk s2 i d x" "synced s2 i" using t m by (auto simp: takes_def spends_def keeps_def)
  obtain s3 where e: "rel i s2 = Ret ((), s3)" and c: "kept s3 = kept s2" "Suc (locks s3) = locks s2" "lim s3 = lim s2"
    using rel_total[OF s2] by auto
  note l = rel_law[OF s2 e]
  have "lk s3 j = lk s j" for j
    using l t m by (cases "j = i") (auto simp: fun_eq_iff takes_def spends_def keeps_def)
  moreover have "synced s3 j = synced s j" if "lk s j a y" for j a y
  proof -
    have "j \<noteq> i" using that t by (auto simp: takes_def)
    then have "lk s1 j a y" "synced s3 j = synced s2 j" "synced s1 j = synced s j"
      using that l t by (auto simp: takes_def)
    then show ?thesis using m by (auto simp: spends_def keeps_def)
  qed
  ultimately have f: "lk s3 = lk s" "\<forall>j e y. lk s j e y \<longrightarrow> synced s3 j = synced s j" by blast+
  have "inv s3" "usable s3 = usable s" "rest s3 = rest s" "kept s3 \<subseteq> kept s \<union> X" "locks s3 = locks s" "lim s3 = lim s"
    using l t m c by (simp_all add: takes_def spends_def keeps_def)
  with f have "spends s s3 X" by (simp add: spends_def keeps_def)
  from k[OF this] show ?thesis using l e by (simp add: wp_def)
qed

lemma wp_put_wr:
  assumes t: "takes s s1 i d x" and u: "usable s d x" and m: "spends s1 s2 X" and aff: "affords s2 K n h"
    and k: "\<And>s3. spends s1 s3 (insert (d, x) X) \<Longrightarrow> view s3 = dput d x v (view s2) \<Longrightarrow> Q () s3"
  shows "wp (put i v) (\<lambda>_. wp (wr i) Q) s2"
proof -
  have s2: "inv s2" "usable s2 d x" "lk s2 i d x" using t m u by (auto simp: takes_def spends_def keeps_def)
  obtain s3 where p: "put i v s2 = Ret ((), s3)" and c3: "kept s3 = kept s2" "locks s3 = locks s2" "lim s3 = lim s2"
    using put_total[OF s2] by auto
  note l3 = put_law[OF s2 p]
  have u3: "inv s3" "usable s3 d x" "lk s3 i d x" using l3 s2 by auto
  obtain s4 where w: "wr i s3 = Ret ((), s4)"
    using wr_total[OF u3] affords_few[OF aff] c3 by auto
  note l4 = wr_law[OF u3 w] and c4 = wr_cost[OF u3 w]
  have "synced s4 j = synced s1 j" if "lk s1 j e y" for j e y
  proof (cases "j = i")
    case True
    then show ?thesis using t l4 by (auto simp: takes_def)
  next
    case False
    have "lk s3 j e y" "synced s2 j = synced s1 j" using that m l3 by (auto simp: spends_def keeps_def)
    then show ?thesis using False l3 l4 by metis
  qed
  then have sy: "\<forall>j e y. lk s1 j e y \<longrightarrow> synced s4 j = synced s1 j" by blast
  have "inv s4" "usable s4 = usable s1" "rest s4 = rest s1" "lk s4 = lk s1" "locks s4 = locks s1" "lim s4 = lim s1"
    using m l3 l4 c3 c4 by (simp_all add: spends_def keeps_def)
  moreover have "kept s4 \<subseteq> kept s1 \<union> insert (d, x) X" using m c3 c4 by (auto simp: spends_def)
  ultimately have "spends s1 s4 (insert (d, x) X)" using sy by (simp add: spends_def keeps_def)
  from k[OF this] show ?thesis using l3 l4 by (simp add: wp_def p w)
qed

text \<open>Read a sector; replace a sector by a function of its contents; overwrite a sector.\<close>

lemma wp_read_sector:
  assumes "inv s" "usable s d x" "\<forall>i. \<not> lk s i d x" "has_buffer s"
    and k: "\<And>s'. spends s s' {} \<Longrightarrow> view s' = view s \<Longrightarrow> Q (view s d x) s'"
  shows "wp (rd d x) (\<lambda>i. wp (dat i) (\<lambda>v. wp (rel i) (\<lambda>_. Q v))) s"
proof (rule wp_rd[OF assms(1-4)])
  fix i s1
  assume t: "takes s s1 i d x"
  then have s1: "spends s1 s1 {}" "view s1 = view s" by (auto simp: takes_def spends_refl)
  show "wp (dat i) (\<lambda>v. wp (rel i) (\<lambda>_. Q v)) s1"
    by (rule wp_dat[OF t s1(1)], rule wp_rel[OF t s1(1)]) (use k s1 in auto)
qed

lemma wp_update_sector:
  assumes "inv s" "usable s d x" "\<forall>i. \<not> lk s i d x" and aff: "affords s K m (Suc h)"
    and k: "\<And>s'. spends s s' {(d, x)} \<Longrightarrow> view s' = dput d x (f (view s d x)) (view s) \<Longrightarrow> Q () s'"
  shows "wp (rd d x) (\<lambda>i. wp (dat i) (\<lambda>v. wp (put i (f v)) (\<lambda>_. wp (wr i) (\<lambda>_. wp (rel i) Q)))) s"
proof (rule wp_rd[OF assms(1-3) affords_buffer[OF aff]])
  fix i s1
  assume t: "takes s s1 i d x"
  then have s1: "spends s1 s1 {}" "view s1 = view s" "affords s1 K m h"
    using affords_takes[OF aff t] by (auto simp: takes_def spends_refl)
  show "wp (dat i) (\<lambda>v. wp (put i (f v)) (\<lambda>_. wp (wr i) (\<lambda>_. wp (rel i) Q))) s1"
    by (rule wp_dat[OF t s1(1)], rule wp_put_wr[OF t assms(2) s1(1,3)], rule wp_rel[OF t]) (use k s1 in auto)
qed

lemma wp_write_sector:
  assumes "inv s" "usable s d x" "\<forall>i. \<not> lk s i d x" and aff: "affords s K m (Suc h)"
    and k: "\<And>s'. spends s s' {(d, x)} \<Longrightarrow> view s' = dput d x v (view s) \<Longrightarrow> Q () s'"
  shows "wp (rd d x) (\<lambda>i. wp (put i v) (\<lambda>_. wp (wr i) (\<lambda>_. wp (rel i) Q))) s"
proof (rule wp_rd[OF assms(1-3) affords_buffer[OF aff]])
  fix i s1
  assume t: "takes s s1 i d x"
  then have s1: "spends s1 s1 {}" "view s1 = view s" "affords s1 K m h"
    using affords_takes[OF aff t] by (auto simp: takes_def spends_refl)
  show "wp (put i v) (\<lambda>_. wp (wr i) (\<lambda>_. wp (rel i) Q)) s1"
    by (rule wp_put_wr[OF t assms(2) s1(1,3)], rule wp_rel[OF t]) (use k s1 in auto)
qed

end

end
