(* ===== verification/Bio.thy ===== *)
theory Bio
  imports Cstring Sector_Cache
begin

text \<open>
  The buffer cache (\<^verbatim>\<open>bio.c\<close>, \<^verbatim>\<open>buf.h\<close>) over the disks. The doubly linked list through
  \<^verbatim>\<open>bcache.head\<close> is the list \<open>lru\<close> of buffer numbers, most recently used first
  (\<open>Bio_Links\<close> relates it to the pointers). The flag word is its three bits. A sector is an
  array of bytes; only the first 512 are ever used, and a copy of all 512 is an assignment.

  \<open>iderw\<close> is the effect of one completed disk request: \<open>Ide\<close> models the request queue and the
  interrupt handler and derives this effect. \<open>image\<close> is what the disks held at power-on and
  \<open>dwrites\<close> the sectors they have stored since, newest first: no code reads the two, the crash
  theorems do.
\<close>

section \<open>State\<close>

definition NBUF :: nat where "NBUF = 10"

abbreviation nodev :: uint where "nodev \<equiv> - 1"

record buf =
  b_busy :: bool
  b_valid :: bool
  b_dirty :: bool
  b_dev :: uint
  b_sector :: uint
  b_data :: bytes

record bio =
  disk :: dmap
  bufs :: "nat \<Rightarrow> buf"
  lru :: "nat list"
  havedisk1 :: bool
  havedisk2 :: bool
  dwrites :: "(uint \<times> uint \<times> bytes) list"
  image :: dmap

definition set_buf :: "nat \<Rightarrow> buf \<Rightarrow> 'a bio_scheme \<Rightarrow> 'a bio_scheme" where
  "set_buf i b s = s\<lparr>bufs := (bufs s)(i := b)\<rparr>"

definition set_data :: "nat \<Rightarrow> bytes \<Rightarrow> 'a bio_scheme \<Rightarrow> 'a bio_scheme" where
  \<comment> \<open>assign to \<open>b->data\<close>\<close>
  "set_data i d s = set_buf i ((bufs s i)\<lparr>b_data := d\<rparr>) s"

section \<open>Operations\<close>

definition binit :: "('a bio_scheme, unit) prog" where
  "binit = kmod (\<lambda>s. fold
     (\<lambda>b s. set_buf b ((bufs s b)\<lparr>b_dev := nodev\<rparr>) (s\<lparr>lru := b # lru s\<rparr>))
     [0..<NBUF] (s\<lparr>lru := []\<rparr>))"

definition is_sector :: "'a bio_scheme \<Rightarrow> uint \<Rightarrow> uint \<Rightarrow> nat \<Rightarrow> bool" where
  "is_sector s dev sec i \<longleftrightarrow> b_dev (bufs s i) = dev \<and> b_sector (bufs s i) = sec"

definition bcached :: "'a bio_scheme \<Rightarrow> uint \<Rightarrow> uint \<Rightarrow> nat option" where
  \<comment> \<open>the first loop of \<open>bget\<close>, from \<open>head.next\<close> forwards\<close>
  "bcached s dev sec = find (is_sector s dev sec) (lru s)"

definition bvictim :: "'a bio_scheme \<Rightarrow> nat option" where
  \<comment> \<open>the second loop of \<open>bget\<close>, from \<open>head.prev\<close> backwards\<close>
  "bvictim s = find (\<lambda>i. \<not> b_busy (bufs s i) \<and> \<not> b_dirty (bufs s i)) (rev (lru s))"

definition bget :: "uint \<Rightarrow> uint \<Rightarrow> ('a bio_scheme, nat) prog" where
  "bget dev sec = (\<lambda>s.
     case bcached s dev sec of
       Some i \<Rightarrow>
         if \<not> b_busy (bufs s i) then Ret (i, set_buf i ((bufs s i)\<lparr>b_busy := True\<rparr>) s)
         else Blocked
     | None \<Rightarrow>
         (case bvictim s of
            Some i \<Rightarrow> Ret (i, set_buf i ((bufs s i)\<lparr>b_dev := dev, b_sector := sec,
                 b_busy := True, b_valid := False, b_dirty := False\<rparr>) s)
          | None \<Rightarrow> Panic ''bget: no buffers''))"

definition iderw :: "nat \<Rightarrow> ('a bio_scheme, unit) prog" where
  "iderw i = (\<lambda>s. let b = bufs s i in
     if \<not> b_busy b then Panic ''iderw: buf not busy''
     else if b_valid b \<and> \<not> b_dirty b then Panic ''iderw: nothing to do''
     else if b_dev b \<noteq> 0 \<and> \<not> havedisk1 s then Panic ''iderw: ide disk 1 not present''
     else if b_dev b \<noteq> 0 \<and> \<not> havedisk2 s then Panic ''iderw: ide disk 2 not present''
     else if b_dirty b then
       Ret ((), set_buf i (b\<lparr>b_valid := True, b_dirty := False\<rparr>)
         (s\<lparr>disk := dput (b_dev b) (b_sector b) (b_data b) (disk s),
            dwrites := (b_dev b, b_sector b, b_data b) # dwrites s\<rparr>))
     else Ret ((), set_buf i (b\<lparr>b_data := disk s (b_dev b) (b_sector b), b_valid := True\<rparr>) s))"

definition bread :: "uint \<Rightarrow> uint \<Rightarrow> ('a bio_scheme, nat) prog" where
  "bread dev sec =
     kbind (bget dev sec) (\<lambda>i.
     kbind (kget (\<lambda>s. bufs s i)) (\<lambda>b.
     kbind (kwhen (\<not> b_valid b) (iderw i)) (\<lambda>_.
     kret i)))"

definition bwrite :: "nat \<Rightarrow> ('a bio_scheme, unit) prog" where
  "bwrite i =
     kbind (kget (\<lambda>s. bufs s i)) (\<lambda>b.
     if \<not> b_busy b then kpanic ''bwrite''
     else kbind (kmod (set_buf i (b\<lparr>b_dirty := True\<rparr>))) (\<lambda>_. iderw i))"

definition brelse :: "nat \<Rightarrow> ('a bio_scheme, unit) prog" where
  "brelse i =
     kbind (kget (\<lambda>s. bufs s i)) (\<lambda>b.
     if \<not> b_busy b then kpanic ''brelse''
     else kmod (\<lambda>s. set_buf i (b\<lparr>b_busy := False\<rparr>) (s\<lparr>lru := i # remove1 i (lru s)\<rparr>)))"

definition bdata :: "nat \<Rightarrow> ('a bio_scheme, bytes) prog" where
  \<comment> \<open>read \<open>b->data\<close>\<close>
  "bdata i = kget (\<lambda>s. b_data (bufs s i))"

definition bput :: "nat \<Rightarrow> bytes \<Rightarrow> ('a bio_scheme, unit) prog" where
  \<comment> \<open>store into \<open>b->data\<close>\<close>
  "bput i d = kmod (set_data i d)"

section \<open>Invariant and the sector contents it defines\<close>

text \<open>
  \<open>bview\<close> is what a reader of a sector sees: the cached copy when there is a valid one, the
  disk otherwise. \<open>binv\<close>: the list holds every buffer once; no two buffers hold the same
  sector; a dirty buffer and a locked one hold data; a buffer that is neither locked nor
  dirty agrees with the disk; and the disk is the result of the writes recorded.
\<close>

definition bview :: "'a bio_scheme \<Rightarrow> uint \<Rightarrow> uint \<Rightarrow> bytes" where
  "bview s dev sec = (if dev = nodev then disk s dev sec else
     case bcached s dev sec of
       Some i \<Rightarrow> if b_valid (bufs s i) then b_data (bufs s i) else disk s dev sec
     | None \<Rightarrow> disk s dev sec)"

primrec replay :: "(uint \<times> uint \<times> bytes) list \<Rightarrow> dmap \<Rightarrow> dmap" where
  \<comment> \<open>the disks after a list of sector writes, newest first\<close>
  "replay [] D = D"
| "replay (w # ws) D = dput (fst w) (fst (snd w)) (snd (snd w)) (replay ws D)"

definition binv :: "'a bio_scheme \<Rightarrow> bool" where
  "binv s \<longleftrightarrow>
     distinct (lru s) \<and> set (lru s) = {..<NBUF} \<and>
     (\<forall>i<NBUF. \<forall>j<NBUF. b_dev (bufs s i) \<noteq> nodev \<longrightarrow> b_dev (bufs s i) = b_dev (bufs s j) \<longrightarrow>
        b_sector (bufs s i) = b_sector (bufs s j) \<longrightarrow> i = j) \<and>
     (\<forall>i<NBUF. b_dirty (bufs s i) \<longrightarrow> b_valid (bufs s i) \<and> b_dev (bufs s i) \<noteq> nodev) \<and>
     (\<forall>i<NBUF. b_busy (bufs s i) \<longrightarrow> b_valid (bufs s i) \<and> b_dev (bufs s i) \<noteq> nodev) \<and>
     (\<forall>i<NBUF. b_valid (bufs s i) \<and> \<not> b_busy (bufs s i) \<and> \<not> b_dirty (bufs s i) \<longrightarrow>
        b_data (bufs s i) = disk s (b_dev (bufs s i)) (b_sector (bufs s i))) \<and>
     disk s = replay (dwrites s) (image s)"

definition held :: "'a bio_scheme \<Rightarrow> nat \<Rightarrow> uint \<Rightarrow> uint \<Rightarrow> bool" where
  \<comment> \<open>buffer \<open>i\<close> is locked and holds the given sector\<close>
  "held s i dev sec \<longleftrightarrow> i < NBUF \<and> b_busy (bufs s i) \<and> is_sector s dev sec i"

definition unlocked :: "'a bio_scheme \<Rightarrow> bool" where
  "unlocked s \<longleftrightarrow> (\<forall>i<NBUF. \<not> b_busy (bufs s i))"

definition pinned :: "'a bio_scheme \<Rightarrow> (uint \<times> uint) set" where
  \<comment> \<open>sectors whose cached copy waits for the disk\<close>
  "pinned s = {(b_dev (bufs s i), b_sector (bufs s i)) | i. i < NBUF \<and> b_dirty (bufs s i)}"

definition disks_present :: "'a bio_scheme \<Rightarrow> bool" where
  "disks_present s \<longleftrightarrow> havedisk1 s \<and> havedisk2 s"

lemmas bio_state_simps = set_buf_def set_data_def dput_def

lemma find_SomeD: "find P xs = Some x \<Longrightarrow> x \<in> set xs \<and> P x"
  by (induction xs) (auto split: if_splits)

lemma find_unique:
  assumes "x \<in> set xs" "P x" "\<And>y. y \<in> set xs \<Longrightarrow> P y \<Longrightarrow> y = x"
  shows "find P xs = Some x"
proof (cases "find P xs")
  case None
  with assms(1,2) show ?thesis by (simp add: find_None_iff)
next
  case (Some y)
  from find_SomeD[OF Some] have "y = x" by (intro assms(3)) auto
  with Some show ?thesis by simp
qed

lemma bcached_SomeD:
  "binv s \<Longrightarrow> bcached s dev sec = Some i \<Longrightarrow> i < NBUF \<and> is_sector s dev sec i"
  unfolding bcached_def by (drule find_SomeD) (auto simp: binv_def)

lemma bcached_NoneD: "binv s \<Longrightarrow> bcached s dev sec = None \<Longrightarrow> i < NBUF \<Longrightarrow> \<not> is_sector s dev sec i"
  unfolding bcached_def by (auto simp: binv_def find_None_iff)

lemma bcached_eq:
  assumes "binv s" "dev \<noteq> nodev" "i < NBUF" "is_sector s dev sec i"
  shows "bcached s dev sec = Some i"
  unfolding bcached_def
proof (rule find_unique)
  show "i \<in> set (lru s)" using assms by (simp add: binv_def)
  show "y = i" if "y \<in> set (lru s)" "is_sector s dev sec y" for y
    using that assms unfolding binv_def is_sector_def by auto
qed (rule assms)

text \<open>\<open>bview\<close> without the list: the form the proofs use.\<close>

lemma bview_cached:
  "binv s \<Longrightarrow> dev \<noteq> nodev \<Longrightarrow> i < NBUF \<Longrightarrow> is_sector s dev sec i \<Longrightarrow> b_valid (bufs s i) \<Longrightarrow>
   bview s dev sec = b_data (bufs s i)"
  by (simp add: bview_def bcached_eq)

lemma bview_uncached:
  assumes "binv s" "dev \<noteq> nodev"
    and "\<And>i. i < NBUF \<Longrightarrow> is_sector s dev sec i \<Longrightarrow> b_valid (bufs s i) \<Longrightarrow>
           b_data (bufs s i) = disk s dev sec"
  shows "bview s dev sec = disk s dev sec"
  using assms bcached_SomeD[OF assms(1), of dev sec]
  by (auto simp: bview_def split: option.split)

lemma bview_clean:
  assumes "binv s" "dev \<noteq> nodev" "unlocked s" "(dev, sec) \<notin> pinned s"
  shows "bview s dev sec = disk s dev sec"
proof (rule bview_uncached[OF assms(1,2)])
  fix i
  assume i: "i < NBUF" "is_sector s dev sec i" "b_valid (bufs s i)"
  with assms(4) have "\<not> b_dirty (bufs s i)" by (auto simp: pinned_def is_sector_def)
  moreover have "\<not> b_busy (bufs s i)" using assms(3) i by (simp add: unlocked_def)
  ultimately show "b_data (bufs s i) = disk s dev sec"
    using i assms(1) unfolding binv_def is_sector_def by auto
qed


section \<open>Behaviour of the operations\<close>

lemma binvD:
  assumes "binv s"
  shows binv_distinct: "distinct (lru s)"
    and binv_lru: "set (lru s) = {..<NBUF}"
    and binv_unique: "i < NBUF \<Longrightarrow> j < NBUF \<Longrightarrow> is_sector s dev sec i \<Longrightarrow> is_sector s dev sec j \<Longrightarrow>
          dev \<noteq> nodev \<Longrightarrow> i = j"
    and binv_dirty: "i < NBUF \<Longrightarrow> b_dirty (bufs s i) \<Longrightarrow> b_valid (bufs s i) \<and> b_dev (bufs s i) \<noteq> nodev"
    and binv_busy: "i < NBUF \<Longrightarrow> b_busy (bufs s i) \<Longrightarrow> b_valid (bufs s i) \<and> b_dev (bufs s i) \<noteq> nodev"
    and binv_coherent: "i < NBUF \<Longrightarrow> b_valid (bufs s i) \<Longrightarrow> \<not> b_busy (bufs s i) \<Longrightarrow> \<not> b_dirty (bufs s i) \<Longrightarrow>
          b_data (bufs s i) = disk s (b_dev (bufs s i)) (b_sector (bufs s i))"
    and binv_trace: "disk s = replay (dwrites s) (image s)"
  using assms unfolding binv_def is_sector_def by auto

lemma binvI:
  assumes "distinct (lru s)" "set (lru s) = {..<NBUF}"
    and "\<And>i j. i < NBUF \<Longrightarrow> j < NBUF \<Longrightarrow> b_dev (bufs s i) \<noteq> nodev \<Longrightarrow>
           b_dev (bufs s i) = b_dev (bufs s j) \<Longrightarrow> b_sector (bufs s i) = b_sector (bufs s j) \<Longrightarrow> i = j"
    and "\<And>i. i < NBUF \<Longrightarrow> b_dirty (bufs s i) \<Longrightarrow> b_valid (bufs s i) \<and> b_dev (bufs s i) \<noteq> nodev"
    and "\<And>i. i < NBUF \<Longrightarrow> b_busy (bufs s i) \<Longrightarrow> b_valid (bufs s i) \<and> b_dev (bufs s i) \<noteq> nodev"
    and "\<And>i. i < NBUF \<Longrightarrow> b_valid (bufs s i) \<Longrightarrow> \<not> b_busy (bufs s i) \<Longrightarrow> \<not> b_dirty (bufs s i) \<Longrightarrow>
           b_data (bufs s i) = disk s (b_dev (bufs s i)) (b_sector (bufs s i))"
    and "disk s = replay (dwrites s) (image s)"
  shows "binv s"
  using assms unfolding binv_def by blast

text \<open>The buffer \<open>bread\<close> hands out, in terms of what readers see.\<close>

definition read_buf :: "'a bio_scheme \<Rightarrow> uint \<Rightarrow> uint \<Rightarrow> nat \<Rightarrow> buf" where
  "read_buf s dev sec i = \<lparr>b_busy = True, b_valid = True,
     b_dirty = (is_sector s dev sec i \<and> b_dirty (bufs s i)),
     b_dev = dev, b_sector = sec, b_data = bview s dev sec\<rparr>"

lemma bread_Ret:
  assumes inv: "binv s" and dev: "dev \<noteq> nodev" and run: "bread dev sec s = Ret (i, s')"
  shows "i < NBUF \<and> \<not> b_busy (bufs s i) \<and> s' = set_buf i (read_buf s dev sec i) s \<and>
    (is_sector s dev sec i \<or> \<not> b_dirty (bufs s i) \<and> bcached s dev sec = None)"
proof (cases "bcached s dev sec")
  case (Some j)
  have j: "j < NBUF" "is_sector s dev sec j"
    using bcached_SomeD[OF inv Some] by auto
  have free: "\<not> b_busy (bufs s j)" and ij: "i = j"
    using run Some by (auto simp: bread_def kbind_def bget_def kget_def kwhen_def kret_def
        split: outcome.splits if_splits)
  show ?thesis
  proof (cases "b_valid (bufs s j)")
    case True
    then have "bview s dev sec = b_data (bufs s j)" using Some dev by (simp add: bview_def)
    then show ?thesis
      using run Some free ij j True
      by (cases "bufs s j") (auto simp: bread_def kbind_def bget_def kget_def kwhen_def kret_def read_buf_def set_buf_def is_sector_def)
  next
    case False
    then have nd: "\<not> b_dirty (bufs s j)" using binv_dirty[OF inv] j by blast
    have "bview s dev sec = disk s dev sec" using Some False dev by (simp add: bview_def)
    then show ?thesis
      using run Some free ij j False nd
      by (cases "bufs s j") (auto simp: bread_def kbind_def bget_def kget_def kwhen_def kret_def read_buf_def set_buf_def
          is_sector_def iderw_def Let_def split: if_splits)
  qed
next
  case None
  then obtain j where vic: "bvictim s = Some j"
    using run by (auto simp: bread_def kbind_def bget_def split: option.splits outcome.splits)
  have j: "j < NBUF" "\<not> b_busy (bufs s j)" "\<not> b_dirty (bufs s j)"
    using find_SomeD[OF vic[unfolded bvictim_def]] binv_lru[OF inv] by auto
  have "bview s dev sec = disk s dev sec" using None dev by (simp add: bview_def)
  then show ?thesis
    using run None vic j
    by (cases "bufs s j") (auto simp: bread_def kbind_def bget_def kget_def kwhen_def kret_def read_buf_def set_buf_def
        is_sector_def iderw_def Let_def split: if_splits)
qed

text \<open>When \<open>bread\<close> returns: the sector is not locked, and it is cached or a buffer can be recycled.\<close>

definition bavail :: "'a bio_scheme \<Rightarrow> uint \<Rightarrow> uint \<Rightarrow> bool" where
  "bavail s dev sec \<longleftrightarrow> disks_present s \<and>
     (\<forall>i<NBUF. is_sector s dev sec i \<longrightarrow> \<not> b_busy (bufs s i)) \<and>
     ((\<exists>i<NBUF. is_sector s dev sec i) \<or> (\<exists>i<NBUF. \<not> b_busy (bufs s i) \<and> \<not> b_dirty (bufs s i)))"

lemma bread_returns:
  assumes inv: "binv s" and av: "bavail s dev sec"
  shows "\<exists>i s'. bread dev sec s = Ret (i, s')"
proof (cases "bcached s dev sec")
  case (Some j)
  have j: "j < NBUF" "is_sector s dev sec j"
    using bcached_SomeD[OF inv Some] by auto
  then have "\<not> b_busy (bufs s j)" using av by (auto simp: bavail_def)
  moreover have "b_valid (bufs s j) \<or> \<not> b_dirty (bufs s j)" using binv_dirty[OF inv j(1)] by blast
  ultimately show ?thesis using av Some
    by (auto simp: bread_def kbind_def bget_def kget_def kwhen_def kret_def iderw_def Let_def set_buf_def
        bavail_def disks_present_def)
next
  case None
  then have "\<exists>i<NBUF. \<not> b_busy (bufs s i) \<and> \<not> b_dirty (bufs s i)"
    using av bcached_NoneD[OF inv None] by (auto simp: bavail_def)
  then have "bvictim s \<noteq> None"
    using binv_lru[OF inv] by (auto simp: bvictim_def find_None_iff)
  then show ?thesis using None av
    by (auto simp: bread_def kbind_def bget_def kget_def kwhen_def kret_def iderw_def Let_def set_buf_def
        bavail_def disks_present_def)
qed

lemma read_buf_sector [simp]:
  "b_dev (read_buf s dev sec i) = dev" "b_sector (read_buf s dev sec i) = sec"
  "b_busy (read_buf s dev sec i)" "b_valid (read_buf s dev sec i)"
  "b_data (read_buf s dev sec i) = bview s dev sec"
  "b_dirty (read_buf s dev sec i) \<longleftrightarrow> is_sector s dev sec i \<and> b_dirty (bufs s i)"
  by (simp_all add: read_buf_def)

lemma bufs_set_buf [simp]: "bufs (set_buf i b s) = (bufs s)(i := b)"
  by (simp add: set_buf_def)

lemma set_buf_fields [simp]:
  "disk (set_buf i b s) = disk s" "lru (set_buf i b s) = lru s" "dwrites (set_buf i b s) = dwrites s"
  "havedisk1 (set_buf i b s) = havedisk1 s" "havedisk2 (set_buf i b s) = havedisk2 s"
  "image (set_buf i b s) = image s"
  "bio.more (set_buf i b s) = bio.more s"
  by (simp_all add: set_buf_def)

lemma set_buf_set_buf [simp]: "set_buf i b (set_buf i c s) = set_buf i b s"
  by (simp add: set_buf_def)

text \<open>Replacing a buffer by another that holds a sector no other buffer holds.\<close>

lemma binv_set_buf:
  assumes inv: "binv s" and i: "i < NBUF"
    and uniq: "\<And>j. j < NBUF \<Longrightarrow> j \<noteq> i \<Longrightarrow> b_dev b \<noteq> nodev \<Longrightarrow> \<not> is_sector s (b_dev b) (b_sector b) j"
    and ok: "b_dirty b \<or> b_busy b \<Longrightarrow> b_valid b \<and> b_dev b \<noteq> nodev"
    and coh: "b_valid b \<Longrightarrow> \<not> b_busy b \<Longrightarrow> \<not> b_dirty b \<Longrightarrow> b_data b = disk s (b_dev b) (b_sector b)"
  shows "binv (set_buf i b s)"
proof (rule binvI)
  show "distinct (lru (set_buf i b s))" "set (lru (set_buf i b s)) = {..<NBUF}"
    using binv_distinct[OF inv] binv_lru[OF inv] by simp_all
  show "disk (set_buf i b s) = replay (dwrites (set_buf i b s)) (image (set_buf i b s))"
    using binv_trace[OF inv] by simp
  fix k j
  assume "k < NBUF" "j < NBUF" "b_dev (bufs (set_buf i b s) k) \<noteq> nodev"
    "b_dev (bufs (set_buf i b s) k) = b_dev (bufs (set_buf i b s) j)"
    "b_sector (bufs (set_buf i b s) k) = b_sector (bufs (set_buf i b s) j)"
  then show "k = j"
    using uniq[of j] uniq[of k] binv_unique[OF inv, of k j "b_dev (bufs s k)" "b_sector (bufs s k)"]
    by (auto simp: is_sector_def split: if_splits)
next
  fix k
  assume k: "k < NBUF"
  show "b_dirty (bufs (set_buf i b s) k) \<Longrightarrow> b_valid (bufs (set_buf i b s) k) \<and> b_dev (bufs (set_buf i b s) k) \<noteq> nodev"
    using k ok binv_dirty[OF inv k] by (auto split: if_splits)
  show "b_busy (bufs (set_buf i b s) k) \<Longrightarrow> b_valid (bufs (set_buf i b s) k) \<and> b_dev (bufs (set_buf i b s) k) \<noteq> nodev"
    using k ok binv_busy[OF inv k] by (auto split: if_splits)
  show "b_valid (bufs (set_buf i b s) k) \<Longrightarrow> \<not> b_busy (bufs (set_buf i b s) k) \<Longrightarrow> \<not> b_dirty (bufs (set_buf i b s) k) \<Longrightarrow>
      b_data (bufs (set_buf i b s) k) = disk (set_buf i b s) (b_dev (bufs (set_buf i b s) k)) (b_sector (bufs (set_buf i b s) k))"
    using k coh binv_coherent[OF inv k] by (auto split: if_splits)
qed


lemma bview_set_buf_this:
  "binv (set_buf i b s) \<Longrightarrow> i < NBUF \<Longrightarrow> b_valid b \<Longrightarrow> b_dev b \<noteq> nodev \<Longrightarrow>
   bview (set_buf i b s) (b_dev b) (b_sector b) = b_data b"
  using bview_cached[of "set_buf i b s" "b_dev b" i "b_sector b"] by (simp add: is_sector_def)

lemma bview_set_buf_other:
  assumes inv: "binv s" and inv': "binv (set_buf i b s)" and i: "i < NBUF"
    and ne: "d \<noteq> b_dev b \<or> x \<noteq> b_sector b"
    and old: "is_sector s d x i \<Longrightarrow> b_valid (bufs s i) \<Longrightarrow> b_data (bufs s i) = disk s d x"
  shows "bview (set_buf i b s) d x = bview s d x"
proof (cases "d = nodev")
  case True
  then show ?thesis by (simp add: bview_def)
next
  case d: False
  show ?thesis
  proof (cases "\<exists>j<NBUF. j \<noteq> i \<and> is_sector s d x j")
    case True
    then obtain j where j: "j < NBUF" "j \<noteq> i" "is_sector s d x j" by blast
    then have "is_sector (set_buf i b s) d x j" by (simp add: is_sector_def)
    then show ?thesis
      using bcached_eq[OF inv d j(1,3)] bcached_eq[OF inv' d j(1)] j(2) d by (simp add: bview_def)
  next
    case none: False
    have "bview s d x = disk s d x"
      by (rule bview_uncached[OF inv d]) (use none old in blast)
    moreover have "bview (set_buf i b s) d x = disk (set_buf i b s) d x"
      by (rule bview_uncached[OF inv' d]) (use none ne in \<open>auto simp: is_sector_def split: if_splits\<close>)
    ultimately show ?thesis by simp
  qed
qed

lemma pinned_set_buf:
  assumes "i < NBUF"
  shows "pinned (set_buf i b s) =
    {(b_dev (bufs s j), b_sector (bufs s j)) | j. j < NBUF \<and> j \<noteq> i \<and> b_dirty (bufs s j)} \<union>
    (if b_dirty b then {(b_dev b, b_sector b)} else {})"
  using assms by (auto simp: pinned_def)

lemma pinned_split:
  "i < NBUF \<Longrightarrow> pinned s =
    {(b_dev (bufs s j), b_sector (bufs s j)) | j. j < NBUF \<and> j \<noteq> i \<and> b_dirty (bufs s j)} \<union>
    (if b_dirty (bufs s i) then {(b_dev (bufs s i), b_sector (bufs s i))} else {})"
  by (auto simp: pinned_def)

definition same_disk :: "'a bio_scheme \<Rightarrow> 'a bio_scheme \<Rightarrow> bool" where
  \<comment> \<open>the disks, the drives present and everything above the cache are unchanged\<close>
  "same_disk s s' \<longleftrightarrow> disk s' = disk s \<and> dwrites s' = dwrites s \<and> havedisk1 s' = havedisk1 s \<and>
     havedisk2 s' = havedisk2 s \<and> image s' = image s \<and> bio.more s' = bio.more s"

lemma same_disk_refl [simp]: "same_disk s s"
  by (simp add: same_disk_def)

lemma same_disk_trans: "same_disk s t \<Longrightarrow> same_disk t u \<Longrightarrow> same_disk s u"
  by (simp add: same_disk_def)

lemma bread_spec:
  assumes inv: "binv s" and dev: "dev \<noteq> nodev" and run: "bread dev sec s = Ret (i, s')"
  shows "binv s' \<and> bview s' = bview s \<and> pinned s' = pinned s \<and> same_disk s s' \<and>
    held s' i dev sec \<and> b_data (bufs s' i) = bview s dev sec \<and> \<not> b_busy (bufs s i) \<and>
    (\<forall>j. j \<noteq> i \<longrightarrow> bufs s' j = bufs s j)"
proof -
  from bread_Ret[OF inv dev run] have i: "i < NBUF" "\<not> b_busy (bufs s i)"
    and s': "s' = set_buf i (read_buf s dev sec i) s"
    and new: "is_sector s dev sec i \<or> \<not> b_dirty (bufs s i) \<and> bcached s dev sec = None" by auto
  have inv': "binv s'"
    unfolding s'
  proof (rule binv_set_buf[OF inv i(1)])
    fix j
    assume "j < NBUF" "j \<noteq> i"
    then show "\<not> is_sector s (b_dev (read_buf s dev sec i)) (b_sector (read_buf s dev sec i)) j"
      using new binv_unique[OF inv i(1), of j dev sec] bcached_NoneD[OF inv, of dev sec j] dev by auto
  qed (use dev in auto)
  have view: "bview s' = bview s"
  proof (rule ext, rule ext)
    fix d x
    show "bview s' d x = bview s d x"
    proof (cases "d = dev \<and> x = sec")
      case True
      then show ?thesis
        using bview_set_buf_this[OF inv'[unfolded s'] i(1)] dev by (simp add: s')
    next
      case False
      show ?thesis
        unfolding s'
      proof (rule bview_set_buf_other[OF inv inv'[unfolded s'] i(1)])
        show "d \<noteq> b_dev (read_buf s dev sec i) \<or> x \<noteq> b_sector (read_buf s dev sec i)" using False by auto
        assume "is_sector s d x i" "b_valid (bufs s i)"
        moreover from this have "\<not> b_dirty (bufs s i)" using new False by (auto simp: is_sector_def)
        ultimately show "b_data (bufs s i) = disk s d x"
          using binv_coherent[OF inv i(1)] i(2) by (auto simp: is_sector_def)
      qed
    qed
  qed
  have "pinned s' = pinned s"
    using new i(1) by (auto simp: s' pinned_set_buf pinned_split[of i s] is_sector_def)
  with inv' view show ?thesis
    using i by (auto simp: s' held_def same_disk_def is_sector_def)
qed

lemma bput_spec:
  assumes inv: "binv s" and h: "held s i dev sec"
  shows "bput i d s = Ret ((), set_data i d s)" "binv (set_data i d s)" "held (set_data i d s) i dev sec"
    "bview (set_data i d s) = dput dev sec d (bview s)" "pinned (set_data i d s) = pinned s"
    "same_disk s (set_data i d s)"
proof -
  let ?b = "(bufs s i)\<lparr>b_data := d\<rparr>"
  have i: "i < NBUF" "b_busy (bufs s i)" "b_dev (bufs s i) = dev" "b_sector (bufs s i) = sec"
    using h by (auto simp: held_def is_sector_def)
  have v: "b_valid (bufs s i)" "dev \<noteq> nodev" using binv_busy[OF inv i(1,2)] i by auto
  show inv': "binv (set_data i d s)"
    unfolding set_data_def
  proof (rule binv_set_buf[OF inv i(1)])
    fix j assume "j < NBUF" "j \<noteq> i"
    then show "\<not> is_sector s (b_dev ?b) (b_sector ?b) j"
      using binv_unique[OF inv i(1), of j dev sec] i v by (auto simp: is_sector_def)
  qed (use i v in auto)
  show "bview (set_data i d s) = dput dev sec d (bview s)"
  proof (rule ext, rule ext)
    fix d' x
    show "bview (set_data i d s) d' x = dput dev sec d (bview s) d' x"
    proof (cases "d' = dev \<and> x = sec")
      case True
      then show ?thesis
        using bview_set_buf_this[OF inv'[unfolded set_data_def] i(1)] i v by (simp add: set_data_def dput_def)
    next
      case False
      then have "bview (set_data i d s) d' x = bview s d' x"
        unfolding set_data_def using i
        by (intro bview_set_buf_other[OF inv inv'[unfolded set_data_def] i(1)]) (auto simp: is_sector_def)
      with False show ?thesis by (auto simp: dput_def)
    qed
  qed
  show "pinned (set_data i d s) = pinned s"
    using i(1) by (auto simp: set_data_def pinned_set_buf pinned_split[of i s])
qed (use h in \<open>auto simp: bput_def kmod_def set_data_def held_def is_sector_def same_disk_def\<close>)


definition synced :: "'a bio_scheme \<Rightarrow> nat \<Rightarrow> bool" where
  \<comment> \<open>buffer \<open>i\<close> may be released: its data is on the disk or marked for it\<close>
  "synced s i \<longleftrightarrow> b_dirty (bufs s i) \<or>
     b_data (bufs s i) = disk s (b_dev (bufs s i)) (b_sector (bufs s i))"

lemma bwrite_spec:
  assumes inv: "binv s" and h: "held s i dev sec" and run: "bwrite i s = Ret ((), s')"
  shows "binv s' \<and> bview s' = bview s \<and> pinned s' = pinned s - {(dev, sec)} \<and> held s' i dev sec \<and>
    synced s' i \<and> (\<forall>j. j \<noteq> i \<longrightarrow> bufs s' j = bufs s j) \<and>
    disk s' = dput dev sec (bview s dev sec) (disk s) \<and>
    dwrites s' = (dev, sec, bview s dev sec) # dwrites s \<and> bio.more s' = bio.more s \<and>
    havedisk1 s' = havedisk1 s \<and> havedisk2 s' = havedisk2 s \<and> image s' = image s \<and> lru s' = lru s"
proof -
  let ?D = "dput dev sec (b_data (bufs s i)) (disk s)"
  let ?t = "s\<lparr>disk := ?D, dwrites := (dev, sec, b_data (bufs s i)) # dwrites s\<rparr>"
  let ?b = "(bufs s i)\<lparr>b_valid := True, b_dirty := False\<rparr>"
  have i: "i < NBUF" "b_busy (bufs s i)" "b_dev (bufs s i) = dev" "b_sector (bufs s i) = sec"
    using h by (auto simp: held_def is_sector_def)
  have v: "b_valid (bufs s i)" "dev \<noteq> nodev" using binv_busy[OF inv i(1,2)] i by auto
  have dat: "b_data (bufs s i) = bview s dev sec"
    by (rule bview_cached[OF inv v(2) i(1), symmetric]) (use i v in \<open>simp_all add: is_sector_def\<close>)
  have s': "s' = set_buf i ?b ?t"
    using run i unfolding bwrite_def kbind_def kget_def kmod_def iderw_def Let_def
    by (simp split: if_splits) (simp add: set_buf_def)
  have own: "j = i" if "j < NBUF" "b_dev (bufs s j) = dev" "b_sector (bufs s j) = sec" for j
    using binv_unique[OF inv that(1) i(1), of dev sec] that i v by (simp add: is_sector_def)
  have f: "b_dev (bufs s' k) = b_dev (bufs s k)" "b_sector (bufs s' k) = b_sector (bufs s k)" for k
    by (simp_all add: s')
  have inv': "binv s'"
  proof (rule binvI)
    show "distinct (lru s')" "set (lru s') = {..<NBUF}"
      using binv_distinct[OF inv] binv_lru[OF inv] by (simp_all add: s')
    show "disk s' = replay (dwrites s') (image s')" using binv_trace[OF inv] by (simp add: s')
    show "k = j" if "k < NBUF" "j < NBUF" "b_dev (bufs s' k) \<noteq> nodev" "b_dev (bufs s' k) = b_dev (bufs s' j)"
      "b_sector (bufs s' k) = b_sector (bufs s' j)" for k j
      using that(3-5) unfolding f
      by (intro binv_unique[OF inv that(1,2)]) (auto simp: is_sector_def)
    show "b_valid (bufs s' k) \<and> b_dev (bufs s' k) \<noteq> nodev" if "k < NBUF" "b_dirty (bufs s' k)" for k
      using that binv_dirty[OF inv that(1)] by (auto simp: s' split: if_splits)
    show "b_valid (bufs s' k) \<and> b_dev (bufs s' k) \<noteq> nodev" if "k < NBUF" "b_busy (bufs s' k)" for k
      using that binv_busy[OF inv that(1)] by (auto simp: s' split: if_splits)
    show "b_data (bufs s' k) = disk s' (b_dev (bufs s' k)) (b_sector (bufs s' k))"
      if k: "k < NBUF" "b_valid (bufs s' k)" "\<not> b_busy (bufs s' k)" "\<not> b_dirty (bufs s' k)" for k
    proof -
      have "k \<noteq> i" using that(3) i by (auto simp: s')
      with k own[of k] binv_coherent[OF inv k(1)] show ?thesis by (auto simp: s' dput_def)
    qed
  qed
  have view: "bview s' d x = bview s d x" for d x
  proof (cases "d = nodev")
    case True
    then show ?thesis using v(2) by (simp add: bview_def s' dput_def)
  next
    case d: False
    show ?thesis
    proof (cases "\<exists>j<NBUF. is_sector s d x j")
      case True
      then obtain j where j: "j < NBUF" "is_sector s d x j" by blast
      then have j': "is_sector s' d x j" by (auto simp: s' is_sector_def)
      have "disk s' d x = disk s d x \<or> j = i"
        using j own by (auto simp: s' dput_def is_sector_def)
      then show ?thesis
        using bcached_eq[OF inv d j] bcached_eq[OF inv' d j(1) j'] d v(1) by (auto simp: bview_def s')
    next
      case none: False
      then have "\<not> is_sector s' d x j" if "j < NBUF" for j
        using that by (auto simp: s' is_sector_def)
      then have "bview s' d x = disk s' d x" by (intro bview_uncached[OF inv' d]) auto
      moreover have "bview s d x = disk s d x" using none by (intro bview_uncached[OF inv d]) auto
      moreover have "disk s' d x = disk s d x"
        using none i by (auto simp: s' dput_def is_sector_def)
      ultimately show ?thesis by simp
    qed
  qed
  have "pinned s' = pinned s - {(dev, sec)}"
    unfolding s' pinned_set_buf[OF i(1)] pinned_split[OF i(1), of s] using own i(3,4) by auto
  moreover have "bview s' = bview s" using view by (intro ext) metis
  moreover have "held s' i dev sec \<and> synced s' i"
    using i f by (simp add: held_def is_sector_def synced_def s' dput_def)
  ultimately show ?thesis using inv' by (simp add: s' dat)
qed

lemma brelse_spec:
  assumes inv: "binv s" and h: "held s i dev sec" and sy: "synced s i"
  shows "\<exists>s'. brelse i s = Ret ((), s') \<and> binv s' \<and> bview s' = bview s \<and> pinned s' = pinned s \<and>
    same_disk s s' \<and> \<not> b_busy (bufs s' i) \<and> (\<forall>j. j \<noteq> i \<longrightarrow> bufs s' j = bufs s j)"
proof -
  let ?t = "s\<lparr>lru := i # remove1 i (lru s)\<rparr>"
  let ?s = "set_buf i ((bufs s i)\<lparr>b_busy := False\<rparr>) ?t"
  have i: "i < NBUF" "b_busy (bufs s i)" "b_dev (bufs s i) = dev" "b_sector (bufs s i) = sec"
    using h by (auto simp: held_def is_sector_def)
  have v: "b_valid (bufs s i)" "dev \<noteq> nodev" using binv_busy[OF inv i(1,2)] i by auto
  have run: "brelse i s = Ret ((), ?s)"
    using i by (simp add: brelse_def kbind_def kget_def kmod_def)
  have inv': "binv ?s"
  proof (rule binvI)
    show "distinct (lru ?s)" "set (lru ?s) = {..<NBUF}"
      using binv_distinct[OF inv] binv_lru[OF inv] i(1) by (auto simp: set_remove1_eq)
    show "disk ?s = replay (dwrites ?s) (image ?s)" using binv_trace[OF inv] by simp
    show "k = j" if "k < NBUF" "j < NBUF" "b_dev (bufs ?s k) \<noteq> nodev" "b_dev (bufs ?s k) = b_dev (bufs ?s j)"
      "b_sector (bufs ?s k) = b_sector (bufs ?s j)" for k j
      using that binv_unique[OF inv that(1,2), of "b_dev (bufs s k)" "b_sector (bufs s k)"]
      by (auto simp: is_sector_def split: if_splits)
    show "b_valid (bufs ?s k) \<and> b_dev (bufs ?s k) \<noteq> nodev" if "k < NBUF" "b_dirty (bufs ?s k)" for k
      using that binv_dirty[OF inv that(1)] by (auto split: if_splits)
    show "b_valid (bufs ?s k) \<and> b_dev (bufs ?s k) \<noteq> nodev" if "k < NBUF" "b_busy (bufs ?s k)" for k
      using that binv_busy[OF inv that(1)] by (auto split: if_splits)
    show "b_data (bufs ?s k) = disk ?s (b_dev (bufs ?s k)) (b_sector (bufs ?s k))"
      if "k < NBUF" "b_valid (bufs ?s k)" "\<not> b_busy (bufs ?s k)" "\<not> b_dirty (bufs ?s k)" for k
      using that sy binv_coherent[OF inv that(1)] by (auto simp: synced_def split: if_splits)
  qed
  have "bview ?s d x = bview s d x" for d x
  proof (cases "d = nodev")
    case True
    then show ?thesis by (simp add: bview_def)
  next
    case d: False
    have sec_eq: "is_sector ?s d x j = is_sector s d x j" for j by (auto simp: is_sector_def)
    show ?thesis
    proof (cases "\<exists>j<NBUF. is_sector s d x j")
      case True
      then obtain j where j: "j < NBUF" "is_sector s d x j" by blast
      then show ?thesis
        using bcached_eq[OF inv d j] bcached_eq[OF inv' d j(1)] sec_eq[of j] d v(1) by (auto simp: bview_def)
    next
      case none: False
      then have "bview ?s d x = disk ?s d x" using sec_eq by (intro bview_uncached[OF inv' d]) auto
      moreover have "bview s d x = disk s d x" using none by (intro bview_uncached[OF inv d]) auto
      ultimately show ?thesis by simp
    qed
  qed
  moreover have "pinned ?s = pinned s" by (auto simp: pinned_def)
  ultimately show ?thesis
    using run inv' by (intro exI[of _ ?s]) (auto simp: same_disk_def)
qed

section \<open>Initialisation, and the cache as a sector cache\<close>

lemma binit_state:
  "binit s = Ret ((), s\<lparr>lru := rev [0..<NBUF],
     bufs := \<lambda>i. if i < NBUF then (bufs s i)\<lparr>b_dev := nodev\<rparr> else bufs s i\<rparr>)"
proof -
  have "fold (\<lambda>b s. set_buf b ((bufs s b)\<lparr>b_dev := nodev\<rparr>) (s\<lparr>lru := b # lru s\<rparr>)) [0..<n] (s\<lparr>lru := []\<rparr>) =
      s\<lparr>lru := rev [0..<n], bufs := \<lambda>i. if i < n then (bufs s i)\<lparr>b_dev := nodev\<rparr> else bufs s i\<rparr>" for n
    by (induction n) (auto simp: set_buf_def fun_eq_iff less_Suc_eq intro!: arg_cong[of _ _ "\<lambda>f. bufs_update (\<lambda>_. f) _"])
  then show ?thesis by (simp add: binit_def kmod_def)
qed

lemma binit_fresh:
  assumes "\<And>i. i < NBUF \<Longrightarrow> \<not> b_busy (bufs s i) \<and> \<not> b_valid (bufs s i) \<and> \<not> b_dirty (bufs s i)"
    and "disk s = replay (dwrites s) (image s)"
  shows "wp binit (\<lambda>_ s'. binv s' \<and> unlocked s' \<and> pinned s' = {} \<and> bview s' = disk s \<and> same_disk s s') s"
proof -
  let ?t = "s\<lparr>lru := rev [0..<NBUF], bufs := \<lambda>i. if i < NBUF then (bufs s i)\<lparr>b_dev := nodev\<rparr> else bufs s i\<rparr>"
  have inv: "binv ?t"
    by (rule binvI) (use assms in auto)
  have "bview ?t d x = disk s d x" for d x
  proof (cases "d = nodev")
    case False
    show ?thesis using bview_uncached[OF inv False, of x] assms by (auto simp: is_sector_def)
  qed (simp add: bview_def)
  then have "bview ?t = disk s" by (intro ext) metis
  with inv show ?thesis
    using assms by (auto simp: wp_Ret binit_state unlocked_def pinned_def same_disk_def)
qed

lemma synced_bread:
  assumes inv: "binv s" and dev: "dev \<noteq> nodev" and run: "bread dev sec s = Ret (i, s')"
  shows "synced s' i"
proof -
  from bread_Ret[OF inv dev run] have i: "i < NBUF" "\<not> b_busy (bufs s i)"
    and s': "s' = set_buf i (read_buf s dev sec i) s"
    and new: "is_sector s dev sec i \<or> bcached s dev sec = None" by auto
  have "bview s dev sec = disk s dev sec" if "is_sector s dev sec i" "\<not> b_dirty (bufs s i)"
    using bview_cached[OF inv dev i(1) that(1)] binv_coherent[OF inv i(1) _ i(2) that(2)] that(1)
      bcached_eq[OF inv dev i(1) that(1)] dev
    by (cases "b_valid (bufs s i)") (auto simp: is_sector_def bview_def)
  with new dev show ?thesis by (auto simp: s' synced_def bview_def)
qed

interpretation cache: sector_cache binv bview "\<lambda>s d x. d \<noteq> nodev" held synced
  "\<lambda>s. (havedisk1 s, havedisk2 s, image s, bio.more s)" bread bdata bput bwrite brelse
proof (unfold_locales, goal_cases)
  case (1 s d x i s')
  note r = bread_spec[OF 1] synced_bread[OF 1]
  then have "\<not> held s i e y" for e y by (auto simp: held_def)
  moreover have "held s' j = held s j \<and> synced s' j = synced s j" if "j \<noteq> i" for j
    using r that by (auto simp: fun_eq_iff held_def is_sector_def synced_def same_disk_def)
  ultimately show ?case using r by (auto simp: same_disk_def)
next
  case (2 s i d x)
  then show ?case
    using bview_cached[of s d i x] binv_busy[of s i]
    by (auto simp: bdata_def kget_def held_def is_sector_def)
next
  case (3 s i d x e y)
  then show ?case by (auto simp: held_def is_sector_def)
next
  case (4 s d x i v s')
  note r = bput_spec[OF 4(1,3), of v]
  then have s': "s' = set_data i v s" using 4(4) by simp
  have "held s' j e y = held s j e y" for j e y
    by (auto simp: s' held_def is_sector_def set_data_def)
  moreover have "synced s' j = synced s j" if "j \<noteq> i" for j
    using that by (simp add: s' synced_def set_data_def)
  ultimately show ?case using r by (auto simp: s' same_disk_def fun_eq_iff)
next
  case (5 s d x i s')
  note r = bwrite_spec[OF 5(1,3,4)]
  have "held s' j e y = held s j e y" for j e y
    using r 5(3) by (cases "j = i") (auto simp: held_def is_sector_def)
  moreover have "synced s' j = synced s j" if "held s j e y" "j \<noteq> i" for j e y
  proof -
    have "\<not> is_sector s d x j"
      using binv_unique[OF 5(1), of j i d x] that 5(2,3) by (auto simp: held_def)
    then show ?thesis using r that by (auto simp: synced_def is_sector_def)
  qed
  ultimately show ?case using r by (auto simp: fun_eq_iff)
next
  case (6 s i d x s')
  note r = brelse_spec[OF 6(1,2,3)]
  then show ?case using 6(4)
    by (auto simp: held_def is_sector_def synced_def same_disk_def fun_eq_iff)
qed

lemma bwrite_returns: "held s i dev sec \<Longrightarrow> disks_present s \<Longrightarrow> \<exists>s'. bwrite i s = Ret ((), s')"
  by (auto simp: bwrite_def kbind_def kget_def kmod_def iderw_def Let_def held_def disks_present_def)

section \<open>Rules for total correctness\<close>

text \<open>The locked buffers, and when there is one left to recycle.\<close>

definition locked :: "'a bio_scheme \<Rightarrow> nat set" where
  "locked s = {i. i < NBUF \<and> b_busy (bufs s i)}"

lemma locked_empty: "locked s = {} \<longleftrightarrow> unlocked s"
  by (auto simp: locked_def unlocked_def)

lemma finite_pinned [simp]: "finite (pinned s)"
  by (simp add: pinned_def)

lemma finite_locked [simp]: "finite (locked s)"
  by (simp add: locked_def)

lemma card_dirty:
  assumes "binv s"
  shows "card {i. i < NBUF \<and> b_dirty (bufs s i)} = card (pinned s)"
proof -
  let ?D = "{i. i < NBUF \<and> b_dirty (bufs s i)}" and ?k = "\<lambda>i. (b_dev (bufs s i), b_sector (bufs s i))"
  have "inj_on ?k ?D"
  proof (rule inj_onI)
    fix i j assume ij: "i \<in> ?D" "j \<in> ?D" "?k i = ?k j"
    then show "i = j"
      using binv_unique[OF assms, of i j "b_dev (bufs s j)" "b_sector (bufs s j)"] binv_dirty[OF assms, of j]
      by (simp add: is_sector_def)
  qed
  moreover have "pinned s = ?k ` ?D" by (auto simp: pinned_def)
  ultimately show ?thesis by (simp add: card_image)
qed

lemma recyclable:
  assumes inv: "binv s" and few: "card (locked s) + card (pinned s) < NBUF"
  shows "\<exists>i<NBUF. \<not> b_busy (bufs s i) \<and> \<not> b_dirty (bufs s i)"
proof (rule ccontr)
  let ?D = "{i. i < NBUF \<and> b_dirty (bufs s i)}"
  assume "\<not> ?thesis"
  then have "{..<NBUF} \<subseteq> locked s \<union> ?D" by (auto simp: locked_def)
  then have "NBUF \<le> card (locked s \<union> ?D)" using card_mono[of "locked s \<union> ?D" "{..<NBUF}"] by simp
  also have "\<dots> \<le> card (locked s) + card ?D" by (rule card_Un_le)
  finally show False using few card_dirty[OF inv] by simp
qed

lemma bavailI:
  assumes "binv s" "disks_present s" "\<And>i. i \<in> locked s \<Longrightarrow> \<not> is_sector s dev sec i"
    and "(dev, sec) \<in> pinned s \<or> card (locked s) + card (pinned s) < NBUF"
  shows "bavail s dev sec"
proof -
  have "(\<exists>i<NBUF. is_sector s dev sec i) \<or> (\<exists>i<NBUF. \<not> b_busy (bufs s i) \<and> \<not> b_dirty (bufs s i))"
    using assms(4) recyclable[OF assms(1)] by (auto simp: pinned_def is_sector_def)
  then show ?thesis using assms(2,3) by (auto simp: bavail_def locked_def)
qed

text \<open>\<open>got s s' i dev sec\<close>: \<open>bread\<close> went from \<open>s\<close> to \<open>s'\<close>, locking buffer \<open>i\<close>.\<close>

definition got :: "'a bio_scheme \<Rightarrow> 'a bio_scheme \<Rightarrow> nat \<Rightarrow> uint \<Rightarrow> uint \<Rightarrow> bool" where
  "got s s' i dev sec \<longleftrightarrow> binv s' \<and> bview s' = bview s \<and> pinned s' = pinned s \<and> same_disk s s' \<and>
     held s' i dev sec \<and> synced s' i \<and> i \<notin> locked s \<and> locked s' = insert i (locked s) \<and>
     (\<forall>j. j \<noteq> i \<longrightarrow> bufs s' j = bufs s j)"

lemma wp_bread:
  assumes "binv s" "dev \<noteq> nodev" "bavail s dev sec" "\<And>i s'. got s s' i dev sec \<Longrightarrow> wp (k i) Q s'"
  shows "wp (kbind (bread dev sec) k) Q s"
proof -
  obtain i s' where r: "bread dev sec s = Ret (i, s')" using bread_returns[OF assms(1,3)] by blast
  note l = bread_spec[OF assms(1,2) r]
  then have "locked s' = insert i (locked s)" by (auto simp: locked_def held_def)
  with l synced_bread[OF assms(1,2) r] have "got s s' i dev sec" by (auto simp: got_def locked_def)
  from assms(4)[OF this] show ?thesis by (simp add: wp_kbind) (simp add: wp_def r)
qed

text \<open>\<open>gave s s' i\<close>: buffer \<open>i\<close> was released and nothing else changed.\<close>

definition gave :: "'a bio_scheme \<Rightarrow> 'a bio_scheme \<Rightarrow> nat \<Rightarrow> bool" where
  "gave s s' i \<longleftrightarrow> binv s' \<and> bview s' = bview s \<and> pinned s' = pinned s \<and> same_disk s s' \<and>
     locked s' = locked s - {i} \<and> (\<forall>j. j \<noteq> i \<longrightarrow> bufs s' j = bufs s j)"

lemma wp_brelse:
  assumes "binv s" "held s i dev sec" "synced s i" "\<And>s'. gave s s' i \<Longrightarrow> Q () s'"
  shows "wp (brelse i) Q s"
proof -
  obtain s' where r: "brelse i s = Ret ((), s')" and l: "binv s' \<and> bview s' = bview s \<and> pinned s' = pinned s \<and>
    same_disk s s' \<and> \<not> b_busy (bufs s' i) \<and> (\<forall>j. j \<noteq> i \<longrightarrow> bufs s' j = bufs s j)"
    using brelse_spec[OF assms(1-3)] by blast
  then have "locked s' = locked s - {i}" by (auto simp: locked_def)
  with l have "gave s s' i" by (simp add: gave_def)
  from assms(4)[OF this] show ?thesis by (simp add: wp_def r)
qed

lemma bdata_held: "binv s \<Longrightarrow> held s i dev sec \<Longrightarrow> bdata i s = Ret (bview s dev sec, s)"
  by (rule cache.dat_law)

lemma wp_bdata: "binv s \<Longrightarrow> held s i dev sec \<Longrightarrow> wp (k (bview s dev sec)) Q s \<Longrightarrow> wp (kbind (bdata i) k) Q s"
  using bdata_held[of s i dev sec] by (simp add: wp_kbind) (simp add: wp_def)

text \<open>\<open>stored s s' dev sec v\<close>: the sector got new contents, in the cache and on the disk, by one
  disk write.\<close>

definition stored :: "'a bio_scheme \<Rightarrow> 'a bio_scheme \<Rightarrow> uint \<Rightarrow> uint \<Rightarrow> bytes \<Rightarrow> bool" where
  "stored s s' dev sec v \<longleftrightarrow> binv s' \<and> bview s' = dput dev sec v (bview s) \<and>
     pinned s' = pinned s - {(dev, sec)} \<and> disk s' = dput dev sec v (disk s) \<and>
     dwrites s' = (dev, sec, v) # dwrites s \<and> havedisk1 s' = havedisk1 s \<and> havedisk2 s' = havedisk2 s \<and>
     image s' = image s \<and> bio.more s' = bio.more s"

lemma wp_put_write:
  assumes inv: "binv s" and h: "held s i dev sec" and pres: "disks_present s"
    and k: "\<And>s'. stored s s' dev sec v \<Longrightarrow> locked s' = locked s \<Longrightarrow> held s' i dev sec \<Longrightarrow> synced s' i \<Longrightarrow>
          (\<forall>j. j \<noteq> i \<longrightarrow> bufs s' j = bufs s j) \<Longrightarrow> wp k Q s'"
  shows "wp (kbind (bput i v) (\<lambda>_. kbind (bwrite i) (\<lambda>_. k))) Q s"
proof -
  note p = bput_spec[OF inv h, of v]
  then obtain s' where w: "bwrite i (set_data i v s) = Ret ((), s')"
    using bwrite_returns[of "set_data i v s" i dev sec] pres by (auto simp: disks_present_def same_disk_def)
  note l = bwrite_spec[OF p(2,3) w]
  have other: "\<forall>j. j \<noteq> i \<longrightarrow> bufs s' j = bufs s j" using l by (simp add: set_data_def)
  moreover have "stored s s' dev sec v" using l p(4-6) by (simp add: stored_def same_disk_def)
  moreover have "locked s' = locked s"
  proof (rule set_eqI)
    fix j
    show "j \<in> locked s' \<longleftrightarrow> j \<in> locked s"
      using other h l by (cases "j = i") (auto simp: locked_def held_def)
  qed
  ultimately have "wp k Q s'" using l by (intro k) auto
  then show ?thesis using p(1) w by (simp add: wp_def kbind_def)
qed

lemma wp_update:
  assumes "binv s" "dev \<noteq> nodev" "bavail s dev sec"
    and "\<And>s'. stored s s' dev sec (f (bview s dev sec)) \<Longrightarrow> locked s' = locked s \<Longrightarrow>
          (\<forall>j\<in>locked s. bufs s' j = bufs s j) \<Longrightarrow> Q () s'"
  shows "wp (kbind (bread dev sec) (\<lambda>i. kbind (bdata i) (\<lambda>v. kbind (bput i (f v)) (\<lambda>_.
           kbind (bwrite i) (\<lambda>_. brelse i))))) Q s"
proof (rule wp_bread[OF assms(1-3)])
  fix i s1
  assume g: "got s s1 i dev sec"
  then have inv1: "binv s1" and h1: "held s1 i dev sec" and p1: "disks_present s1"
    using assms(3) by (auto simp: got_def bavail_def disks_present_def same_disk_def)
  show "wp (kbind (bdata i) (\<lambda>v. kbind (bput i (f v)) (\<lambda>_. kbind (bwrite i) (\<lambda>_. brelse i)))) Q s1"
  proof (rule wp_bdata[OF inv1 h1], rule wp_put_write[OF inv1 h1 p1])
    fix s2
    assume st: "stored s1 s2 dev sec (f (bview s1 dev sec))" and lk: "locked s2 = locked s1"
      and h2: "held s2 i dev sec" and sy: "synced s2 i" and o2: "\<forall>j. j \<noteq> i \<longrightarrow> bufs s2 j = bufs s1 j"
    then have inv2: "binv s2" by (simp add: stored_def)
    show "wp (brelse i) Q s2"
    proof (rule wp_brelse[OF inv2 h2 sy], rule assms(4))
      fix s3
      assume v: "gave s2 s3 i"
      show "stored s s3 dev sec (f (bview s dev sec))"
        using g st v by (simp add: stored_def got_def gave_def same_disk_def)
      show "locked s3 = locked s" using g lk v by (auto simp: got_def gave_def)
      show "\<forall>j\<in>locked s. bufs s3 j = bufs s j" using g o2 v by (auto simp: got_def gave_def)
    qed
  qed
qed

text \<open>The notions above see a state only through the fields of the cache.\<close>

lemma bio_cong:
  assumes "bufs s' = bufs s" "lru s' = lru s" "disk s' = disk s" "dwrites s' = dwrites s" "image s' = image s"
    "havedisk1 s' = havedisk1 s" "havedisk2 s' = havedisk2 s"
  shows "binv s' = binv s" "bview s' = bview s" "pinned s' = pinned s" "locked s' = locked s"
    "held s' = held s" "synced s' = synced s" "disks_present s' = disks_present s" "bavail s' = bavail s"
proof -
  note d = binv_def bview_def bcached_def is_sector_def[abs_def] pinned_def locked_def held_def
    synced_def disks_present_def bavail_def assms
  show "binv s' = binv s" "pinned s' = pinned s" "locked s' = locked s" "disks_present s' = disks_present s"
    by (simp_all only: d)
  show "bview s' = bview s" "held s' = held s" "synced s' = synced s" "bavail s' = bavail s"
    by - ((rule ext)+, simp only: d)+
qed

section \<open>Properties\<close>

text \<open>C11: when a sector is not locked and some buffer can be recycled, \<open>bread\<close> returns; the buffer
  is locked, holds that sector and its current contents (the cached copy if there is one, even
  one not yet on the disk), and no sector's contents, no pinned buffer and no disk changed.\<close>

theorem bread_current:
  assumes "binv s" "dev \<noteq> nodev" "bavail s dev sec"
  shows "wp (bread dev sec) (\<lambda>i s'. held s' i dev sec \<and> b_data (bufs s' i) = bview s dev sec \<and>
           binv s' \<and> bview s' = bview s \<and> pinned s' = pinned s \<and> same_disk s s') s"
  using bread_returns[OF assms(1,3)] bread_spec[OF assms(1,2)] by (auto simp: wp_Ret)

text \<open>A sector cache as it is at boot, over a disk of zeros.\<close>

definition boot_bio :: bio where
  "boot_bio = \<lparr>disk = \<lambda>_ _. zero_bytes,
     bufs = \<lambda>_. \<lparr>b_busy = False, b_valid = False, b_dirty = False, b_dev = nodev, b_sector = 0, b_data = zero_bytes\<rparr>,
     lru = rev [0..<NBUF], havedisk1 = True, havedisk2 = True, dwrites = [],
     image = \<lambda>_ _. zero_bytes\<rparr>"

lemma binv_boot_bio: "binv boot_bio"
  by (rule binvI) (auto simp: boot_bio_def)

lemma bavail_boot_bio: "d \<noteq> nodev \<Longrightarrow> bavail boot_bio d x"
  by (auto simp: bavail_def boot_bio_def disks_present_def is_sector_def NBUF_def intro: exI[of _ 0])

lemma bview_boot_bio: "bview boot_bio d x = zero_bytes"
  by (simp add: bview_def boot_bio_def split: option.split)

theorem bread_current_witness:
  "wp (bread 1 5) (\<lambda>i s'. held s' i 1 5 \<and> b_data (bufs s' i) 17 = 0) boot_bio"
  by (rule wp_mono[OF bread_current[OF binv_boot_bio _ bavail_boot_bio]])
    (auto simp: bview_boot_bio zero_bytes_def)

text \<open>C12: reading a sector, overwriting the buffer, \<open>bwrite\<close> and \<open>brelse\<close> return under the same
  conditions; afterwards the disk itself holds the new contents, every reader sees them, all
  other sectors are as before and no lock is left behind.\<close>

theorem bio_update_durable:
  assumes inv: "binv s" and dev: "dev \<noteq> nodev" and av: "bavail s dev sec"
  shows "wp (kbind (bread dev sec) (\<lambda>i. kbind (bdata i) (\<lambda>v. kbind (bput i (f v)) (\<lambda>_.
             kbind (bwrite i) (\<lambda>_. brelse i)))))
           (\<lambda>_ s'. binv s' \<and> disk s' dev sec = f (bview s dev sec) \<and>
              bview s' = dput dev sec (f (bview s dev sec)) (bview s) \<and> held s' = held s) s"
proof (rule wp_update[OF assms])
  fix s'
  assume st: "stored s s' dev sec (f (bview s dev sec))" and lk: "locked s' = locked s"
    and same: "\<forall>j\<in>locked s. bufs s' j = bufs s j"
  have "held s' i d x = held s i d x" for i d x
  proof (cases "i \<in> locked s")
    case True
    with same show ?thesis by (simp add: held_def is_sector_def)
  next
    case False
    with lk show ?thesis by (auto simp: held_def locked_def)
  qed
  with st show "binv s' \<and> disk s' dev sec = f (bview s dev sec) \<and>
      bview s' = dput dev sec (f (bview s dev sec)) (bview s) \<and> held s' = held s"
    by (simp add: stored_def fun_eq_iff)
qed

theorem bio_update_durable_witness:
  "wp (kbind (bread 1 5) (\<lambda>i. kbind (bdata i) (\<lambda>v. kbind (bput i (v(3 := 9))) (\<lambda>_.
       kbind (bwrite i) (\<lambda>_. brelse i))))) (\<lambda>_ s'. disk s' 1 5 3 = 9 \<and> bview s' 1 5 4 = 0) boot_bio"
  by (rule wp_mono[OF bio_update_durable[OF binv_boot_bio _ bavail_boot_bio]])
    (auto simp: bview_boot_bio zero_bytes_def)

text \<open>Processes use the cache in any order: each step is one call by some process, which stores
  into or writes or releases only a buffer it has locked, and releases one it has changed only
  after writing it.\<close>

inductive bio_step :: "bio \<Rightarrow> bio \<Rightarrow> bool" where
  rd: "dev \<noteq> nodev \<Longrightarrow> bread dev sec s = Ret (i, s') \<Longrightarrow> bio_step s s'"
| st: "held s i dev sec \<Longrightarrow> bput i d s = Ret ((), s') \<Longrightarrow> bio_step s s'"
| wr: "held s i dev sec \<Longrightarrow> bwrite i s = Ret ((), s') \<Longrightarrow> bio_step s s'"
| rl: "held s i dev sec \<Longrightarrow> synced s i \<Longrightarrow> brelse i s = Ret ((), s') \<Longrightarrow> bio_step s s'"

lemma bio_step_binv: "bio_step s s' \<Longrightarrow> binv s \<Longrightarrow> binv s'"
proof (induction rule: bio_step.induct)
  case (rd dev sec s i s')
  then show ?case using bread_spec by blast
next
  case (st s i dev sec d s')
  then show ?case using bput_spec(1,2)[of s i dev sec d] by simp
next
  case (wr s i dev sec s')
  then show ?case using bwrite_spec[of s i dev sec s'] by simp
next
  case (rl s i dev sec s')
  then show ?case using brelse_spec[of s i dev sec] by auto
qed


lemma binit_boot_bio: "binit boot_bio = Ret ((), boot_bio)"
  by (simp add: binit_state boot_bio_def) (simp add: fun_eq_iff)


end
