(* ===== verification/Log.thy ===== *)
theory Log
  imports Bio "HOL-Library.Sublist"
begin

text \<open>
  The redo log (\<^verbatim>\<open>log.c\<close>) and the super block it is found through (\<open>readsb\<close> of
  \<^verbatim>\<open>fs/sfs/sfs_inode.c\<close>). The state extends the buffer cache by \<open>struct log\<close>; the
  spinlock around \<open>busy\<close> makes each test-and-set one step, and waiting for another
  transaction is the outcome \<open>Blocked\<close>.

  Two results carry the file system above. The cache under the log is a \<open>sector_cache\<close> whose
  way of keeping a change is \<open>log_write\<close>. And a transaction is atomic: stop the machine after
  any number of its disk writes, and recovery finds the file system as it was before the
  transaction or as it is after it.
\<close>

section \<open>State\<close>

definition LOGSIZE :: nat where "LOGSIZE = 10"

definition ROOTDEV :: uint where "ROOTDEV = 1"

record sfs_super =
  sb_size :: uint
  sb_nblocks :: uint
  sb_ninodes :: uint
  sb_nlog :: uint

record log = bio +
  log_start :: uint
  log_size :: int
  log_busy :: bool
  log_dev :: uint
  lh_n :: int
  lh_sector :: "nat \<Rightarrow> uint"

section \<open>Operations\<close>

definition sb_of :: "bytes \<Rightarrow> sfs_super" where
  "sb_of d = \<lparr>sb_size = ld32 d 0, sb_nblocks = ld32 d 4, sb_ninodes = ld32 d 8, sb_nlog = ld32 d 12\<rparr>"

definition readsb :: "uint \<Rightarrow> ('a bio_scheme, sfs_super) prog" where
  "readsb dev =
     kbind (bread dev 1) (\<lambda>bp.
     kbind (bdata bp) (\<lambda>d.
     kbind (brelse bp) (\<lambda>_.
     kret (sb_of d))))"

definition log_block :: "'a log_scheme \<Rightarrow> nat \<Rightarrow> uint" where
  \<comment> \<open>the sector of the log's data block \<open>i\<close>\<close>
  "log_block s i = log_start s + of_nat i + 1"

definition install_trans :: "('a log_scheme, unit) prog" where
  "install_trans =
     kbind (kget (\<lambda>s. nat (lh_n s))) (\<lambda>n.
     kfor 0 n (\<lambda>tail.
       kbind (kget (\<lambda>s. (log_dev s, log_block s tail, lh_sector s tail))) (\<lambda>(dev, lsec, dsec).
       kbind (bread dev lsec) (\<lambda>lbuf.
       kbind (bread dev dsec) (\<lambda>dbuf.
       kbind (bdata lbuf) (\<lambda>d.
       kbind (bput dbuf d) (\<lambda>_.
       kbind (bwrite dbuf) (\<lambda>_.
       kbind (brelse lbuf) (\<lambda>_.
       brelse dbuf))))))))) "

definition head_n :: "bytes \<Rightarrow> int" where
  "head_n d = sint (ld32 d 0)"

definition head_sector :: "bytes \<Rightarrow> nat \<Rightarrow> uint" where
  "head_sector d i = ld32 d (4 + 4 * i)"

definition read_head :: "('a log_scheme, unit) prog" where
  "read_head =
     kbind (kget (\<lambda>s. (log_dev s, log_start s))) (\<lambda>(dev, start).
     kbind (bread dev start) (\<lambda>buf.
     kbind (bdata buf) (\<lambda>d.
     kbind (kmod (\<lambda>s. s\<lparr>lh_n := head_n d,
        lh_sector := \<lambda>i. if i < nat (head_n d) then head_sector d i else lh_sector s i\<rparr>)) (\<lambda>_.
     brelse buf))))"

primrec put_sectors :: "nat \<Rightarrow> nat \<Rightarrow> (nat \<Rightarrow> uint) \<Rightarrow> bytes \<Rightarrow> bytes" where
  \<comment> \<open>the loop of \<open>write_head\<close> over \<open>hb->sector\<close>\<close>
  "put_sectors i 0 sec d = d"
| "put_sectors i (Suc n) sec d = put_sectors (Suc i) n sec (st32 d (4 + 4 * i) (sec i))"

definition write_head :: "('a log_scheme, unit) prog" where
  "write_head =
     kbind (kget (\<lambda>s. (log_dev s, log_start s, lh_n s, lh_sector s))) (\<lambda>(dev, start, n, sec).
     kbind (bread dev start) (\<lambda>buf.
     kbind (bdata buf) (\<lambda>d.
     kbind (bput buf (put_sectors 0 (nat n) sec (st32 d 0 (word_of_int n)))) (\<lambda>_.
     kbind (bwrite buf) (\<lambda>_.
     brelse buf)))))"

definition recover_from_log :: "('a log_scheme, unit) prog" where
  "recover_from_log =
     kbind read_head (\<lambda>_.
     kbind install_trans (\<lambda>_.
     kbind (kmod (\<lambda>s. s\<lparr>lh_n := 0\<rparr>)) (\<lambda>_.
     write_head)))"

definition initlog :: "('a log_scheme, unit) prog" where
  \<comment> \<open>\<open>sizeof(struct logheader)\<close> is 44 and \<open>BSIZE\<close> 512, so the size check passes\<close>
  "initlog =
     kbind (readsb ROOTDEV) (\<lambda>sb.
     kbind (kmod (\<lambda>s. s\<lparr>log_start := sb_size sb - sb_nlog sb, log_size := sint (sb_nlog sb),
        log_dev := ROOTDEV\<rparr>)) (\<lambda>_.
     recover_from_log))"

definition begin_trans :: "('a log_scheme, unit) prog" where
  "begin_trans =
     kbind (kget log_busy) (\<lambda>busy.
     if busy then kblock else kmod (\<lambda>s. s\<lparr>log_busy := True\<rparr>))"

definition commit_trans :: "('a log_scheme, unit) prog" where
  "commit_trans =
     kbind (kget lh_n) (\<lambda>n.
     kbind (kwhen (0 < n)
       (kbind write_head (\<lambda>_.
        kbind install_trans (\<lambda>_.
        kbind (kmod (\<lambda>s. s\<lparr>lh_n := 0\<rparr>)) (\<lambda>_.
        write_head))))) (\<lambda>_.
     kmod (\<lambda>s. s\<lparr>log_busy := False\<rparr>)))"

definition mark_dirty :: "nat \<Rightarrow> 'a bio_scheme \<Rightarrow> 'a bio_scheme" where
  \<comment> \<open>\<open>b->flags |= B_DIRTY\<close>\<close>
  "mark_dirty b s = set_buf b ((bufs s b)\<lparr>b_dirty := True\<rparr>) s"

primrec log_slot :: "nat \<Rightarrow> nat \<Rightarrow> (nat \<Rightarrow> uint) \<Rightarrow> uint \<Rightarrow> nat" where
  \<comment> \<open>the search loop of \<open>log_write\<close>: the first entry from \<open>i\<close> on that holds the sector, or the end\<close>
  "log_slot i 0 sec x = i"
| "log_slot i (Suc n) sec x = (if sec i = x then i else log_slot (Suc i) n sec x)"

definition log_write :: "nat \<Rightarrow> ('a log_scheme, unit) prog" where
  "log_write b =
     kbind (kget (\<lambda>s. s)) (\<lambda>s.
     if lh_n s \<ge> int LOGSIZE \<or> lh_n s \<ge> log_size s - 1 then kpanic ''too big a transaction''
     else if \<not> log_busy s then kpanic ''write outside of trans''
     else
       let x = b_sector (bufs s b); i = log_slot 0 (nat (lh_n s)) (lh_sector s) x in
       kbind (kmod (\<lambda>s. s\<lparr>lh_sector := (lh_sector s)(i := x)\<rparr>)) (\<lambda>_.
       kbind (bread (b_dev (bufs s b)) (log_block s i)) (\<lambda>lbuf.
       kbind (bdata b) (\<lambda>d.
       kbind (bput lbuf d) (\<lambda>_.
       kbind (bwrite lbuf) (\<lambda>_.
       kbind (brelse lbuf) (\<lambda>_.
       kbind (kwhen (int i = lh_n s) (kmod (\<lambda>s. s\<lparr>lh_n := lh_n s + 1\<rparr>))) (\<lambda>_.
       kmod (mark_dirty b)))))))))"


section \<open>Geometry of the log, and its header block\<close>

definition log_geom :: "'a log_scheme \<Rightarrow> bool" where
  \<comment> \<open>the log is a range of sectors of a device, of at most the size \<open>mkfs\<close> gives it\<close>
  "log_geom s \<longleftrightarrow> log_dev s \<noteq> nodev \<and> 1 \<le> log_size s \<and> log_size s \<le> int LOGSIZE \<and> uint (log_start s) + log_size s \<le> 2 ^ 32"

definition log_area :: "'a log_scheme \<Rightarrow> uint \<Rightarrow> uint \<Rightarrow> bool" where
  \<comment> \<open>the log's data blocks\<close>
  "log_area s d x \<longleftrightarrow> d = log_dev s \<and> uint (log_start s) < uint x \<and> uint x < uint (log_start s) + log_size s"

definition log_home :: "'a log_scheme \<Rightarrow> uint \<Rightarrow> uint \<Rightarrow> bool" where
  \<comment> \<open>the sectors outside the log\<close>
  "log_home s d x \<longleftrightarrow> \<not> log_area s d x \<and> (d, x) \<noteq> (log_dev s, log_start s)"

definition settled :: "'a log_scheme \<Rightarrow> (uint \<times> uint \<times> bytes) list" where
  \<comment> \<open>the disk writes up to the last one that was not to a data block of the log\<close>
  "settled s = dropWhile (\<lambda>w. log_area s (fst w) (fst (snd w))) (dwrites s)"

lemma same_log:
  assumes "bio.more s' = bio.more s"
  shows "log_start s' = log_start s" "log_size s' = log_size s" "log_busy s' = log_busy s"
    "log_dev s' = log_dev s" "lh_n s' = lh_n s" "lh_sector s' = lh_sector s" "log.more s' = log.more s"
  using assms by (cases s; cases s'; simp)+

text \<open>The cache's notions do not look at the fields of the log.\<close>

lemma log_upd_bio [simp]:
  "binv (s\<lparr>lh_n := n\<rparr>) = binv s" "bview (s\<lparr>lh_n := n\<rparr>) = bview s" "pinned (s\<lparr>lh_n := n\<rparr>) = pinned s"
  "locked (s\<lparr>lh_n := n\<rparr>) = locked s" "held (s\<lparr>lh_n := n\<rparr>) = held s" "synced (s\<lparr>lh_n := n\<rparr>) = synced s"
  "disks_present (s\<lparr>lh_n := n\<rparr>) = disks_present s" "bavail (s\<lparr>lh_n := n\<rparr>) = bavail s"
  "binv (s\<lparr>lh_sector := v\<rparr>) = binv s" "bview (s\<lparr>lh_sector := v\<rparr>) = bview s"
  "pinned (s\<lparr>lh_sector := v\<rparr>) = pinned s" "locked (s\<lparr>lh_sector := v\<rparr>) = locked s"
  "held (s\<lparr>lh_sector := v\<rparr>) = held s" "synced (s\<lparr>lh_sector := v\<rparr>) = synced s"
  "disks_present (s\<lparr>lh_sector := v\<rparr>) = disks_present s" "bavail (s\<lparr>lh_sector := v\<rparr>) = bavail s"
  "binv (s\<lparr>log_busy := c\<rparr>) = binv s" "bview (s\<lparr>log_busy := c\<rparr>) = bview s"
  "pinned (s\<lparr>log_busy := c\<rparr>) = pinned s" "locked (s\<lparr>log_busy := c\<rparr>) = locked s"
  "held (s\<lparr>log_busy := c\<rparr>) = held s" "synced (s\<lparr>log_busy := c\<rparr>) = synced s"
  "disks_present (s\<lparr>log_busy := c\<rparr>) = disks_present s" "bavail (s\<lparr>log_busy := c\<rparr>) = bavail s"
  by (rule bio_cong; simp)+

lemma log_upd_geom [simp]:
  "log_geom (s\<lparr>lh_n := n\<rparr>) = log_geom s" "log_geom (s\<lparr>lh_sector := v\<rparr>) = log_geom s"
  "log_geom (s\<lparr>log_busy := c\<rparr>) = log_geom s"
  "log_home (s\<lparr>lh_n := n\<rparr>) = log_home s" "log_home (s\<lparr>lh_sector := v\<rparr>) = log_home s"
  "log_home (s\<lparr>log_busy := c\<rparr>) = log_home s"
  "log_area (s\<lparr>lh_n := n\<rparr>) = log_area s" "log_area (s\<lparr>lh_sector := v\<rparr>) = log_area s"
  "log_area (s\<lparr>log_busy := c\<rparr>) = log_area s"
  "log_block (s\<lparr>lh_n := n\<rparr>) = log_block s" "log_block (s\<lparr>lh_sector := v\<rparr>) = log_block s"
  "log_block (s\<lparr>log_busy := c\<rparr>) = log_block s"
  by (simp_all add: fun_eq_iff log_geom_def log_home_def log_area_def log_block_def)

lemma same_log_geom:
  assumes "bio.more s' = bio.more s"
  shows "log_geom s' = log_geom s" "log_home s' = log_home s" "log_area s' = log_area s" "log_block s' = log_block s"
  using same_log[OF assms] by (simp_all add: fun_eq_iff log_geom_def log_home_def log_area_def log_block_def)

lemma uint_log_block:
  assumes "log_geom s" "int i + 1 < log_size s"
  shows "uint (log_block s i) = uint (log_start s) + int i + 1"
proof -
  have lt: "uint (log_start s) + int i + 1 < 2 ^ 32" using assms by (simp add: log_geom_def)
  have "log_block s i = word_of_int (uint (log_start s) + int i + 1)" by (simp add: log_block_def)
  then show ?thesis using lt by (simp only: uint_word_of_int) (simp add: mod_pos_pos_trivial)
qed

lemma log_block_area:
  "log_geom s \<Longrightarrow> int i + 1 < log_size s \<Longrightarrow> log_area s (log_dev s) (log_block s i)"
  by (simp add: log_area_def uint_log_block)

lemma log_block_inj:
  "log_geom s \<Longrightarrow> int i + 1 < log_size s \<Longrightarrow> int j + 1 < log_size s \<Longrightarrow>
   log_block s i = log_block s j \<longleftrightarrow> i = j"
  using uint_log_block[of s i] uint_log_block[of s j] by (auto simp: word_uint_eq_iff[of "log_block s i"])

lemma log_home_block:
  "log_geom s \<Longrightarrow> int i + 1 < log_size s \<Longrightarrow> log_home s (log_dev s) x \<Longrightarrow> log_block s i \<noteq> x"
  using log_block_area[of s i] by (auto simp: log_home_def)

lemma log_start_not_block:
  "log_geom s \<Longrightarrow> int i + 1 < log_size s \<Longrightarrow> log_block s i \<noteq> log_start s"
  using uint_log_block[of s i] by auto

lemma ld32_put_sectors_low: "q + 4 \<le> 4 + 4 * i \<Longrightarrow> ld32 (put_sectors i n sec d) q = ld32 d q"
  by (induction n arbitrary: i d) auto

lemma head_sector_put: "i \<le> j \<Longrightarrow> j < i + n \<Longrightarrow> head_sector (put_sectors i n sec d) j = sec j"
proof (induction n arbitrary: i d)
  case (Suc n)
  show ?case
  proof (cases "j = i")
    case True
    then show ?thesis by (simp add: head_sector_def ld32_put_sectors_low)
  next
    case False
    then show ?thesis using Suc by simp
  qed
qed simp

definition head_bytes :: "int \<Rightarrow> (nat \<Rightarrow> uint) \<Rightarrow> bytes \<Rightarrow> bytes" where
  \<comment> \<open>the block \<open>write_head\<close> stores\<close>
  "head_bytes n sec d = put_sectors 0 (nat n) sec (st32 d 0 (word_of_int n))"

lemma head_n_bytes: "0 \<le> n \<Longrightarrow> n < 2 ^ 31 \<Longrightarrow> head_n (head_bytes n sec d) = n"
  by (simp add: head_n_def head_bytes_def ld32_put_sectors_low sint_sbintrunc'
      signed_take_bit_int_eq_self)

lemma head_sector_bytes: "i < nat n \<Longrightarrow> head_sector (head_bytes n sec d) i = sec i"
  by (simp add: head_bytes_def head_sector_put)

lemma log_slot_range: "i \<le> log_slot i n sec x \<and> log_slot i n sec x \<le> i + n"
  by (induction n arbitrary: i) (auto, metis Suc_leD, metis add_Suc)

lemma log_slot_found: "log_slot i n sec x < i + n \<Longrightarrow> sec (log_slot i n sec x) = x"
  by (induction n arbitrary: i) auto

lemma log_slot_end: "log_slot i n sec x = i + n \<Longrightarrow> i \<le> j \<Longrightarrow> j < i + n \<Longrightarrow> sec j \<noteq> x"
proof (induction n arbitrary: i)
  case (Suc n)
  have "sec i \<noteq> x" "log_slot (Suc i) n sec x = Suc i + n" using Suc.prems by (auto split: if_splits)
  then show ?case using Suc.IH[of "Suc i"] Suc.prems by (cases "j = i") simp_all
qed simp

lemma replay_append: "replay (us @ ws) D = replay us (replay ws D)"
  by (induction us) auto

lemma replay_other: "(\<And>w. w \<in> set ws \<Longrightarrow> (fst w, fst (snd w)) \<noteq> (d, x)) \<Longrightarrow> replay ws D d x = D d x"
proof (induction ws)
  case (Cons w ws)
  have "(fst w, fst (snd w)) \<noteq> (d, x)" by (rule Cons.prems) simp
  moreover have "replay ws D d x = D d x" by (rule Cons.IH) (rule Cons.prems, simp)
  ultimately show ?case by (auto simp: prod_eq_iff)
qed simp

section \<open>Installing and clearing the log\<close>

lemma bavail_unlocked:
  "binv s \<Longrightarrow> disks_present s \<Longrightarrow> locked s = {} \<Longrightarrow> card (pinned s) < NBUF \<Longrightarrow> bavail s dev sec"
  by (rule bavailI) auto

lemma wp_write_head:
  assumes "binv s" "locked s = {}" "disks_present s" "log_geom s" "card (pinned s) < NBUF"
    and k: "\<And>s'. stored s s' (log_dev s) (log_start s)
            (head_bytes (lh_n s) (lh_sector s) (bview s (log_dev s) (log_start s))) \<Longrightarrow>
          locked s' = {} \<Longrightarrow> Q () s'"
  shows "wp write_head Q s"
  unfolding write_head_def
  apply (simp add: wp_kbind wp_kget)
  apply (simp add: wp_kbind[symmetric])
  apply (rule wp_update[OF assms(1) _ bavail_unlocked[OF assms(1,3,2,5)],
        of "log_dev s" "log_start s" "\<lambda>d. put_sectors 0 (nat (lh_n s)) (lh_sector s) (st32 d 0 (word_of_int (lh_n s)))"])
  using assms(2,4) k by (auto simp: log_geom_def head_bytes_def)

text \<open>One round of \<open>install_trans\<close>.\<close>

lemma wp_install_one:
  assumes inv: "binv s" and un: "locked s = {}" and pres: "disks_present s" and dev: "dev \<noteq> nodev"
    and ne: "lsec \<noteq> dsec" and few: "card (pinned s) < NBUF"
    and few2: "(dev, dsec) \<in> pinned s \<or> Suc (card (pinned s)) < NBUF"
    and k: "\<And>s'. stored s s' dev dsec (bview s dev lsec) \<Longrightarrow> locked s' = {} \<Longrightarrow> Q () s'"
  shows "wp (kbind (bread dev lsec) (\<lambda>lbuf. kbind (bread dev dsec) (\<lambda>dbuf. kbind (bdata lbuf) (\<lambda>d.
           kbind (bput dbuf d) (\<lambda>_. kbind (bwrite dbuf) (\<lambda>_. kbind (brelse lbuf) (\<lambda>_. brelse dbuf))))))) Q s"
proof (rule wp_bread[OF inv dev bavail_unlocked[OF inv pres un few]])
  fix l s1
  assume g1: "got s s1 l dev lsec"
  then have inv1: "binv s1" and h1: "held s1 l dev lsec" and l1: "locked s1 = {l}" and p1: "disks_present s1"
    using un pres by (auto simp: got_def disks_present_def same_disk_def)
  have "bavail s1 dev dsec"
  proof (rule bavailI[OF inv1 p1])
    show "\<not> is_sector s1 dev dsec i" if "i \<in> locked s1" for i
      using that l1 h1 ne by (auto simp: held_def is_sector_def)
    show "(dev, dsec) \<in> pinned s1 \<or> card (locked s1) + card (pinned s1) < NBUF"
      using few2 l1 g1 by (auto simp: got_def)
  qed
  then show "wp (kbind (bread dev dsec) (\<lambda>dbuf. kbind (bdata l) (\<lambda>d.
           kbind (bput dbuf d) (\<lambda>_. kbind (bwrite dbuf) (\<lambda>_. kbind (brelse l) (\<lambda>_. brelse dbuf)))))) Q s1"
  proof (rule wp_bread[OF inv1 dev])
    fix b s2
    assume g2: "got s1 s2 b dev dsec"
    then have inv2: "binv s2" and bl: "b \<noteq> l" and hb2: "held s2 b dev dsec" and p2: "disks_present s2"
      using l1 p1 by (auto simp: got_def disks_present_def same_disk_def)
    have hl2: "held s2 l dev lsec" and sl2: "synced s2 l"
      using g1 g2 bl h1 by (auto simp: got_def held_def is_sector_def synced_def same_disk_def)
    show "wp (kbind (bdata l) (\<lambda>d. kbind (bput b d) (\<lambda>_. kbind (bwrite b) (\<lambda>_. kbind (brelse l) (\<lambda>_. brelse b))))) Q s2"
    proof (rule wp_bdata[OF inv2 hl2], rule wp_put_write[OF inv2 hb2 p2])
      fix s3
      assume st: "stored s2 s3 dev dsec (bview s2 dev lsec)" and lk3: "locked s3 = locked s2"
        and hb3: "held s3 b dev dsec" and sb3: "synced s3 b" and o3: "\<forall>j. j \<noteq> b \<longrightarrow> bufs s3 j = bufs s2 j"
      have inv3: "binv s3" using st by (simp add: stored_def)
      have hl3: "held s3 l dev lsec" and sl3: "synced s3 l"
        using o3 bl hl2 sl2 st ne by (auto simp: held_def is_sector_def synced_def stored_def)
      show "wp (kbind (brelse l) (\<lambda>_. brelse b)) Q s3"
        unfolding wp_kbind
      proof (rule wp_brelse[OF inv3 hl3 sl3])
        fix s4
        assume v4: "gave s3 s4 l"
        have inv4: "binv s4" and hb4: "held s4 b dev dsec" and sb4: "synced s4 b"
          using v4 hb3 sb3 bl by (auto simp: gave_def held_def is_sector_def synced_def same_disk_def)
        show "wp (brelse b) Q s4"
        proof (rule wp_brelse[OF inv4 hb4 sb4], rule k)
          fix s5
          assume v5: "gave s4 s5 b"
          show "stored s s5 dev dsec (bview s dev lsec)"
            using g1 g2 st v4 v5 by (simp add: stored_def got_def gave_def same_disk_def)
          show "locked s5 = {}" using g2 l1 lk3 v4 v5 by (auto simp: got_def gave_def)
        qed
      qed
    qed
  qed
qed

definition installs :: "'a log_scheme \<Rightarrow> nat \<Rightarrow> (uint \<times> uint \<times> bytes) list" where
  \<comment> \<open>the disk writes of the first \<open>t\<close> rounds, newest first\<close>
  "installs s t = rev (map (\<lambda>i. (log_dev s, lh_sector s i, bview s (log_dev s) (log_block s i))) [0..<t])"

lemma installs_Suc:
  "installs s (Suc t) = (log_dev s, lh_sector s t, bview s (log_dev s) (log_block s t)) # installs s t"
  by (simp add: installs_def)

lemma installs_0 [simp]: "installs s 0 = []"
  by (simp add: installs_def)

lemma set_installs:
  "w \<in> set (installs s t) \<Longrightarrow> \<exists>i<t. w = (log_dev s, lh_sector s i, bview s (log_dev s) (log_block s i))"
  by (auto simp: installs_def)

lemma replay_installs_log:
  assumes "\<And>i. i < t \<Longrightarrow> log_home s (log_dev s) (lh_sector s i)" "\<not> log_home s d x"
  shows "replay (installs s t) D d x = D d x"
  by (rule replay_other) (use assms in \<open>auto dest!: set_installs\<close>)

definition quiet :: "'a log_scheme \<Rightarrow> 'a log_scheme \<Rightarrow> bool" where
  \<comment> \<open>no buffer is locked, and nothing above the cache has changed\<close>
  "quiet s s' \<longleftrightarrow> binv s' \<and> locked s' = {} \<and> havedisk1 s' = havedisk1 s \<and> havedisk2 s' = havedisk2 s \<and>
     image s' = image s \<and> bio.more s' = bio.more s"

lemma wp_install_trans:
  assumes inv: "binv s" "locked s = {}" "disks_present s" "log_geom s" "card (pinned s) < NBUF"
    and n: "n = nat (lh_n s)" "int n < log_size s"
    and home: "\<And>i. i < n \<Longrightarrow> log_home s (log_dev s) (lh_sector s i)"
    and room: "(\<forall>i<n. \<forall>j<n. i \<noteq> j \<longrightarrow> lh_sector s i \<noteq> lh_sector s j) \<and>
        (\<forall>i<n. (log_dev s, lh_sector s i) \<in> pinned s) \<or> Suc (card (pinned s)) < NBUF"
    and k: "\<And>s'. quiet s s' \<Longrightarrow> bview s' = replay (installs s n) (bview s) \<Longrightarrow>
        dwrites s' = installs s n @ dwrites s \<Longrightarrow>
        pinned s' = pinned s - {(log_dev s, lh_sector s i) | i. i < n} \<Longrightarrow> Q () s'"
  shows "wp install_trans Q s"
proof -
  define I where "I t s' \<longleftrightarrow> quiet s s' \<and> bview s' = replay (installs s t) (bview s) \<and>
      dwrites s' = installs s t @ dwrites s \<and>
      pinned s' = pinned s - {(log_dev s, lh_sector s i) | i. i < t}" for t s'
  have I0: "I 0 s" using inv by (simp add: I_def quiet_def)
  have step: "wp (kbind (bread (log_dev s) (log_block s t)) (\<lambda>lbuf.
        kbind (bread (log_dev s) (lh_sector s t)) (\<lambda>dbuf. kbind (bdata lbuf) (\<lambda>d.
        kbind (bput dbuf d) (\<lambda>_. kbind (bwrite dbuf) (\<lambda>_. kbind (brelse lbuf) (\<lambda>_. brelse dbuf)))))))
      (\<lambda>_. I (Suc t)) s'" if t: "t < n" and It: "I t s'" for t s'
  proof (rule wp_install_one)
    have tn: "int t + 1 < log_size s" using t n(2) by linarith
    have sub: "card (pinned s') \<le> card (pinned s)" using It by (auto simp: I_def intro!: card_mono)
    show "binv s'" "locked s' = {}" "disks_present s'" "log_dev s \<noteq> nodev"
      using It inv by (auto simp: I_def quiet_def disks_present_def log_geom_def)
    show "log_block s t \<noteq> lh_sector s t" using log_home_block[OF inv(4) tn home[OF t]] .
    show "card (pinned s') < NBUF" using sub inv by simp
    show "(log_dev s, lh_sector s t) \<in> pinned s' \<or> Suc (card (pinned s')) < NBUF"
      using room sub It t by (auto simp: I_def)
    have same: "bview s' (log_dev s) (log_block s t) = bview s (log_dev s) (log_block s t)"
      using It t log_block_area[OF inv(4) tn]
      by (auto simp: I_def log_home_def intro!: replay_installs_log home)
    fix s''
    assume st: "stored s' s'' (log_dev s) (lh_sector s t) (bview s' (log_dev s) (log_block s t))"
      and lk: "locked s'' = {}"
    have "pinned s'' = pinned s - {(log_dev s, lh_sector s i) | i. i < Suc t}"
      using st It by (auto simp: stored_def I_def less_Suc_eq)
    with st lk It same show "I (Suc t) s''"
      by (simp add: I_def stored_def quiet_def installs_Suc)
  qed
  have "wp (kfor 0 n (\<lambda>tail. kbind (kget (\<lambda>s. (log_dev s, log_block s tail, lh_sector s tail))) (\<lambda>(dev, lsec, dsec).
       kbind (bread dev lsec) (\<lambda>lbuf. kbind (bread dev dsec) (\<lambda>dbuf. kbind (bdata lbuf) (\<lambda>d.
       kbind (bput dbuf d) (\<lambda>_. kbind (bwrite dbuf) (\<lambda>_. kbind (brelse lbuf) (\<lambda>_.
       brelse dbuf))))))))) (\<lambda>_. I (0 + n)) s"
  proof (rule wp_kfor[where I = I, OF I0])
    fix t s'
    assume "0 \<le> t" "t < 0 + n" and It: "I t s'"
    then have t: "t < n" by simp
    have "log_dev s' = log_dev s" "log_block s' t = log_block s t" "lh_sector s' = lh_sector s"
      using It same_log[of s' s] by (auto simp: I_def quiet_def log_block_def)
    then show "wp (kbind (kget (\<lambda>s. (log_dev s, log_block s t, lh_sector s t))) (\<lambda>(dev, lsec, dsec).
       kbind (bread dev lsec) (\<lambda>lbuf. kbind (bread dev dsec) (\<lambda>dbuf. kbind (bdata lbuf) (\<lambda>d.
       kbind (bput dbuf d) (\<lambda>_. kbind (bwrite dbuf) (\<lambda>_. kbind (brelse lbuf) (\<lambda>_.
       brelse dbuf)))))))) (\<lambda>_. I (Suc t)) s'"
      using step[OF t It] by (subst wp_kbind) (simp add: wp_kget)
  qed
  then have "wp install_trans (\<lambda>_. I n) s"
    using n by (simp add: install_trans_def wp_kbind wp_kget)
  then show ?thesis by (rule wp_mono) (auto simp: I_def intro: k)
qed

section \<open>Recovery\<close>

definition log_fixed :: "'a log_scheme \<Rightarrow> 'a log_scheme \<Rightarrow> bool" where
  \<comment> \<open>the place of the log, the drives and the state above are unchanged\<close>
  "log_fixed s s' \<longleftrightarrow> log_start s' = log_start s \<and> log_size s' = log_size s \<and> log_dev s' = log_dev s \<and>
     log.more s' = log.more s \<and> havedisk1 s' = havedisk1 s \<and> havedisk2 s' = havedisk2 s \<and> image s' = image s"

lemma log_fixed_geom:
  assumes "log_fixed s s'"
  shows "log_geom s' = log_geom s" "log_home s' = log_home s" "log_area s' = log_area s" "log_block s' = log_block s"
  using assms by (simp_all add: fun_eq_iff log_fixed_def log_geom_def log_home_def log_area_def log_block_def)

definition log_clear :: "'a log_scheme \<Rightarrow> bool" where
  \<comment> \<open>between transactions: nothing is locked, nothing is pinned, the log is empty here and on the disk\<close>
  "log_clear s \<longleftrightarrow> binv s \<and> locked s = {} \<and> pinned s = {} \<and> disks_present s \<and> log_geom s \<and> lh_n s = 0 \<and>
     head_n (disk s (log_dev s) (log_start s)) \<le> 0 \<and> settled s = dwrites s"

lemma clean_view: "binv s \<Longrightarrow> locked s = {} \<Longrightarrow> pinned s = {} \<Longrightarrow> bview s d x = disk s d x"
  by (cases "d = nodev") (simp add: bview_def, simp add: bview_clean locked_empty)

lemma wp_read_head:
  assumes "binv s" "locked s = {}" "disks_present s" "log_geom s" "card (pinned s) < NBUF"
    and H: "H = bview s (log_dev s) (log_start s)"
    and k: "\<And>s'. binv s' \<Longrightarrow> locked s' = {} \<Longrightarrow> pinned s' = pinned s \<Longrightarrow> bview s' = bview s \<Longrightarrow> log_fixed s s' \<Longrightarrow>
          log_busy s' = log_busy s \<Longrightarrow> dwrites s' = dwrites s \<Longrightarrow> lh_n s' = head_n H \<Longrightarrow>
          (\<forall>i < nat (head_n H). lh_sector s' i = head_sector H i) \<Longrightarrow> Q () s'"
  shows "wp read_head Q s"
proof -
  let ?d = "log_dev s" and ?x = "log_start s"
  let ?u = "\<lambda>s. s\<lparr>lh_n := head_n H, lh_sector := \<lambda>i. if i < nat (head_n H) then head_sector H i else lh_sector s i\<rparr>"
  have dev: "?d \<noteq> nodev" using assms(4) by (simp add: log_geom_def)
  have "wp (kbind (bread ?d ?x) (\<lambda>buf. kbind (bdata buf) (\<lambda>d. kbind (kmod (\<lambda>s. s\<lparr>lh_n := head_n d,
        lh_sector := \<lambda>i. if i < nat (head_n d) then head_sector d i else lh_sector s i\<rparr>)) (\<lambda>_. brelse buf)))) Q s"
  proof (rule wp_bread[OF assms(1) dev bavail_unlocked[OF assms(1,3,2,5)]])
    fix i s1
    assume g: "got s s1 i ?d ?x"
    then have inv1: "binv s1" and h1: "held s1 i ?d ?x" and sy1: "synced s1 i" by (auto simp: got_def)
    have v: "bview s1 ?d ?x = H" using g H by (simp add: got_def)
    show "wp (kbind (bdata i) (\<lambda>d. kbind (kmod (\<lambda>s. s\<lparr>lh_n := head_n d,
        lh_sector := \<lambda>i. if i < nat (head_n d) then head_sector d i else lh_sector s i\<rparr>)) (\<lambda>_. brelse i))) Q s1"
    proof (rule wp_bdata[OF inv1 h1], unfold v wp_kbind wp_kmod, rule wp_brelse)
      show "binv (?u s1)" "held (?u s1) i ?d ?x" "synced (?u s1) i" using inv1 h1 sy1 by simp_all
      fix s2
      assume e: "gave (?u s1) s2 i"
      from g have m1: "bio.more s1 = bio.more s" by (simp add: got_def same_disk_def)
      from e have m2: "bio.more s2 = bio.more (?u s1)" by (simp add: gave_def same_disk_def)
      show "Q () s2"
        using e g assms(2) same_log[OF m1] same_log[OF m2]
        by (intro k) (auto simp: gave_def got_def same_disk_def log_fixed_def)
    qed
  qed
  then show ?thesis by (simp add: read_head_def wp_kbind wp_kget)
qed

text \<open>What recovery makes of the disks: the committed blocks at their home locations.\<close>

definition redo :: "'a log_scheme \<Rightarrow> dmap \<Rightarrow> (uint \<times> uint \<times> bytes) list" where
  "redo s D = (let H = D (log_dev s) (log_start s) in
     rev (map (\<lambda>i. (log_dev s, head_sector H i, D (log_dev s) (log_block s i))) [0..<nat (head_n H)]))"

definition log_sound :: "'a log_scheme \<Rightarrow> dmap \<Rightarrow> bool" where
  \<comment> \<open>the header on the disk lists at most as many blocks as the log has, all outside the log\<close>
  "log_sound s D \<longleftrightarrow> (let H = D (log_dev s) (log_start s) in
     head_n H < log_size s \<and> (\<forall>i < nat (head_n H). log_home s (log_dev s) (head_sector H i)))"

lemma log_fixed_trans: "log_fixed s t \<Longrightarrow> log_fixed t u \<Longrightarrow> log_fixed s u"
  by (simp add: log_fixed_def)

lemma quiet_fixed: "quiet s s' \<Longrightarrow> log_fixed s s'"
  using same_log[of s' s] by (simp add: quiet_def log_fixed_def)

lemma stored_fixed: "stored s s' d x v \<Longrightarrow> log_fixed s s'"
  using same_log[of s' s] by (simp add: stored_def log_fixed_def)

lemma wp_clear_head:
  assumes "binv s" "locked s = {}" "disks_present s" "log_geom s" "pinned s = {}"
    and k: "\<And>s'. log_clear s' \<Longrightarrow> log_fixed s s' \<Longrightarrow> log_busy s' = log_busy s \<Longrightarrow>
          (\<forall>d x. (d, x) \<noteq> (log_dev s, log_start s) \<longrightarrow> bview s' d x = bview s d x) \<Longrightarrow>
          (\<exists>H. head_n H = 0 \<and> dwrites s' = (log_dev s, log_start s, H) # dwrites s) \<Longrightarrow> Q () s'"
  shows "wp (kbind (kmod (\<lambda>s. s\<lparr>lh_n := 0\<rparr>)) (\<lambda>_. write_head)) Q s"
proof -
  let ?s = "s\<lparr>lh_n := 0\<rparr>"
  have "wp write_head Q ?s"
  proof (rule wp_write_head)
    show "binv ?s" "locked ?s = {}" "disks_present ?s" "log_geom ?s" "card (pinned ?s) < NBUF"
      using assms by (simp_all add: NBUF_def)
    fix s'
    assume st: "stored ?s s' (log_dev ?s) (log_start ?s)
        (head_bytes (lh_n ?s) (lh_sector ?s) (bview ?s (log_dev ?s) (log_start ?s)))"
      and lk: "locked s' = {}"
    note f = stored_fixed[OF st]
    have "log_clear s'" "log_busy s' = log_busy s"
      using st lk assms same_log[of s' ?s] same_log_geom[of s' ?s] head_n_bytes[of 0]
      by (auto simp: log_clear_def stored_def disks_present_def settled_def log_area_def)
    then show "Q () s'"
      using st f head_n_bytes[of 0 "lh_sector s"]
      by (intro k) (auto simp: stored_def log_fixed_def)
  qed
  then show ?thesis by (simp add: wp_kbind wp_kmod)
qed

lemma wp_recover:
  assumes inv: "binv s" "locked s = {}" "disks_present s" "log_geom s" "pinned s = {}"
    and sound: "log_sound s (disk s)"
    and k: "\<And>s'. log_clear s' \<Longrightarrow> log_fixed s s' \<Longrightarrow> log_busy s' = log_busy s \<Longrightarrow>
          (\<forall>d x. log_home s d x \<longrightarrow> bview s' d x = replay (redo s (disk s)) (disk s) d x) \<Longrightarrow>
          (\<exists>H. head_n H = 0 \<and> dwrites s' = (log_dev s, log_start s, H) # redo s (disk s) @ dwrites s) \<Longrightarrow> Q () s'"
  shows "wp recover_from_log Q s"
  unfolding recover_from_log_def wp_kbind
proof (rule wp_read_head[OF inv(1-4) _ refl])
  let ?H = "bview s (log_dev s) (log_start s)"
  have H: "?H = disk s (log_dev s) (log_start s)" using clean_view inv by blast
  show "card (pinned s) < NBUF" using inv(5) by (simp add: NBUF_def)
  fix s1
  assume s1: "binv s1" "locked s1 = {}" "pinned s1 = pinned s" "bview s1 = bview s" "log_fixed s s1"
    "log_busy s1 = log_busy s" "dwrites s1 = dwrites s" "lh_n s1 = head_n ?H"
    "\<forall>i<nat (head_n ?H). lh_sector s1 i = head_sector ?H i"
  let ?n = "nat (lh_n s1)"
  note g1 = log_fixed_geom[OF s1(5)]
  have dev1: "log_dev s1 = log_dev s" using s1(5) by (simp add: log_fixed_def)
  have v1: "bview s1 = disk s" using clean_view[of s] inv s1(4) by (simp add: fun_eq_iff)
  have ir: "installs s1 ?n = redo s (disk s)"
    using s1(8,9) dev1 v1 g1(4) H by (auto simp: installs_def redo_def Let_def)
  then have redo: "replay (installs s1 ?n) (bview s1) = replay (redo s (disk s)) (disk s)"
    using v1 by simp
  show "wp install_trans (\<lambda>x. wp (kmod (\<lambda>s. s\<lparr>lh_n := 0\<rparr>)) (\<lambda>x. wp write_head Q)) s1"
  proof (rule wp_install_trans[OF s1(1,2) _ _ _ refl])
    show "disks_present s1" "log_geom s1" "card (pinned s1) < NBUF"
      using inv s1 g1 by (simp_all add: disks_present_def log_fixed_def NBUF_def)
    show "int ?n < log_size s1"
      using sound H s1(5,8) inv(4) by (auto simp: log_sound_def Let_def log_fixed_def log_geom_def)
    show "log_home s1 (log_dev s1) (lh_sector s1 i)" if "i < ?n" for i
      using that sound H s1(8,9) dev1 g1 by (auto simp: log_sound_def Let_def)
    show "(\<forall>i<?n. \<forall>j<?n. i \<noteq> j \<longrightarrow> lh_sector s1 i \<noteq> lh_sector s1 j) \<and>
        (\<forall>i<?n. (log_dev s1, lh_sector s1 i) \<in> pinned s1) \<or> Suc (card (pinned s1)) < NBUF"
      using s1(3) inv(5) by (simp add: NBUF_def)
    fix s2
    assume s2: "quiet s1 s2" "bview s2 = replay (installs s1 ?n) (bview s1)"
      "pinned s2 = pinned s1 - {(log_dev s1, lh_sector s1 i) |i. i < ?n}" "dwrites s2 = installs s1 ?n @ dwrites s1"
    note f2 = log_fixed_trans[OF s1(5) quiet_fixed[OF s2(1)]]
    note g2 = log_fixed_geom[OF f2]
    show "wp (kmod (\<lambda>s. s\<lparr>lh_n := 0\<rparr>)) (\<lambda>x. wp write_head Q) s2"
      unfolding wp_kbind[symmetric]
    proof (rule wp_clear_head)
      show "binv s2" "locked s2 = {}" "disks_present s2" "log_geom s2" "pinned s2 = {}"
        using s2 s1 inv g2 by (auto simp: quiet_def disks_present_def log_fixed_def)
      fix s3
      assume s3: "log_clear s3" "log_fixed s2 s3" "log_busy s3 = log_busy s2"
        "\<forall>d x. (d, x) \<noteq> (log_dev s2, log_start s2) \<longrightarrow> bview s3 d x = bview s2 d x"
        "\<exists>H. head_n H = 0 \<and> dwrites s3 = (log_dev s2, log_start s2, H) # dwrites s2"
      show "Q () s3"
      proof (rule k[OF s3(1) log_fixed_trans[OF f2 s3(2)]])
        show "log_busy s3 = log_busy s" using s3(3) s2(1) s1(6) same_log(3)[of s2 s1] by (simp add: quiet_def)
        show "\<forall>d x. log_home s d x \<longrightarrow> bview s3 d x = replay (redo s (disk s)) (disk s) d x"
          using s3(4) s2(2) f2 redo by (auto simp: log_home_def log_fixed_def)
        show "\<exists>H. head_n H = 0 \<and> dwrites s3 = (log_dev s, log_start s, H) # redo s (disk s) @ dwrites s"
          using s3(5) s2(4) s1(7) ir f2 by (auto simp: log_fixed_def)
      qed
    qed
  qed
qed

section \<open>The log as a sector cache\<close>

lemma bread_Ret_bavail:
  assumes inv: "binv s" and dev: "dev \<noteq> nodev" and run: "bread dev sec s = Ret (i, s')" and pres: "disks_present s"
  shows "bavail s dev sec"
proof -
  from bread_Ret[OF inv dev run] have i: "i < NBUF" "\<not> b_busy (bufs s i)"
    and new: "is_sector s dev sec i \<or> \<not> b_dirty (bufs s i) \<and> bcached s dev sec = None" by auto
  have "\<not> b_busy (bufs s j)" if "j < NBUF" "is_sector s dev sec j" for j
    using new i that bcached_NoneD[OF inv _ that(1)] binv_unique[OF inv that(1) i(1) that(2) _ dev] by auto
  then show ?thesis using new i pres by (auto simp: bavail_def)
qed

lemma mark_dirty:
  assumes inv: "binv s" and h: "held s b d x"
  shows "binv (mark_dirty b s)" "bview (mark_dirty b s) = bview s" "pinned (mark_dirty b s) = insert (d, x) (pinned s)"
    "held (mark_dirty b s) = held s" "locked (mark_dirty b s) = locked s" "same_disk s (mark_dirty b s)"
proof -
  let ?b = "(bufs s b)\<lparr>b_dirty := True\<rparr>"
  have b: "b < NBUF" "b_busy (bufs s b)" "b_dev (bufs s b) = d" "b_sector (bufs s b) = x"
    using h by (auto simp: held_def is_sector_def)
  have v: "b_valid (bufs s b)" "d \<noteq> nodev" using binv_busy[OF inv b(1,2)] b by auto
  have own: "is_sector s d x b" using b by (simp add: is_sector_def)
  show inv': "binv (mark_dirty b s)"
    unfolding mark_dirty_def
  proof (rule binv_set_buf[OF inv b(1)])
    show "\<not> is_sector s (b_dev ?b) (b_sector ?b) j" if "j < NBUF" "j \<noteq> b" for j
      using binv_unique[OF inv that(1) b(1) _ own v(2)] that(2) b by auto
  qed (use b v in auto)
  show "bview (mark_dirty b s) = bview s"
  proof (rule ext, rule ext)
    fix e y
    show "bview (mark_dirty b s) e y = bview s e y"
    proof (cases "e = d \<and> y = x")
      case True
      then show ?thesis
        using bview_set_buf_this[OF inv'[unfolded mark_dirty_def] b(1)] bview_cached[OF inv v(2) b(1) own v(1)] b v
        by (simp add: mark_dirty_def)
    next
      case False
      then show ?thesis
        unfolding mark_dirty_def
        by (intro bview_set_buf_other[OF inv inv'[unfolded mark_dirty_def] b(1)]) (auto simp: b is_sector_def)
    qed
  qed
  show "pinned (mark_dirty b s) = insert (d, x) (pinned s)"
    unfolding mark_dirty_def pinned_set_buf[OF b(1)] pinned_split[OF b(1), of s] using b by auto
qed (auto simp: mark_dirty_def held_def[abs_def] is_sector_def locked_def same_disk_def)

lemma wp_log_copy:
  assumes inv: "binv s" and h: "held s b d x" and ne: "lsec \<noteq> x" and av: "bavail s d lsec"
    and k: "\<And>s'. stored s s' d lsec (bview s d x) \<Longrightarrow> locked s' = locked s \<Longrightarrow>
          (\<forall>j\<in>locked s. bufs s' j = bufs s j) \<Longrightarrow> wp k Q s'"
  shows "wp (kbind (bread d lsec) (\<lambda>l. kbind (bdata b) (\<lambda>v. kbind (bput l v) (\<lambda>_. kbind (bwrite l) (\<lambda>_.
           kbind (brelse l) (\<lambda>_. k)))))) Q s"
proof -
  have b: "b < NBUF" "b_busy (bufs s b)" "b_dev (bufs s b) = d" "b_sector (bufs s b) = x"
    using h by (auto simp: held_def is_sector_def)
  have d: "d \<noteq> nodev" using binv_busy[OF inv b(1,2)] b by auto
  show ?thesis
  proof (rule wp_bread[OF inv d av])
    fix l s1
    assume g: "got s s1 l d lsec"
    have lb: "l \<noteq> b" using g h by (auto simp: got_def locked_def held_def)
    have inv1: "binv s1" and h1: "held s1 l d lsec" and p1: "disks_present s1" and hb1: "held s1 b d x"
      using g av lb h by (auto simp: got_def bavail_def disks_present_def same_disk_def held_def is_sector_def)
    show "wp (kbind (bdata b) (\<lambda>v. kbind (bput l v) (\<lambda>_. kbind (bwrite l) (\<lambda>_. kbind (brelse l) (\<lambda>_. k))))) Q s1"
    proof (rule wp_bdata[OF inv1 hb1], rule wp_put_write[OF inv1 h1 p1])
      fix s2
      assume st: "stored s1 s2 d lsec (bview s1 d x)" and lk: "locked s2 = locked s1"
        and h2: "held s2 l d lsec" and sy: "synced s2 l" and o2: "\<forall>j. j \<noteq> l \<longrightarrow> bufs s2 j = bufs s1 j"
      then have inv2: "binv s2" by (simp add: stored_def)
      show "wp (kbind (brelse l) (\<lambda>_. k)) Q s2"
        unfolding wp_kbind
      proof (rule wp_brelse[OF inv2 h2 sy], rule k)
        fix s3
        assume v: "gave s2 s3 l"
        show "stored s s3 d lsec (bview s d x)"
          using g st v by (simp add: stored_def got_def gave_def same_disk_def)
        show "locked s3 = locked s" using g lk v by (auto simp: got_def gave_def)
        show "\<forall>j\<in>locked s. bufs s3 j = bufs s j" using g o2 v by (auto simp: got_def gave_def)
      qed
    qed
  qed
qed

definition lview :: "'a log_scheme \<Rightarrow> dmap" where
  "lview s = (\<lambda>d x. if log_area s d x then zero_bytes else bview s d x)"

definition lusable :: "'a log_scheme \<Rightarrow> uint \<Rightarrow> uint \<Rightarrow> bool" where
  "lusable s d x \<longleftrightarrow> d = log_dev s \<and> log_home s d x"

definition logged :: "'a log_scheme \<Rightarrow> uint \<Rightarrow> nat \<Rightarrow> bool" where
  \<comment> \<open>entry \<open>i\<close> of the current transaction is for sector \<open>x\<close>\<close>
  "logged s x i \<longleftrightarrow> i < nat (lh_n s) \<and> lh_sector s i = x"

definition lsynced :: "'a log_scheme \<Rightarrow> nat \<Rightarrow> bool" where
  "lsynced s b \<longleftrightarrow> (if b_dirty (bufs s b)
     then b_dev (bufs s b) = log_dev s \<and> (\<exists>i. logged s (b_sector (bufs s b)) i \<and>
       disk s (log_dev s) (log_block s i) = b_data (bufs s b))
     else b_data (bufs s b) = disk s (b_dev (bufs s b)) (b_sector (bufs s b)))"

definition linv :: "'a log_scheme \<Rightarrow> bool" where
  "linv s \<longleftrightarrow> binv s \<and> disks_present s \<and> log_geom s \<and> 0 \<le> lh_n s \<and> lh_n s \<le> int LOGSIZE \<and> lh_n s < log_size s \<and>
     (\<forall>i x. logged s x i \<longrightarrow> log_home s (log_dev s) x) \<and>
     (\<forall>i j x. logged s x i \<and> logged s x j \<longrightarrow> i = j) \<and>
     pinned s = {(log_dev s, x) | x i. logged s x i} \<and>
     (\<forall>x i. logged s x i \<and> (\<forall>b. \<not> held s b (log_dev s) x) \<longrightarrow>
        disk s (log_dev s) (log_block s i) = bview s (log_dev s) x) \<and>
     (\<forall>b d x. held s b d x \<longrightarrow> log_home s d x) \<and>
     head_n (disk s (log_dev s) (log_start s)) \<le> 0 \<and> (lh_n s = 0 \<longrightarrow> settled s = dwrites s)"

definition lrest :: "'a log_scheme \<Rightarrow> bool \<times> uint \<times> int \<times> uint \<times> bool \<times> bool \<times> dmap \<times> 'a \<times> dmap \<times>
    (uint \<times> uint \<times> bytes) list" where
  \<comment> \<open>what a transaction does not touch before it commits: among others every sector on the disk
     outside the log's data blocks\<close>
  "lrest s = (log_busy s, log_start s, log_size s, log_dev s, havedisk1 s, havedisk2 s, image s, log.more s,
     (\<lambda>d x. if log_area s d x then zero_bytes else disk s d x),
     settled s)"


lemma linvD:
  assumes "linv s"
  shows linv_binv: "binv s" and linv_disks: "disks_present s" and linv_geom: "log_geom s"
    and linv_n: "0 \<le> lh_n s" "lh_n s \<le> int LOGSIZE" "lh_n s < log_size s"
    and linv_home: "logged s x i \<Longrightarrow> log_home s (log_dev s) x"
    and linv_inj: "logged s x i \<Longrightarrow> logged s x j \<Longrightarrow> i = j"
    and linv_pinned: "pinned s = {(log_dev s, x) | x i. logged s x i}"
    and linv_copy: "logged s x i \<Longrightarrow> (\<And>b. \<not> held s b (log_dev s) x) \<Longrightarrow>
          disk s (log_dev s) (log_block s i) = bview s (log_dev s) x"
    and linv_held: "held s b d x \<Longrightarrow> log_home s d x"
    and linv_head: "head_n (disk s (log_dev s) (log_start s)) \<le> 0"
    and linv_settled: "lh_n s = 0 \<Longrightarrow> settled s = dwrites s"
  using assms unfolding linv_def by blast+

lemma linvI:
  assumes "binv s" "disks_present s" "log_geom s" "0 \<le> lh_n s" "lh_n s \<le> int LOGSIZE" "lh_n s < log_size s"
    and "\<And>i x. logged s x i \<Longrightarrow> log_home s (log_dev s) x"
    and "\<And>i j x. logged s x i \<Longrightarrow> logged s x j \<Longrightarrow> i = j"
    and "pinned s = {(log_dev s, x) | x i. logged s x i}"
    and "\<And>x i. logged s x i \<Longrightarrow> (\<And>b. \<not> held s b (log_dev s) x) \<Longrightarrow>
          disk s (log_dev s) (log_block s i) = bview s (log_dev s) x"
    and "\<And>b d x. held s b d x \<Longrightarrow> log_home s d x"
    and "head_n (disk s (log_dev s) (log_start s)) \<le> 0" "lh_n s = 0 \<Longrightarrow> settled s = dwrites s"
  shows "linv s"
  unfolding linv_def using assms by blast

lemma logged_block: "linv s \<Longrightarrow> logged s x i \<Longrightarrow> int i + 1 < log_size s"
  using linv_n[of s] unfolding logged_def by linarith

lemma held_frame:
  assumes "locked s' = locked s" "\<forall>j\<in>locked s. bufs s' j = bufs s j"
  shows "held s' = held s"
proof (intro ext)
  fix i d x
  show "held s' i d x = held s i d x"
    using assms by (cases "i \<in> locked s") (auto simp: held_def is_sector_def locked_def)
qed

lemma disk_stored: "stored s s' d x v \<Longrightarrow> (e, y) \<noteq> (d, x) \<Longrightarrow> disk s' e y = disk s e y"
  by (auto simp: stored_def)

text \<open>The state \<open>log_write\<close> leaves: slot \<open>i\<close> of the log is the sector's, its log block holds the
  buffer's data, and the buffer is pinned.\<close>

definition log_wrote :: "'a log_scheme \<Rightarrow> 'a log_scheme \<Rightarrow> nat \<Rightarrow> bool" where
  "log_wrote s s' b \<longleftrightarrow> linv s' \<and> lview s' = lview s \<and> lusable s' = lusable s \<and> lrest s' = lrest s \<and>
     held s' = held s \<and> locked s' = locked s \<and> lsynced s' b \<and> lh_n s' \<le> lh_n s + 1 \<and>
     pinned s' = insert (b_dev (bufs s b), b_sector (bufs s b)) (pinned s) \<and>
     (\<forall>j d x. held s j d x \<longrightarrow> j \<noteq> b \<longrightarrow> lsynced s' j = lsynced s j)"

lemma log_write_post:
  assumes inv: "linv s" and h: "held s b (log_dev s) x" and n: "lh_n s < int LOGSIZE" "lh_n s < log_size s - 1"
    and i: "i = log_slot 0 (nat (lh_n s)) (lh_sector s) x"
    and s1: "s1 = s\<lparr>lh_sector := (lh_sector s)(i := x)\<rparr>"
    and st: "stored s1 s2 (log_dev s) (log_block s i) (bview s (log_dev s) x)"
    and lk: "locked s2 = locked s" and same: "\<forall>j\<in>locked s. bufs s2 j = bufs s j"
    and s3: "s3 = mark_dirty b (if int i = lh_n s then s2\<lparr>lh_n := lh_n s + 1\<rparr> else s2)"
  shows "log_wrote s s3 b"
proof -
  let ?d = "log_dev s" and ?l = "log_block s i"
  define s2' where "s2' = (if int i = lh_n s then s2\<lparr>lh_n := lh_n s + 1\<rparr> else s2)"
  have il: "i \<le> nat (lh_n s)" using log_slot_range[of 0 "nat (lh_n s)" "lh_sector s" x] i by simp
  then have isz: "int i + 1 < log_size s" using n linv_n[OF inv] by linarith
  have more: "bio.more s2 = bio.more s1" using st by (simp add: stored_def)
  note f2 = same_log[OF more] and g2 = same_log_geom[OF more]
  have b2: "binv s2'" "bview s2' = bview s2" "pinned s2' = pinned s2" "held s2' = held s" "locked s2' = locked s"
    using st lk held_frame[OF lk same] by (auto simp: s2'_def stored_def)
  have f2': "log_dev s2' = ?d" "log_start s2' = log_start s" "log_size s2' = log_size s" "log_busy s2' = log_busy s"
    "log.more s2' = log.more s" "lh_sector s2' = (lh_sector s)(i := x)" "disk s2' = disk s2" "bufs s2' = bufs s2"
    "dwrites s2' = dwrites s2" "image s2' = image s2" "havedisk1 s2' = havedisk1 s2" "havedisk2 s2' = havedisk2 s2"
    using f2 by (auto simp: s2'_def s1)
  have h2: "held s2' b ?d x" using h b2 by simp
  note md = mark_dirty[OF b2(1) h2]
  have s3': "s3 = mark_dirty b s2'" by (simp add: s3 s2'_def)
  have b3: "bufs s3 = (bufs s2)(b := (bufs s2 b)\<lparr>b_dirty := True\<rparr>)"
    and fl: "log_dev s3 = ?d" "log_start s3 = log_start s" "log_size s3 = log_size s" "log_busy s3 = log_busy s"
    "log.more s3 = log.more s" "lh_sector s3 = (lh_sector s)(i := x)" "lh_n s3 = lh_n s2'"
    using f2' by (simp_all add: s3' mark_dirty_def set_buf_def)
  have dk: "disk s3 = dput ?d ?l (bview s ?d x) (disk s)"
    and wr: "dwrites s3 = (?d, ?l, bview s ?d x) # dwrites s" "image s3 = image s"
      "havedisk1 s3 = havedisk1 s" "havedisk2 s3 = havedisk2 s"
    using md(6) f2' st by (auto simp: same_disk_def s3' stored_def s1)
  have n3: "lh_n s3 = (if int i = lh_n s then lh_n s + 1 else lh_n s)"
    using f2 fl by (simp add: s2'_def s1)
  have geo: "log_geom s3 = log_geom s" "log_home s3 = log_home s" "log_area s3 = log_area s" "log_block s3 = log_block s"
    using fl by (simp_all add: fun_eq_iff log_geom_def log_home_def log_area_def log_block_def)
  have view: "bview s3 = dput ?d ?l (bview s ?d x) (bview s)"
    using md(2) b2(2) st by (simp add: s3' stored_def s1)
  have area: "log_area s ?d ?l" using log_block_area[OF linv_geom[OF inv] isz] .
  have xhome: "log_home s ?d x" using linv_held[OF inv h] .
  have log_iff: "logged s3 y j \<longleftrightarrow> logged s y j \<or> y = x \<and> j = i" for y j
  proof (cases "int i = lh_n s")
    case True
    then show ?thesis using n3 fl by (auto simp: logged_def)
  next
    case False
    then have "i < nat (lh_n s)" using il linv_n[OF inv] by linarith
    moreover from this have "lh_sector s i = x"
      using log_slot_found[of 0 "nat (lh_n s)" "lh_sector s" x] i by simp
    ultimately show ?thesis using n3 fl False by (auto simp: logged_def)
  qed
  have slot: "j = i" if "logged s x j" for j
  proof (rule ccontr)
    assume "j \<noteq> i"
    show False
    proof (cases "i = nat (lh_n s)")
      case True
      then show False
        using that log_slot_end[of 0 "nat (lh_n s)" "lh_sector s" x j] i by (simp add: logged_def)
    next
      case False
      then have "logged s x i"
        using il log_slot_found[of 0 "nat (lh_n s)" "lh_sector s" x] i by (simp add: logged_def)
      then show False using linv_inj[OF inv that] \<open>j \<noteq> i\<close> by blast
    qed
  qed
  have held3: "held s3 = held s" using md(4) b2(4) s3' by simp
  have lne: "log_block s j \<noteq> ?l" if "logged s y j" "y \<noteq> x" for y j
    using log_block_inj[OF linv_geom[OF inv] logged_block[OF inv that(1)] isz] slot that
    by (auto simp: logged_def i dest: log_slot_found) (metis add_0 i il le_neq_implies_less log_slot_found)
  have "(?d, ?l) \<notin> pinned s"
    using area linv_home[OF inv] linv_pinned[OF inv] by (auto simp: log_home_def)
  then have pin3: "pinned s3 = insert (?d, x) (pinned s)"
    using md(3) b2(3) st by (auto simp: s3' stored_def s1)
  have linv3: "linv s3"
  proof (rule linvI)
    show "binv s3" "disks_present s3" "log_geom s3"
      using md(1) wr geo linv_disks[OF inv] linv_geom[OF inv] by (auto simp: s3' disks_present_def)
    show "0 \<le> lh_n s3" "lh_n s3 \<le> int LOGSIZE" "lh_n s3 < log_size s3"
      using n n3 linv_n[OF inv] fl by auto
    show "log_home s3 (log_dev s3) y" if "logged s3 y j" for y j
      using that xhome linv_home[OF inv] geo fl by (auto simp: log_iff)
    show "j = k" if "logged s3 y j" "logged s3 y k" for y j k
      using that linv_inj[OF inv] slot by (auto simp: log_iff)
    show "pinned s3 = {(log_dev s3, x) | x i. logged s3 x i}"
      using pin3 linv_pinned[OF inv] fl by (auto simp: log_iff)
    show "disk s3 (log_dev s3) (log_block s3 j) = bview s3 (log_dev s3) y"
      if j: "logged s3 y j" and free: "\<And>c. \<not> held s3 c (log_dev s3) y" for y j
    proof -
      have yx: "y \<noteq> x" using free[of b] h held3 fl by auto
      with j have j': "logged s y j" by (auto simp: log_iff)
      have "y \<noteq> ?l" using area linv_home[OF inv j'] by (auto simp: log_home_def)
      then show ?thesis
        using linv_copy[OF inv j'] free held3 fl geo lne[OF j' yx] by (simp add: dk view)
    qed
    show "log_home s3 e y" if "held s3 c e y" for c e y
      using that linv_held[OF inv] held3 geo by simp
    show "head_n (disk s3 (log_dev s3) (log_start s3)) \<le> 0"
      using linv_head[OF inv] log_start_not_block[OF linv_geom[OF inv] isz] fl by (simp add: dk)
    show "settled s3 = dwrites s3" if "lh_n s3 = 0"
      using that n3 il linv_n[OF inv] by (auto split: if_splits)
  qed
  have data: "b_data (bufs s2 b) = bview s ?d x"
  proof -
    have "b \<in> locked s" using h by (auto simp: locked_def held_def)
    then have "bufs s2 b = bufs s b" using same by blast
    then show ?thesis using bdata_held[OF linv_binv[OF inv] h] by (simp add: bdata_def kget_def)
  qed
  have id: "b_dev (bufs s2 b) = ?d" "b_sector (bufs s2 b) = x"
    using h2 f2' by (auto simp: held_def is_sector_def)
  have "lsynced s3 b"
    using data id fl geo by (auto simp: lsynced_def b3 log_iff dk)
  moreover have "lsynced s3 j = lsynced s j" if j: "held s j e y" and jb: "j \<noteq> b" for j e y
  proof -
    have "j \<in> locked s" using j by (auto simp: locked_def held_def)
    then have bj: "bufs s3 j = bufs s j" using b3 same jb by simp
    have ej: "b_dev (bufs s j) = e" "b_sector (bufs s j) = y" using j by (auto simp: held_def is_sector_def)
    have "e \<noteq> ?d \<or> y \<noteq> x"
      using binv_unique[OF linv_binv[OF inv], of j b e y] binv_busy[OF linv_binv[OF inv], of j] j h jb
      by (auto simp: held_def is_sector_def)
    moreover have "(e, y) \<noteq> (?d, ?l)" using linv_held[OF inv j] area by (auto simp: log_home_def)
    ultimately show ?thesis
      using bj ej fl geo lne[of y] by (auto simp: lsynced_def log_iff dk dput_def)
  qed
  moreover have "lview s3 = lview s" using area geo view by (auto simp: lview_def fun_eq_iff dput_def)
  moreover have "lusable s3 = lusable s" using fl geo by (simp add: lusable_def fun_eq_iff)
  moreover have "lrest s3 = lrest s"
    using area geo fl wr by (auto simp: lrest_def settled_def dk fun_eq_iff dput_def)
  moreover have "locked s3 = locked s" using md(5) b2(5) s3' by simp
  moreover have "b_dev (bufs s b) = ?d" "b_sector (bufs s b) = x" using h by (auto simp: held_def is_sector_def)
  ultimately show ?thesis
    using linv3 held3 n3 pin3 by (auto simp: log_wrote_def)
qed

lemma wp_log_write:
  assumes inv: "linv s" and h: "held s b (log_dev s) x"
    and n: "lh_n s < int LOGSIZE" "lh_n s < log_size s - 1" and busy: "log_busy s"
    and av: "bavail s (log_dev s) (log_block s (log_slot 0 (nat (lh_n s)) (lh_sector s) x))"
    and k: "\<And>s'. log_wrote s s' b \<Longrightarrow> Q () s'"
  shows "wp (log_write b) Q s"
proof -
  let ?d = "log_dev s"
  define i where "i = log_slot 0 (nat (lh_n s)) (lh_sector s) x"
  define s1 where "s1 = s\<lparr>lh_sector := (lh_sector s)(i := x)\<rparr>"
  have b: "b_dev (bufs s b) = ?d" "b_sector (bufs s b) = x" using h by (auto simp: held_def is_sector_def)
  have "i \<le> nat (lh_n s)" using log_slot_range[of 0 "nat (lh_n s)" "lh_sector s" x] by (simp add: i_def)
  then have "int i + 1 < log_size s" using n linv_n[OF inv] by linarith
  then have ne: "log_block s i \<noteq> x"
    using log_home_block[OF linv_geom[OF inv] _ linv_held[OF inv h]] by simp
  have "wp (kbind (bread ?d (log_block s i)) (\<lambda>l. kbind (bdata b) (\<lambda>v. kbind (bput l v) (\<lambda>_. kbind (bwrite l) (\<lambda>_.
      kbind (brelse l) (\<lambda>_. kbind (kwhen (int i = lh_n s) (kmod (\<lambda>s. s\<lparr>lh_n := lh_n s + 1\<rparr>))) (\<lambda>_.
       kmod (mark_dirty b)))))))) Q s1"
  proof (rule wp_log_copy)
    show "binv s1" "held s1 b ?d x" "log_block s i \<noteq> x" "bavail s1 ?d (log_block s i)"
      using linv_binv[OF inv] h ne av by (simp_all add: s1_def i_def)
    fix s2
    assume st: "stored s1 s2 ?d (log_block s i) (bview s1 ?d x)" and lk: "locked s2 = locked s1"
      and same: "\<forall>j\<in>locked s1. bufs s2 j = bufs s1 j"
    have n2: "lh_n s2 = lh_n s" using st same_log(5)[of s2 s1] by (simp add: stored_def s1_def)
    have "log_wrote s (mark_dirty b (if int i = lh_n s then s2\<lparr>lh_n := lh_n s + 1\<rparr> else s2)) b"
      using st lk same by (intro log_write_post[OF inv h n i_def s1_def _ _ _ refl]) (auto simp: s1_def)
    from k[OF this] show "wp (kbind (kwhen (int i = lh_n s) (kmod (\<lambda>s. s\<lparr>lh_n := lh_n s + 1\<rparr>)))
        (\<lambda>_. kmod (mark_dirty b))) Q s2"
      using n2 by (cases "int i = lh_n s") (simp_all add: wp_kbind wp_kwhen wp_kmod)
  qed
  then show ?thesis
    using n busy b unfolding log_write_def i_def s1_def
    by (simp add: Let_def wp_kbind wp_kget wp_kmod)
qed

lemma log_write_spec:
  assumes inv: "linv s" and h: "held s b (log_dev s) x" and run: "log_write b s = Ret ((), s')"
  shows "log_wrote s s' b"
proof -
  let ?i = "log_slot 0 (nat (lh_n s)) (lh_sector s) x"
  let ?s = "s\<lparr>lh_sector := (lh_sector s)(?i := x)\<rparr>"
  have b: "b_dev (bufs s b) = log_dev s" "b_sector (bufs s b) = x" using h by (auto simp: held_def is_sector_def)
  have n: "lh_n s < int LOGSIZE" "lh_n s < log_size s - 1" "log_busy s"
    using run by (auto simp: log_write_def kbind_def kget_def kpanic_def split: if_splits)
  have "\<exists>l t. bread (log_dev s) (log_block s ?i) ?s = Ret (l, t)"
    using run n b by (auto simp: log_write_def Let_def kbind_def kget_def kmod_def split: if_splits outcome.splits)
  then have "bavail ?s (log_dev s) (log_block s ?i)"
    using bread_Ret_bavail[of ?s "log_dev s" "log_block s ?i"] linv_binv[OF inv] linv_disks[OF inv] linv_geom[OF inv]
    by (auto simp: log_geom_def)
  then have "wp (log_write b) (\<lambda>_ s'. log_wrote s s' b) s"
    using n by (intro wp_log_write[OF inv h]) auto
  then show ?thesis using run by (auto simp: wp_def)
qed

lemma linv_same_disk:
  \<comment> \<open>moving buffers between locked and unlocked, as long as the log copies stay up to date\<close>
  assumes inv: "linv s" and b: "binv s'" "bview s' = bview s" "pinned s' = pinned s" "same_disk s s'"
    and copy: "\<forall>x i. logged s x i \<longrightarrow> (\<forall>b. \<not> held s' b (log_dev s) x) \<longrightarrow>
          disk s (log_dev s) (log_block s i) = bview s (log_dev s) x"
    and hld: "\<forall>b d x. held s' b d x \<longrightarrow> log_home s d x"
  shows "linv s'" "lview s' = lview s" "lusable s' = lusable s" "lrest s' = lrest s" "logged s' = logged s"
proof -
  have more: "bio.more s' = bio.more s" using b(4) by (simp add: same_disk_def)
  note f = same_log[OF more] same_log_geom[OF more]
  show lg: "logged s' = logged s" using f by (simp add: logged_def fun_eq_iff)
  have sd: "disk s' = disk s" "disks_present s' = disks_present s" using b(4) by (auto simp: same_disk_def disks_present_def)
  show "linv s'"
    by (rule linvI) (use inv f lg sd b copy hld in \<open>auto dest: linvD simp: settled_def same_disk_def\<close>)
  show "lview s' = lview s" "lusable s' = lusable s" "lrest s' = lrest s"
    using f b sd by (simp_all add: lview_def lusable_def lrest_def settled_def fun_eq_iff same_disk_def)
qed

lemma no_lock_read:
  \<comment> \<open>\<open>bread\<close> returns only when no one holds the sector\<close>
  assumes "binv s" "d \<noteq> nodev" "bread d x s = Ret (i, s')"
  shows "\<not> held s b d x"
proof
  assume h: "held s b d x"
  note r = bread_spec[OF assms]
  have "b \<noteq> i" using h r by (auto simp: held_def)
  then have "held s' b d x" using h r by (auto simp: held_def is_sector_def)
  then show False using binv_unique[of s' b i d x] r \<open>b \<noteq> i\<close> assms(2) by (auto simp: held_def)
qed

lemma lsynced_frame:
  assumes "bufs s' j = bufs s j" "same_disk s s'"
  shows "lsynced s' j = lsynced s j"
proof -
  have more: "bio.more s' = bio.more s" using assms(2) by (simp add: same_disk_def)
  note f = same_log[OF more] same_log_geom[OF more]
  show ?thesis using assms f by (simp add: lsynced_def logged_def same_disk_def)
qed

lemma lsynced_synced: "lsynced s b \<Longrightarrow> synced s b"
  by (auto simp: lsynced_def synced_def split: if_splits)

lemma log_bread:
  assumes inv: "linv s" and us: "lusable s d x" and run: "bread d x s = Ret (i, s')"
  shows "linv s' \<and> lview s' = lview s \<and> lusable s' = lusable s \<and> lrest s' = lrest s \<and>
    held s' i d x \<and> lsynced s' i"
proof -
  have d: "d \<noteq> nodev" "d = log_dev s" using us linv_geom[OF inv] by (auto simp: lusable_def log_geom_def)
  note r = bread_spec[OF linv_binv[OF inv] d(1) run]
  have oh: "held s' b e y \<longleftrightarrow> held s b e y \<or> b = i \<and> e = d \<and> y = x" for b e y
    using r by (cases "b = i") (auto simp: held_def is_sector_def)
  have b: "binv s'" "bview s' = bview s" "pinned s' = pinned s" "same_disk s s'" using r by auto
  have copy: "disk s (log_dev s) (log_block s k) = bview s (log_dev s) y"
    if "logged s y k" "\<And>b. \<not> held s' b (log_dev s) y" for y k
    using linv_copy[OF inv that(1)] that(2) oh by blast
  have hm: "log_home s e y" if "held s' c e y" for c e y
    using that us linv_held[OF inv] by (auto simp: oh lusable_def)
  have l: "linv s'" "lview s' = lview s" "lusable s' = lusable s" "lrest s' = lrest s" "logged s' = logged s"
    by (rule linv_same_disk[OF inv b]; use copy hm in blast)+
  have more: "bio.more s' = bio.more s" using b(4) by (simp add: same_disk_def)
  note f = same_log[OF more] same_log_geom[OF more]
  have id: "b_dev (bufs s' i) = d" "b_sector (bufs s' i) = x" "i < NBUF" using r by (auto simp: held_def is_sector_def)
  have "lsynced s' i"
  proof (cases "b_dirty (bufs s' i)")
    case True
    then have "(d, x) \<in> pinned s'" using id by (auto simp: pinned_def)
    then have "(d, x) \<in> pinned s" using b(3) by simp
    then obtain k where k: "logged s x k" using linv_pinned[OF inv] d by auto
    have "disk s d (log_block s k) = bview s d x"
      using linv_copy[OF inv k] no_lock_read[OF linv_binv[OF inv] d(1) run] d(2) by blast
    then show ?thesis using True k id r d f l(5) b(4) by (auto simp: lsynced_def same_disk_def)
  next
    case False
    then show ?thesis using synced_bread[OF linv_binv[OF inv] d(1) run] by (auto simp: lsynced_def synced_def)
  qed
  with l r show ?thesis by blast
qed

lemma log_bput:
  assumes inv: "linv s" and us: "lusable s d x" and h: "held s i d x"
  shows "linv (set_data i v s) \<and> lview (set_data i v s) = dput d x v (lview s) \<and>
    lusable (set_data i v s) = lusable s \<and> lrest (set_data i v s) = lrest s \<and> held (set_data i v s) = held s"
proof -
  let ?t = "set_data i v s"
  note r = bput_spec[OF linv_binv[OF inv] h, of v]
  have more: "bio.more ?t = bio.more s" using r(6) by (simp add: same_disk_def)
  note f = same_log[OF more] same_log_geom[OF more]
  have d: "d = log_dev s" "\<not> log_area s d x" using us by (auto simp: lusable_def log_home_def)
  have hh: "held ?t = held s" by (auto simp: fun_eq_iff held_def is_sector_def set_data_def)
  have lg: "logged ?t = logged s" using f by (simp add: logged_def fun_eq_iff)
  have sd: "disk ?t = disk s" "disks_present ?t = disks_present s" using r(6) by (auto simp: same_disk_def disks_present_def)
  have copy: "disk ?t (log_dev ?t) (log_block ?t k) = bview ?t (log_dev ?t) y"
    if k: "logged ?t y k" and n: "\<And>b. \<not> held ?t b (log_dev ?t) y" for y k
  proof -
    have "y \<noteq> x" using n h hh f d by auto
    then show ?thesis using linv_copy[OF inv, of y k] k n lg hh f sd r(4) d by simp
  qed
  have "linv ?t"
    by (rule linvI[OF r(2) _ _ _ _ _ _ _ _ copy]) (use inv f lg sd r(5,6) hh in \<open>auto dest: linvD simp: settled_def same_disk_def\<close>)
  moreover have "lview ?t = dput d x v (lview s)" "lusable ?t = lusable s" "lrest ?t = lrest s"
    using f r sd d by (auto simp: lview_def lusable_def lrest_def settled_def fun_eq_iff same_disk_def dput_def)
  ultimately show ?thesis using hh by blast
qed

lemma log_brelse:
  assumes inv: "linv s" and h: "held s i d x" and sy: "lsynced s i" and run: "brelse i s = Ret ((), s')"
  shows "linv s' \<and> lview s' = lview s \<and> lusable s' = lusable s \<and> lrest s' = lrest s"
proof -
  have r: "binv s'" "bview s' = bview s" "pinned s' = pinned s" "same_disk s s'" "\<not> b_busy (bufs s' i)"
    "\<forall>j. j \<noteq> i \<longrightarrow> bufs s' j = bufs s j"
    using brelse_spec[OF linv_binv[OF inv] h lsynced_synced[OF sy]] run by auto
  have oh: "held s' b e y \<longleftrightarrow> held s b e y \<and> b \<noteq> i" for b e y
    using r(5,6) by (cases "b = i") (auto simp: held_def is_sector_def)
  have id: "b_dev (bufs s i) = d" "b_sector (bufs s i) = x" "i < NBUF" using h by (auto simp: held_def is_sector_def)
  have dat: "b_data (bufs s i) = bview s d x"
    using bdata_held[OF linv_binv[OF inv] h] by (simp add: bdata_def kget_def)
  have copy: "disk s (log_dev s) (log_block s k) = bview s (log_dev s) y"
    if k: "logged s y k" and n: "\<And>b. \<not> held s' b (log_dev s) y" for y k
  proof (cases "d = log_dev s \<and> y = x")
    case True
    then have "(d, x) \<in> pinned s" using k linv_pinned[OF inv] by auto
    then obtain j where j: "j < NBUF" "is_sector s d x j" "b_dirty (bufs s j)"
      by (auto simp: pinned_def is_sector_def)
    then have "j = i"
      using binv_unique[OF linv_binv[OF inv] j(1) id(3) j(2)] linv_geom[OF inv] True id
      by (auto simp: log_geom_def is_sector_def)
    then obtain m where "logged s x m" "disk s (log_dev s) (log_block s m) = bview s d x"
      using sy j id dat by (auto simp: lsynced_def)
    then show ?thesis using linv_inj[OF inv, of x m k] k True by auto
  next
    case False
    then have "\<not> held s i (log_dev s) y" using id by (auto simp: held_def is_sector_def)
    then have "\<not> held s b (log_dev s) y" for b using n[of b] oh by blast
    then show ?thesis using linv_copy[OF inv k] by blast
  qed
  have hm: "log_home s e y" if "held s' c e y" for c e y
    using that linv_held[OF inv] by (auto simp: oh)
  have "linv s'" "lview s' = lview s" "lusable s' = lusable s" "lrest s' = lrest s"
    by (rule linv_same_disk[OF inv r(1-4)]; use copy hm in blast)+
  then show ?thesis by blast
qed

interpretation logc: sector_cache linv lview lusable held lsynced lrest bread bdata bput log_write brelse
proof (unfold_locales, goal_cases)
  case (1 s d x i s')
  have d: "d \<noteq> nodev" using 1(2) linv_geom[OF 1(1)] by (auto simp: lusable_def log_geom_def)
  note r = bread_spec[OF linv_binv[OF 1(1)] d 1(3)]
  have "\<not> held s i e y" for e y using r by (auto simp: held_def)
  moreover have "held s' j = held s j \<and> lsynced s' j = lsynced s j" if "j \<noteq> i" for j
    using r that lsynced_frame[of s' j s] by (auto simp: fun_eq_iff held_def is_sector_def)
  ultimately show ?case using log_bread[OF 1] by blast
next
  case (2 s i d x)
  then have "\<not> log_area s d x" using linv_held by (auto simp: log_home_def)
  then show ?case using bdata_held[OF linv_binv[OF 2(1)] 2(2)] by (simp add: lview_def)
next
  case (3 s i d x e y)
  then show ?case by (auto simp: held_def is_sector_def)
next
  case (4 s d x i v s')
  then have s': "s' = set_data i v s" by (simp add: bput_def kmod_def)
  have "lsynced s' j = lsynced s j" if "j \<noteq> i" for j
    using that s' by (intro lsynced_frame) (auto simp: set_data_def same_disk_def)
  then show ?case using log_bput[OF 4(1-3), of v] s' by blast
next
  case (5 s d x i s')
  then have "held s i (log_dev s) x" by (auto simp: lusable_def)
  then show ?case using log_write_spec[OF 5(1) _ 5(4)] by (auto simp: log_wrote_def)
next
  case (6 s i d x s')
  have r: "same_disk s s'" "\<not> b_busy (bufs s' i)" "\<forall>j. j \<noteq> i \<longrightarrow> bufs s' j = bufs s j"
    using brelse_spec[OF linv_binv[OF 6(1)] 6(2) lsynced_synced[OF 6(3)]] 6(4) by auto
  then have "\<not> held s' i e y" for e y by (auto simp: held_def)
  moreover have "held s' j = held s j \<and> lsynced s' j = lsynced s j" if "j \<noteq> i" for j
    using r that lsynced_frame[of s' j s] by (auto simp: fun_eq_iff held_def is_sector_def)
  ultimately show ?case using log_brelse[OF 6] by blast
qed

section \<open>Commit, crash and recovery\<close>

text \<open>\<open>recovers s D V\<close>: recovery from the disks \<open>D\<close> produces the contents \<open>V\<close> outside the log.\<close>

definition recovers :: "'a log_scheme \<Rightarrow> dmap \<Rightarrow> dmap \<Rightarrow> bool" where
  "recovers s D V \<longleftrightarrow> log_sound s D \<and> (\<forall>d x. log_home s d x \<longrightarrow> replay (redo s D) D d x = V d x)"

lemma recovers_empty:
  assumes "log_geom s" "head_n (D (log_dev s) (log_start s)) \<le> 0" "\<And>d x. log_home s d x \<Longrightarrow> D d x = V d x"
  shows "recovers s D V"
  using assms by (auto simp: recovers_def log_sound_def redo_def Let_def log_geom_def)

lemma suffix_installs:
  assumes "suffix us (installs s n)"
  shows "\<exists>t\<le>n. us = installs s t"
proof -
  obtain k where "us = drop k (installs s n)" using assms by (metis suffix_take append_eq_conv_conj suffix_def)
  then have "us = installs s (n - k)"
    by (simp add: installs_def drop_rev take_map)
  then show ?thesis by (intro exI[of _ "n - k"]) simp
qed

lemma bview_unlogged:
  "linv s \<Longrightarrow> locked s = {} \<Longrightarrow> (\<And>i. d = log_dev s \<Longrightarrow> \<not> logged s x i) \<Longrightarrow> bview s d x = disk s d x"
  by (cases "d = nodev") (simp add: bview_def, auto simp: locked_empty linv_pinned intro!: bview_clean dest: linv_binv)

lemma log_block_unlogged:
  "linv s \<Longrightarrow> int i + 1 < log_size s \<Longrightarrow> \<not> logged s (log_block s i) j"
  using log_block_area[of s i] linv_geom[of s] linv_home[of s "log_block s i" j] by (auto simp: log_home_def)

lemma replay_installs_unlogged:
  assumes "t \<le> nat (lh_n s)" "\<And>i. d = log_dev s \<Longrightarrow> \<not> logged s x i"
  shows "replay (installs s t) D d x = D d x"
proof (rule replay_other)
  fix w
  assume "w \<in> set (installs s t)"
  then obtain i where i: "i < t" "w = (log_dev s, lh_sector s i, bview s (log_dev s) (log_block s i))"
    using set_installs by blast
  then have "logged s (lh_sector s i) i" using assms(1) by (simp add: logged_def)
  then show "(fst w, fst (snd w)) \<noteq> (d, x)" using assms(2)[of i] i by auto
qed

lemma replay_installs_view:
  assumes inv: "linv s" and un: "locked s = {}" and n: "n = nat (lh_n s)"
    and D: "(\<forall>i. d = log_dev s \<longrightarrow> \<not> logged s x i) \<Longrightarrow> D d x = disk s d x"
  shows "replay (installs s n) D d x = bview s d x"
proof (cases "d = log_dev s \<and> (\<exists>i. logged s x i)")
  case False
  then have "\<not> logged s x i" if "d = log_dev s" for i using that by blast
  then have "bview s d x = D d x" using bview_unlogged[OF inv un, of d x] D by auto
  moreover have "replay (installs s n) D d x = D d x"
    using False n by (intro replay_installs_unlogged) auto
  ultimately show ?thesis by simp
next
  case True
  then obtain i where i: "logged s x i" and d: "d = log_dev s" by blast
  have v: "bview s d (log_block s j) = bview s d x" if "logged s x j" for j
    using bview_unlogged[OF inv un log_block_unlogged[OF inv logged_block[OF inv that]]]
      linv_copy[OF inv that] un d by (auto simp: held_def locked_def)
  have "replay (installs s t) D d x = bview s d x" if "i < t" "t \<le> n" for t
    using that
  proof (induction t)
    case (Suc t)
    show ?case
    proof (cases "lh_sector s t = x")
      case True
      then have "logged s x t" using Suc.prems n by (simp add: logged_def)
      then show ?thesis using True d v[of t] by (simp add: installs_Suc)
    next
      case False
      then have "i < t" using i Suc.prems by (auto simp: logged_def less_Suc_eq)
      then show ?thesis using False Suc d by (simp add: installs_Suc)
    qed
  qed simp
  then show ?thesis using i n by (simp add: logged_def)
qed

text \<open>A crash during the writes of \<open>commit_trans\<close>: the header with the entries, the home blocks
  in order, the empty header.\<close>

lemma crash_commit:
  assumes inv: "linv s" and un: "locked s = {}" and n: "n = nat (lh_n s)"
    and H1: "head_n H1 = lh_n s" "\<And>i. i < n \<Longrightarrow> head_sector H1 i = lh_sector s i" and H0: "head_n H0 = 0"
    and us: "suffix us ((log_dev s, log_start s, H0) # installs s n @ [(log_dev s, log_start s, H1)])"
  shows "recovers s (replay us (disk s)) (disk s) \<or> recovers s (replay us (disk s)) (bview s)"
proof -
  let ?d = "log_dev s" and ?x = "log_start s"
  have nz: "int n < log_size s" using linv_n[OF inv] n by auto
  have home: "log_home s ?d (lh_sector s i)" if "i < n" for i
    using that n linv_home[OF inv, of "lh_sector s i" i] by (simp add: logged_def)
  have sx: "\<not> log_home s ?d ?x" by (simp add: log_home_def)
  have keepD: "replay (installs s t) D d x = D d x" if "t \<le> n" "\<not> log_home s d x" for t D d x
    using that home by (intro replay_installs_log) auto
  have base: "D d x = disk s d x"
    if "D = replay (installs s t) (dput ?d ?x H1 (disk s))" "t \<le> n" "log_home s d x"
      "\<And>i. d = ?d \<Longrightarrow> \<not> logged s x i" for D t d x
  proof -
    have "replay (installs s t) (dput ?d ?x H1 (disk s)) d x = dput ?d ?x H1 (disk s) d x"
      using that(2,4) n by (intro replay_installs_unlogged) auto
    then show ?thesis using that(1,3) by (auto simp: log_home_def)
  qed
  consider "us = []" | t where "t \<le> n" "us = installs s t @ [(?d, ?x, H1)]"
    | "us = (?d, ?x, H0) # installs s n @ [(?d, ?x, H1)]"
  proof (cases us rule: rev_cases)
    case (snoc vs v)
    obtain ps where "((?d, ?x, H0) # installs s n) @ [(?d, ?x, H1)] = (ps @ vs) @ [v]"
      using us snoc by (auto simp: suffix_def)
    then have "v = (?d, ?x, H1)" "suffix vs ((?d, ?x, H0) # installs s n)"
      unfolding append1_eq_conv suffix_def by auto
    then show ?thesis using snoc suffix_installs[of vs s n] that by (auto simp: suffix_Cons)
  qed (use that in auto)
  then show ?thesis
  proof cases
    case 1
    then show ?thesis using recovers_empty[OF linv_geom[OF inv], of "disk s"] linv_head[OF inv] by simp
  next
    case (2 t)
    let ?D = "replay us (disk s)"
    have D: "?D = replay (installs s t) (dput ?d ?x H1 (disk s))" using 2 by (simp add: replay_append)
    have hd: "?D ?d ?x = H1" using keepD[OF 2(1) sx] by (simp add: D)
    have blk: "?D ?d (log_block s i) = bview s ?d (log_block s i)" if "i < n" for i
    proof -
      have i: "int i + 1 < log_size s" using that nz by linarith
      have "\<not> log_home s ?d (log_block s i)" using log_block_area[OF linv_geom[OF inv] i] by (simp add: log_home_def)
      then show ?thesis
        using keepD[OF 2(1)] log_start_not_block[OF linv_geom[OF inv] i]
          bview_unlogged[OF inv un log_block_unlogged[OF inv i], of ?d] by (simp add: D)
    qed
    have "redo s ?D = installs s n"
      using hd blk H1 n by (auto simp: redo_def installs_def Let_def)
    moreover have "replay (installs s n) ?D d x = bview s d x" if "log_home s d x" for d x
      by (rule replay_installs_view[OF inv un n]) (use base[OF D 2(1) that] in blast)
    moreover have "log_sound s ?D" using hd H1 home n linv_n[OF inv] by (simp add: log_sound_def)
    ultimately have "recovers s ?D (bview s)" by (simp add: recovers_def)
    then show ?thesis by blast
  next
    case 3
    let ?D = "replay us (disk s)"
    have D: "?D = dput ?d ?x H0 (replay (installs s n) (dput ?d ?x H1 (disk s)))"
      using 3 by (simp add: replay_append)
    have "?D d x = bview s d x" if "log_home s d x" for d x
      using that D replay_installs_view[OF inv un n, of d x "dput ?d ?x H1 (disk s)"]
      by (auto simp: log_home_def)
    then show ?thesis
      using H0 D by (intro disjI2 recovers_empty[OF linv_geom[OF inv]]) simp_all
  qed
qed

lemma linv_pinned_le:
  assumes inv: "linv s"
  shows "card (pinned s) \<le> nat (lh_n s)"
proof -
  have "pinned s \<subseteq> (\<lambda>i. (log_dev s, lh_sector s i)) ` {..<nat (lh_n s)}"
    using linv_pinned[OF inv] by (auto simp: logged_def)
  then have "card (pinned s) \<le> card ((\<lambda>i. (log_dev s, lh_sector s i)) ` {..<nat (lh_n s)})"
    by (intro card_mono) auto
  also have "\<dots> \<le> nat (lh_n s)"
    using card_image_le[of "{..<nat (lh_n s)}" "\<lambda>i. (log_dev s, lh_sector s i)"] by simp
  finally show ?thesis .
qed

lemma linv_pinned_card: "linv s \<Longrightarrow> card (pinned s) < NBUF"
  using linv_pinned_le[of s] linv_n[of s] linv_geom[of s] by (auto simp: NBUF_def LOGSIZE_def log_geom_def)

text \<open>Inside a transaction the log holds back the pinned sectors. It has room for one sector fewer
  than the log has, and \<open>log_write\<close> itself needs a buffer for the log block.\<close>

definition log_room :: "'a log_scheme \<Rightarrow> nat" where
  "log_room s = (if log_busy s then nat (log_size s - 1) else 0)"

lemma linv_pinned_eq:
  assumes inv: "linv s"
  shows "card (pinned s) = nat (lh_n s)"
proof -
  have "pinned s = (\<lambda>i. (log_dev s, lh_sector s i)) ` {..<nat (lh_n s)}"
    using linv_pinned[OF inv] by (auto simp: logged_def)
  moreover have "inj_on (\<lambda>i. (log_dev s, lh_sector s i)) {..<nat (lh_n s)}"
    using linv_inj[OF inv] by (auto simp: inj_on_def logged_def)
  ultimately show ?thesis by (simp add: card_image)
qed

lemma log_room_rest: "lrest s' = lrest s \<Longrightarrow> log_room s' = log_room s"
  by (simp add: lrest_def log_room_def)

interpretation logs: sector_store linv lview lusable held lsynced lrest bread bdata bput log_write brelse
  pinned "\<lambda>s. card (locked s)" NBUF log_room
proof (unfold_locales, goal_cases)
  case (1 s)
  show ?case by simp
next
  case (2 s d x)
  have "bavail s d x"
    using 2 by (intro bavailI linv_binv linv_disks) (auto simp: held_def locked_def)
  then show ?case using bread_returns[OF linv_binv[OF 2(1)]] by blast
next
  case (3 s d x i s')
  have d: "d \<noteq> nodev" using 3(2) linv_geom[OF 3(1)] by (auto simp: lusable_def log_geom_def)
  note r = bread_spec[OF linv_binv[OF 3(1)] d 3(3)]
  have "locked s' = insert i (locked s)" "i \<notin> locked s" using r by (auto simp: locked_def held_def)
  then show ?case using r log_room_rest[of s' s] log_bread[OF 3] by auto
next
  case (4 s d x i v)
  note p = bput_spec[OF linv_binv[OF 4(1)] 4(3), of v]
  have "bput i v s = Ret ((), set_data i v s)" by (simp add: bput_def kmod_def)
  moreover have "locked (set_data i v s) = locked s" by (auto simp: locked_def set_data_def)
  ultimately show ?case using p log_room_rest[of "set_data i v s" s] log_bput[OF 4(1-3), of v] by auto
next
  case (5 s d x i)
  then have h: "held s i (log_dev s) x" by (auto simp: lusable_def)
  have busy: "log_busy s" and n: "lh_n s < log_size s - 1" "lh_n s < int LOGSIZE"
    using 5(4) linv_pinned_eq[OF 5(1)] linv_geom[OF 5(1)] linv_n[OF 5(1)]
    by (auto simp: log_room_def log_geom_def split: if_splits)
  let ?i = "log_slot 0 (nat (lh_n s)) (lh_sector s) x"
  have "?i \<le> nat (lh_n s)" using log_slot_range[of 0] by simp
  then have "int ?i + 1 < log_size s" using n linv_n[OF 5(1)] by linarith
  then have area: "log_area s (log_dev s) (log_block s ?i)" by (rule log_block_area[OF linv_geom[OF 5(1)]])
  have "bavail s (log_dev s) (log_block s ?i)"
    using 5 area linv_held[OF 5(1)]
    by (intro bavailI linv_binv linv_disks) (auto simp: held_def locked_def log_home_def)
  then have "wp (log_write i) (\<lambda>_ _. True) s"
    by (intro wp_log_write[OF 5(1) h n(2,1) busy]) auto
  then show ?case by (auto simp: wp_Ret)
next
  case (6 s d x i s')
  then have "held s i (log_dev s) x" "b_dev (bufs s i) = d" "b_sector (bufs s i) = x"
    by (auto simp: lusable_def held_def is_sector_def)
  then show ?case using log_write_spec[OF 6(1) _ 6(4)] log_room_rest[of s' s] by (auto simp: log_wrote_def)
next
  case (7 s i d x)
  have "wp (brelse i) (\<lambda>_ s'. gave s s' i) s"
    using 7 by (intro wp_brelse[OF linv_binv _ lsynced_synced]) auto
  then obtain s' where r: "brelse i s = Ret ((), s')" and g: "gave s s' i" by (auto simp: wp_Ret)
  have "i \<in> locked s" using 7 by (auto simp: held_def locked_def)
  then have "Suc (card (locked s')) = card (locked s)"
    using g card_Suc_Diff1[of "locked s" i] by (simp add: gave_def)
  then show ?case using r g log_room_rest[of s' s] log_brelse[OF 7 r] by (auto simp: gave_def)
qed

lemma installs_cong:
  assumes "bio.more s' = bio.more s" "\<And>i. i < n \<Longrightarrow> bview s' (log_dev s) (log_block s i) = bview s (log_dev s) (log_block s i)"
  shows "installs s' n = installs s n"
  using same_log[OF assms(1)] same_log_geom[OF assms(1)] assms(2) by (simp add: installs_def)

lemma wp_commit_trans:
  assumes inv: "linv s" and un: "locked s = {}"
    and k: "\<And>s' ws. log_clear s' \<Longrightarrow> log_fixed s s' \<Longrightarrow> \<not> log_busy s' \<Longrightarrow>
        (\<And>d x. log_home s d x \<Longrightarrow> bview s' d x = bview s d x) \<Longrightarrow> dwrites s' = ws @ dwrites s \<Longrightarrow>
        (\<And>us. suffix us ws \<Longrightarrow> recovers s (replay us (disk s)) (disk s) \<or> recovers s (replay us (disk s)) (bview s)) \<Longrightarrow>
        (\<And>d x v. (d, x, v) \<in> set ws \<Longrightarrow> log_home s d x \<Longrightarrow> v = bview s d x) \<Longrightarrow> Q () s'"
  shows "wp commit_trans Q s"
proof (cases "0 < lh_n s")
  case False
  then have n: "lh_n s = 0" using linv_n[OF inv] by simp
  then have "pinned s = {}" using linv_pinned[OF inv] by (simp add: logged_def)
  then have "log_clear (s\<lparr>log_busy := False\<rparr>)"
    using n un linv_binv[OF inv] linv_disks[OF inv] linv_geom[OF inv] linv_head[OF inv] linv_settled[OF inv n]
    by (simp add: log_clear_def settled_def)
  moreover have "log_fixed s (s\<lparr>log_busy := False\<rparr>)" by (simp add: log_fixed_def)
  ultimately have "Q () (s\<lparr>log_busy := False\<rparr>)"
    using recovers_empty[OF linv_geom[OF inv], of "disk s"] linv_head[OF inv] by (intro k[where ws = "[]"]) auto
  then show ?thesis using n by (simp add: commit_trans_def wp_kbind wp_kget wp_kwhen wp_kmod)
next
  case True
  let ?d = "log_dev s" and ?x = "log_start s" and ?n = "nat (lh_n s)"
  let ?H1 = "head_bytes (lh_n s) (lh_sector s) (bview s ?d ?x)"
  have home: "log_home s ?d (lh_sector s i)" if "i < ?n" for i
    using that linv_home[OF inv, of "lh_sector s i" i] by (simp add: logged_def)
  have pin: "(?d, ?x) \<notin> pinned s" using linv_pinned[OF inv] linv_home[OF inv] by (auto simp: log_home_def)
  have "wp write_head (\<lambda>_. wp install_trans (\<lambda>_. wp (kbind (kmod (\<lambda>s. s\<lparr>lh_n := 0\<rparr>)) (\<lambda>_. write_head))
      (\<lambda>_. wp (kmod (\<lambda>s. s\<lparr>log_busy := False\<rparr>)) Q))) s"
  proof (rule wp_write_head[OF linv_binv[OF inv] un linv_disks[OF inv] linv_geom[OF inv] linv_pinned_card[OF inv]])
    fix s1
    assume st: "stored s s1 ?d ?x ?H1" and un1: "locked s1 = {}"
    have more1: "bio.more s1 = bio.more s" using st by (simp add: stored_def)
    note f1 = same_log[OF more1] same_log_geom[OF more1]
    have p1: "pinned s1 = pinned s" using st pin by (simp add: stored_def)
    have inst: "installs s1 ?n = installs s ?n"
    proof (rule installs_cong[OF more1])
      fix i assume "i < ?n"
      then have "int i + 1 < log_size s" using linv_n[OF inv] by linarith
      then show "bview s1 ?d (log_block s i) = bview s ?d (log_block s i)"
        using st log_start_not_block[OF linv_geom[OF inv]] by (simp add: stored_def)
    qed
    show "wp install_trans (\<lambda>_. wp (kbind (kmod (\<lambda>s. s\<lparr>lh_n := 0\<rparr>)) (\<lambda>_. write_head))
        (\<lambda>_. wp (kmod (\<lambda>s. s\<lparr>log_busy := False\<rparr>)) Q)) s1"
    proof (rule wp_install_trans[OF _ un1, where n = ?n])
      show "binv s1" "disks_present s1" "log_geom s1" "card (pinned s1) < NBUF" "?n = nat (lh_n s1)"
        "int ?n < log_size s1"
        using st f1 p1 linv_disks[OF inv] linv_geom[OF inv] linv_pinned_card[OF inv] linv_n[OF inv]
        by (auto simp: stored_def disks_present_def)
      show "log_home s1 (log_dev s1) (lh_sector s1 i)" if "i < ?n" for i using home[OF that] f1 by simp
      have "lh_sector s i \<noteq> lh_sector s j" if "i < ?n" "j < ?n" "i \<noteq> j" for i j
        using that linv_inj[OF inv, of "lh_sector s i" i j] by (auto simp: logged_def)
      moreover have "(?d, lh_sector s i) \<in> pinned s" if "i < ?n" for i
        using that linv_pinned[OF inv] by (auto simp: logged_def)
      ultimately show "(\<forall>i<?n. \<forall>j<?n. i \<noteq> j \<longrightarrow> lh_sector s1 i \<noteq> lh_sector s1 j) \<and>
          (\<forall>i<?n. (log_dev s1, lh_sector s1 i) \<in> pinned s1) \<or> Suc (card (pinned s1)) < NBUF"
        using f1 p1 by simp
      fix s2
      assume q: "quiet s1 s2" and v2: "bview s2 = replay (installs s1 ?n) (bview s1)"
        and w2: "dwrites s2 = installs s1 ?n @ dwrites s1"
        and p2: "pinned s2 = pinned s1 - {(log_dev s1, lh_sector s1 i) |i. i < ?n}"
      note f2 = log_fixed_trans[OF stored_fixed[OF st] quiet_fixed[OF q]]
      note g2 = log_fixed_geom[OF f2]
      have "pinned s2 = {}" unfolding p2 p1 f1 linv_pinned[OF inv] logged_def by blast
      show "wp (kbind (kmod (\<lambda>s. s\<lparr>lh_n := 0\<rparr>)) (\<lambda>_. write_head)) (\<lambda>_. wp (kmod (\<lambda>s. s\<lparr>log_busy := False\<rparr>)) Q) s2"
      proof (rule wp_clear_head)
        show "binv s2" "locked s2 = {}" "disks_present s2" "log_geom s2" "pinned s2 = {}"
          using q f2 g2 linv_disks[OF inv] linv_geom[OF inv] \<open>pinned s2 = {}\<close>
          by (auto simp: quiet_def disks_present_def log_fixed_def)
        fix s3
        assume c3: "log_clear s3" and f3: "log_fixed s2 s3"
          and v3: "\<forall>d x. (d, x) \<noteq> (log_dev s2, log_start s2) \<longrightarrow> bview s3 d x = bview s2 d x"
          and w3: "\<exists>H. head_n H = 0 \<and> dwrites s3 = (log_dev s2, log_start s2, H) # dwrites s2"
        obtain H0 where H0: "head_n H0 = 0" "dwrites s3 = (?d, ?x, H0) # dwrites s2"
          using w3 f2 by (auto simp: log_fixed_def)
        let ?ws = "(?d, ?x, H0) # installs s ?n @ [(?d, ?x, ?H1)]"
        have "log_clear (s3\<lparr>log_busy := False\<rparr>)" using c3 by (simp add: log_clear_def settled_def)
        moreover have "log_fixed s (s3\<lparr>log_busy := False\<rparr>)" using log_fixed_trans[OF f2 f3] by (simp add: log_fixed_def)
        moreover have "bview (s3\<lparr>log_busy := False\<rparr>) d x = bview s d x" if "log_home s d x" for d x
        proof -
          have "(d, x) \<noteq> (?d, ?x)" using that by (auto simp: log_home_def)
          moreover have "replay (installs s ?n) (bview s1) d x = bview s d x"
            using calculation st by (intro replay_installs_view[OF inv un refl]) (auto simp: stored_def bview_unlogged[OF inv un])
          ultimately show ?thesis using v3 v2 inst f2 by (auto simp: log_fixed_def)
        qed
        moreover have "dwrites (s3\<lparr>log_busy := False\<rparr>) = ?ws @ dwrites s"
          using H0 w2 inst st by (simp add: stored_def)
        moreover have "recovers s (replay us (disk s)) (disk s) \<or> recovers s (replay us (disk s)) (bview s)"
          if "suffix us ?ws" for us
        proof (rule crash_commit[OF inv un refl _ _ H0(1) that])
          show "head_n ?H1 = lh_n s" using linv_n[OF inv] by (simp add: head_n_bytes LOGSIZE_def)
        qed (rule head_sector_bytes)
        moreover have "v = bview s d x" if "(d, x, v) \<in> set ?ws" "log_home s d x" for d x v
        proof -
          from that obtain i where i: "i < ?n" "d = ?d" "x = lh_sector s i" "v = bview s ?d (log_block s i)"
            by (auto simp: log_home_def dest!: set_installs)
          then have lg: "logged s x i" by (simp add: logged_def)
          show ?thesis
            using bview_unlogged[OF inv un log_block_unlogged[OF inv logged_block[OF inv lg]]] linv_copy[OF inv lg] un i
            by (auto simp: held_def locked_def)
        qed
        ultimately have "Q () (s3\<lparr>log_busy := False\<rparr>)" by (intro k[where ws = ?ws]) auto
        then show "wp (kmod (\<lambda>s. s\<lparr>log_busy := False\<rparr>)) Q s3" by (simp add: wp_kmod)
      qed
    qed
  qed
  then show ?thesis using True by (simp add: commit_trans_def wp_kbind_fun wp_kget wp_kwhen)
qed

section \<open>Transactions\<close>

lemma replay_cases: "replay ws D d x = D d x \<or> (d, x, replay ws D d x) \<in> set ws"
proof (induction ws)
  case (Cons w ws)
  then show ?case by (cases w; cases "(fst w, fst (snd w)) = (d, x)") auto
qed simp

lemma clear_linv: "log_clear s \<Longrightarrow> linv (s\<lparr>log_busy := b\<rparr>)"
  by (rule linvI) (auto simp: log_clear_def logged_def held_def locked_def settled_def log_geom_def LOGSIZE_def)

lemma unlocked_held: "held s' = held s \<Longrightarrow> locked s = {} \<Longrightarrow> locked s' = {}"
  unfolding locked_def held_def fun_eq_iff is_sector_def by auto

text \<open>The states between \<open>begin_trans\<close> and \<open>commit_trans\<close>: only data blocks of the log have been
  written since the transaction began.\<close>

lemma open_writes:
  assumes clear: "log_clear s" and rest: "lrest s1 = lrest (s\<lparr>log_busy := True\<rparr>)"
  obtains ws where "dwrites s1 = ws @ dwrites s" "\<forall>w\<in>set ws. log_area s (fst w) (fst (snd w))"
proof
  let ?P = "\<lambda>w. log_area s (fst w) (fst (snd w))"
  have "log_area s1 = log_area s" using rest by (simp add: lrest_def log_area_def fun_eq_iff)
  moreover have "settled s1 = settled s" using rest by (simp add: lrest_def settled_def)
  ultimately have "dropWhile ?P (dwrites s1) = dwrites s"
    using clear by (simp add: log_clear_def settled_def)
  then show "dwrites s1 = takeWhile ?P (dwrites s1) @ dwrites s" 
    using takeWhile_dropWhile_id[of ?P "dwrites s1"] by simp
  show "\<forall>w\<in>set (takeWhile ?P (dwrites s1)). ?P w" using set_takeWhileD by fastforce
qed

lemma lrest_disk:
  assumes "lrest s1 = lrest (s\<lparr>log_busy := True\<rparr>)" "\<not> log_area s d x"
  shows "disk s1 d x = disk s d x"
proof -
  have "log_area s1 = log_area s" using assms(1) by (simp add: lrest_def log_area_def fun_eq_iff)
  moreover have e: "(\<lambda>d x. if log_area s1 d x then zero_bytes else disk s1 d x) =
      (\<lambda>d x. if log_area s d x then zero_bytes else disk (s\<lparr>log_busy := True\<rparr>) d x)"
    using assms(1) by (simp add: lrest_def)
  ultimately show ?thesis using assms(2) fun_cong[OF fun_cong[OF e, of d], of x] by simp
qed

lemma recovers_cong: "log_fixed s s' \<Longrightarrow> recovers s' = recovers s"
  using log_fixed_geom[of s s']
  by (simp add: fun_eq_iff recovers_def log_sound_def redo_def log_fixed_def)

definition crash_atomic :: "'a log_scheme \<Rightarrow> (uint \<times> uint \<times> bytes) list \<Rightarrow> dmap \<Rightarrow> dmap \<Rightarrow> bool" where
  \<comment> \<open>after any number of the writes \<open>ws\<close>, oldest first, the disks recover to \<open>V\<close> or to \<open>W\<close>, and
     each sector outside the log holds one of the two\<close>
  "crash_atomic s ws V W \<longleftrightarrow> (\<forall>us. suffix us ws \<longrightarrow>
     (recovers s (replay us (disk s)) V \<or> recovers s (replay us (disk s)) W) \<and>
     (\<forall>d x. log_home s d x \<longrightarrow> replay us (disk s) d x \<in> {V d x, W d x}))"

lemma wp_commit_open:
  assumes clear: "log_clear s" and keep: "logc.keeps (s\<lparr>log_busy := True\<rparr>) s1"
    and k: "\<And>s' ws. log_clear s' \<Longrightarrow> log_fixed s s' \<Longrightarrow> \<not> log_busy s' \<Longrightarrow>
        (\<And>d x. log_home s d x \<Longrightarrow> bview s' d x = bview s1 d x) \<Longrightarrow> dwrites s' = ws @ dwrites s \<Longrightarrow>
        crash_atomic s ws (bview s) (bview s1) \<Longrightarrow> Q () s'"
  shows "wp commit_trans Q s1"
proof -
  let ?s = "s\<lparr>log_busy := True\<rparr>"
  have inv1: "linv s1" and rest: "lrest s1 = lrest ?s" and "held s1 = held s"
    using keep by (auto simp: logc.keeps_def)
  then have un1: "locked s1 = {}" using unlocked_held clear by (auto simp: log_clear_def)
  have fix1: "log_fixed s s1" using rest by (simp add: lrest_def log_fixed_def)
  note geo = log_fixed_geom[OF fix1]
  have view: "bview s d x = disk s d x" for d x using clear clean_view by (auto simp: log_clear_def)
  obtain ws1 where ws1: "dwrites s1 = ws1 @ dwrites s" and area: "\<forall>w\<in>set ws1. log_area s (fst w) (fst (snd w))"
    by (rule open_writes[OF clear rest])
  have img: "image s1 = image s" using rest by (simp add: lrest_def)
  have D1: "replay ws1 (disk s) = disk s1"
    using ws1 binv_trace[OF linv_binv[OF inv1]] binv_trace[of s] clear img by (simp add: log_clear_def replay_append)
  have keepA: "replay us (disk s) d x = disk s d x" if "set us \<subseteq> set ws1" "\<not> log_area s d x" for us d x
    using that area by (intro replay_other) auto
  show ?thesis
  proof (rule wp_commit_trans[OF inv1 un1])
    fix s' ws
    assume c: "log_clear s'" and f: "log_fixed s1 s'" and nb: "\<not> log_busy s'"
      and v: "\<And>d x. log_home s1 d x \<Longrightarrow> bview s' d x = bview s1 d x" and w: "dwrites s' = ws @ dwrites s1"
      and rec: "\<And>us. suffix us ws \<Longrightarrow> recovers s1 (replay us (disk s1)) (disk s1) \<or> recovers s1 (replay us (disk s1)) (bview s1)"
      and wv: "\<And>d x v. (d, x, v) \<in> set ws \<Longrightarrow> log_home s1 d x \<Longrightarrow> v = bview s1 d x"
    have "(recovers s (replay us (disk s)) (bview s) \<or> recovers s (replay us (disk s)) (bview s1)) \<and>
        (\<forall>d x. log_home s d x \<longrightarrow> replay us (disk s) d x \<in> {bview s d x, bview s1 d x})"
      if us: "suffix us (ws @ ws1)" for us
    proof -
      consider "suffix us ws1" | vs where "suffix vs ws" "us = vs @ ws1"
        using us by (auto simp: suffix_append)
      then show ?thesis
      proof cases
        case 1
        then have same: "replay us (disk s) d x = disk s d x" if "\<not> log_area s d x" for d x
          using that keepA set_mono_suffix by blast
        then have hd: "replay us (disk s) (log_dev s) (log_start s) = disk s (log_dev s) (log_start s)"
          by (simp add: log_area_def)
        have "recovers s (replay us (disk s)) (bview s)"
        proof (rule recovers_empty)
          show "log_geom s" "head_n (replay us (disk s) (log_dev s) (log_start s)) \<le> 0"
            using clear hd by (auto simp: log_clear_def)
          show "replay us (disk s) d x = bview s d x" if "log_home s d x" for d x
            using that same view by (simp add: log_home_def)
        qed
        then show ?thesis using same view by (simp add: log_home_def)
      next
        case (2 vs)
        have D: "replay us (disk s) = replay vs (disk s1)" using 2 D1 by (simp add: replay_append)
        have old: "disk s1 d x = bview s d x" if "log_home s d x" for d x
          using that lrest_disk[OF rest] view by (simp add: log_home_def)
        have "replay vs (disk s1) d x \<in> {bview s d x, bview s1 d x}" if h: "log_home s d x" for d x
          using replay_cases[of vs "disk s1" d x] wv[of d x] 2(1) h geo old set_mono_suffix[of vs ws] by auto
        moreover have "recovers s (replay vs (disk s1)) (bview s) \<or> recovers s (replay vs (disk s1)) (bview s1)"
          using rec[OF 2(1)] old recovers_cong[OF fix1] by (auto simp: recovers_def)
        ultimately show ?thesis by (simp add: D)
      qed
    qed
    then have "crash_atomic s (ws @ ws1) (bview s) (bview s1)" by (simp add: crash_atomic_def)
    then show "Q () s'"
      using c log_fixed_trans[OF fix1 f] nb v geo w ws1 by (intro k[where ws = "ws @ ws1"]) auto
  qed
qed

section \<open>Booting from a disk\<close>

definition power_on :: "dmap \<Rightarrow> 'a log_scheme \<Rightarrow> 'a log_scheme" where
  \<comment> \<open>memory as the loader leaves it (zeroed), over the disks \<open>D\<close>\<close>
  "power_on D s = s\<lparr>disk := D, image := D, dwrites := [],
     bufs := \<lambda>_. \<lparr>b_busy = False, b_valid = False, b_dirty = False, b_dev = 0, b_sector = 0, b_data = zero_bytes\<rparr>,
     lru := [], log_start := 0, log_size := 0, log_busy := False, log_dev := 0, lh_n := 0, lh_sector := \<lambda>_. 0\<rparr>"

definition boot_fs :: "('a log_scheme, unit) prog" where
  "boot_fs = kbind binit (\<lambda>_. initlog)"

definition sb_describes :: "dmap \<Rightarrow> 'a log_scheme \<Rightarrow> bool" where
  \<comment> \<open>the super block says where the log is\<close>
  "sb_describes D s \<longleftrightarrow> (let sb = sb_of (D ROOTDEV 1) in log_dev s = ROOTDEV \<and>
     log_start s = sb_size sb - sb_nlog sb \<and> log_size s = sint (sb_nlog sb) \<and> log_home s ROOTDEV 1)"

lemma wp_readsb:
  assumes "binv s" "dev \<noteq> nodev" "bavail s dev 1"
    and k: "\<And>s'. binv s' \<Longrightarrow> bview s' = bview s \<Longrightarrow> pinned s' = pinned s \<Longrightarrow> locked s' = locked s \<Longrightarrow>
          same_disk s s' \<Longrightarrow> Q (sb_of (bview s dev 1)) s'"
  shows "wp (readsb dev) Q s"
  unfolding readsb_def
proof (rule wp_bread[OF assms(1-3)])
  fix i s1
  assume g: "got s s1 i dev 1"
  then have b: "binv s1" and h: "held s1 i dev 1" and sy: "synced s1 i" by (auto simp: got_def)
  show "wp (kbind (bdata i) (\<lambda>d. kbind (brelse i) (\<lambda>_. kret (sb_of d)))) Q s1"
  proof (rule wp_bdata[OF b h], unfold wp_kbind wp_kret, rule wp_brelse[OF b h sy])
    fix s2
    assume v: "gave s1 s2 i"
    have "Q (sb_of (bview s dev 1)) s2"
      using g v same_disk_trans[of s s1 s2] by (intro k) (auto simp: got_def gave_def)
    then show "Q (sb_of (bview s1 dev 1)) s2" using g by (simp add: got_def)
  qed
qed

lemma wp_boot_fs:
  assumes geom: "log_geom s" and pres: "disks_present s" and sb: "sb_describes D s" and rec: "recovers s D V"
    and k: "\<And>r. log_clear r \<Longrightarrow> \<not> log_busy r \<Longrightarrow> log_dev r = log_dev s \<Longrightarrow> log_start r = log_start s \<Longrightarrow>
        log_size r = log_size s \<Longrightarrow> (\<And>d x. log_home s d x \<Longrightarrow> bview r d x = V d x) \<Longrightarrow>
        (\<exists>H. head_n H = 0 \<and> dwrites r = (log_dev s, log_start s, H) # redo s D) \<Longrightarrow> Q () r"
  shows "wp boot_fs Q (power_on D s)"
proof -
  let ?p = "power_on D s"
  have "wp binit (\<lambda>_ s'. binv s' \<and> unlocked s' \<and> pinned s' = {} \<and> bview s' = disk ?p \<and> same_disk ?p s') ?p"
    by (rule binit_fresh) (simp_all add: power_on_def)
  then obtain s1 where b: "binit ?p = Ret ((), s1)" and s1: "binv s1" "locked s1 = {}" "pinned s1 = {}"
    "bview s1 = D" "same_disk ?p s1"
    by (auto simp: wp_Ret locked_empty power_on_def)
  have d1: "disk s1 = D" "disks_present s1" using s1(5) pres by (auto simp: same_disk_def power_on_def disks_present_def)
  have nb: "log_busy s1 = False" using s1(5) same_log(3)[of s1 ?p] by (simp add: same_disk_def power_on_def)
  have "wp initlog Q s1"
    unfolding initlog_def wp_kbind
  proof (rule wp_readsb[OF s1(1)])
    show "ROOTDEV \<noteq> nodev" by (simp add: ROOTDEV_def)
    show "bavail s1 ROOTDEV 1" using s1 d1 by (intro bavail_unlocked) (auto simp: NBUF_def)
    fix s2
    assume s2: "binv s2" "bview s2 = bview s1" "pinned s2 = pinned s1" "locked s2 = locked s1" "same_disk s1 s2"
    let ?sb = "sb_of (bview s1 ROOTDEV 1)"
    define t where "t = s2\<lparr>log_start := sb_size ?sb - sb_nlog ?sb, log_size := sint (sb_nlog ?sb), log_dev := ROOTDEV\<rparr>"
    have tb: "binv t = binv s2" "pinned t = pinned s2" "locked t = locked s2" "disks_present t = disks_present s2"
      by (rule bio_cong; simp add: t_def)+
    have td: "disk t = D" "log_start t = log_start s" "log_size t = log_size s" "log_dev t = log_dev s"
      "log_busy t = False"
      using s2(5) d1 sb s1(4) nb same_log(3)[of s2 s1] by (auto simp: t_def same_disk_def sb_describes_def Let_def)
    have geo: "log_geom t = log_geom s" "log_home t = log_home s" "log_block t = log_block s"
      using td by (simp_all add: fun_eq_iff log_geom_def log_home_def log_area_def log_block_def)
    have rec': "log_sound t D" "replay (redo t D) D = replay (redo s D) D"
      using rec td geo by (simp_all add: recovers_def log_sound_def redo_def)
    have "wp recover_from_log Q t"
    proof (rule wp_recover)
      show "binv t" "locked t = {}" "disks_present t" "log_geom t" "pinned t = {}" "log_sound t (disk t)"
        using tb s2 s1 d1 geom geo td rec' by (auto simp: disks_present_def same_disk_def)
      fix r
      assume r: "log_clear r" "log_fixed t r" "log_busy r = log_busy t"
        "\<forall>d x. log_home t d x \<longrightarrow> bview r d x = replay (redo t (disk t)) (disk t) d x"
        "\<exists>H. head_n H = 0 \<and> dwrites r = (log_dev t, log_start t, H) # redo t (disk t) @ dwrites t"
      have "dwrites t = []" using s2(5) s1(5) by (simp add: t_def same_disk_def power_on_def)
      with r show "Q () r"
        using td geo rec rec' by (intro k) (auto simp: log_fixed_def recovers_def redo_def)
    qed
    then show "wp (kmod (\<lambda>s. s\<lparr>log_start := sb_size ?sb - sb_nlog ?sb, log_size := sint (sb_nlog ?sb),
        log_dev := ROOTDEV\<rparr>)) (\<lambda>_. wp recover_from_log Q) s2"
      by (simp add: wp_kmod t_def)
  qed
  then show ?thesis using b by (simp add: boot_fs_def wp_def kbind_def)
qed

section \<open>A transaction of block updates\<close>

text \<open>The way every writer above uses the log: read a block, change it, \<open>log_write\<close> it, release it.\<close>

definition log_update :: "uint \<Rightarrow> (bytes \<Rightarrow> bytes) \<Rightarrow> ('a log_scheme, unit) prog" where
  "log_update x f =
     kbind (kget log_dev) (\<lambda>dev.
     kbind (bread dev x) (\<lambda>b.
     kbind (bdata b) (\<lambda>d.
     kbind (bput b (f d)) (\<lambda>_.
     kbind (log_write b) (\<lambda>_.
     brelse b)))))"

primrec log_updates :: "(uint \<times> (bytes \<Rightarrow> bytes)) list \<Rightarrow> ('a log_scheme, unit) prog" where
  "log_updates [] = kret ()"
| "log_updates (u # us) = kbind (log_update (fst u) (snd u)) (\<lambda>_. log_updates us)"

primrec updated :: "uint \<Rightarrow> (uint \<times> (bytes \<Rightarrow> bytes)) list \<Rightarrow> dmap \<Rightarrow> dmap" where
  "updated dev [] V = V"
| "updated dev (u # us) V = updated dev us (dput dev (fst u) (snd u (V dev (fst u))) V)"

lemma updated_agree:
  assumes "\<And>d x. P d x \<Longrightarrow> V d x = W d x" "\<And>u. u \<in> set us \<Longrightarrow> P dev (fst u)" "P d x"
  shows "updated dev us V d x = updated dev us W d x"
  using assms(1,2)
proof (induction us arbitrary: V W)
  case Nil
  then show ?case using assms(3) by simp
next
  case (Cons u us)
  let ?V = "dput dev (fst u) (snd u (V dev (fst u))) V" and ?W = "dput dev (fst u) (snd u (W dev (fst u))) W"
  have "V dev (fst u) = W dev (fst u)" using Cons.prems by simp
  then have "?V d x = ?W d x" if "P d x" for d x
    using that Cons.prems(1) by (auto simp: dput_def)
  then show ?case using Cons.IH[of ?V ?W] Cons.prems(2) by simp
qed

lemma wp_log_update:
  assumes inv: "linv s" and un: "locked s = {}" and busy: "log_busy s" and home: "log_home s (log_dev s) x"
    and n: "lh_n s < log_size s - 1"
  shows "wp (log_update x f) (\<lambda>_ s'. logc.keeps s s' \<and> lh_n s' \<le> lh_n s + 1 \<and>
           lview s' = dput (log_dev s) x (f (lview s (log_dev s) x)) (lview s)) s"
proof -
  let ?d = "log_dev s"
  have us: "lusable s ?d x" using home by (simp add: lusable_def)
  have dev: "?d \<noteq> nodev" using linv_geom[OF inv] by (simp add: log_geom_def)
  have partial: "wlp (log_update x f) (\<lambda>_ s'. logc.keeps s s' \<and>
      lview s' = dput ?d x (f (lview s ?d x)) (lview s)) s"
  proof -
    have "wlp (kbind (bread ?d x) (\<lambda>i. kbind (bdata i) (\<lambda>v. kbind (bput i (f v)) (\<lambda>_.
           kbind (log_write i) (\<lambda>_. kbind (brelse i) (\<lambda>_. kret ())))))) (\<lambda>_ s'. logc.keeps s s' \<and>
      lview s' = dput ?d x (f (lview s ?d x)) (lview s)) s"
      by (rule logc.wlp_update_sector[OF inv us]) (simp add: wlp_kret)
    then show ?thesis by (simp add: log_update_def wlp_kbind wlp_kget wlp_kret)
  qed
  have "wp (kbind (bread ?d x) (\<lambda>b. kbind (bdata b) (\<lambda>d. kbind (bput b (f d)) (\<lambda>_.
      kbind (log_write b) (\<lambda>_. brelse b))))) (\<lambda>_ s'. lh_n s' \<le> lh_n s + 1) s"
  proof (rule wp_bread[OF linv_binv[OF inv] dev bavail_unlocked[OF linv_binv[OF inv] linv_disks[OF inv] un linv_pinned_card[OF inv]]])
    fix b s1
    assume g: "got s s1 b ?d x"
    have m1: "bio.more s1 = bio.more s" using g by (simp add: got_def same_disk_def)
    note f1 = same_log[OF m1] same_log_geom[OF m1]
    have oh: "held s1 c e y \<longleftrightarrow> c = b \<and> e = ?d \<and> y = x" for c e y
      using g un by (cases "c = b") (auto simp: got_def held_def is_sector_def locked_def)
    have "\<not> held s c e y" for c e y using un by (auto simp: held_def locked_def)
    then have inv1: "linv s1"
      using g oh home linv_copy[OF inv] by (intro linv_same_disk[OF inv]) (auto simp: got_def)
    have h1: "held s1 b ?d x" and us1: "lusable s1 ?d x" using oh us f1 by (auto simp: lusable_def)
    show "wp (kbind (bdata b) (\<lambda>d. kbind (bput b (f d)) (\<lambda>_. kbind (log_write b) (\<lambda>_. brelse b)))) (\<lambda>_ s'. lh_n s' \<le> lh_n s + 1) s1"
    proof (rule wp_bdata[OF linv_binv[OF inv1] h1])
      let ?v = "f (bview s1 ?d x)"
      let ?s2 = "set_data b ?v s1"
      note p = log_bput[OF inv1 us1 h1, of ?v]
      have m2: "bio.more ?s2 = bio.more s1" by (simp add: set_data_def)
      note f2 = same_log[OF m2] same_log_geom[OF m2]
      have h2: "held ?s2 b (log_dev ?s2) x" using p h1 f1 f2 by simp
      have lk: "locked ?s2 = {b}" using g un by (auto simp: got_def set_data_def locked_def)
      have n2: "lh_n ?s2 < log_size ?s2 - 1" "lh_n ?s2 < int LOGSIZE" "log_busy ?s2"
        using n busy f1 f2 linv_geom[OF inv] by (auto simp: log_geom_def)
      have "wp (log_write b) (\<lambda>_. wp (brelse b) (\<lambda>_ s'. lh_n s' \<le> lh_n s + 1)) ?s2"
      proof (rule wp_log_write[OF _ h2 n2(2,1,3)])
        let ?i = "log_slot 0 (nat (lh_n ?s2)) (lh_sector ?s2) x"
        show inv2: "linv ?s2" using p by simp
        have "?i \<le> nat (lh_n ?s2)" using log_slot_range[of 0] by simp
        then have "int ?i + 1 < log_size ?s2" using n2 linv_n[OF inv2] by linarith
        then have ne: "log_block ?s2 ?i \<noteq> x"
          using log_home_block[OF linv_geom[OF inv2] _ linv_held[OF inv2 h2]] by simp
        have "card (pinned ?s2) \<le> 8"
          using linv_pinned_le[OF inv2] n2(1) linv_geom[OF inv2] by (auto simp: log_geom_def LOGSIZE_def)
        then show "bavail ?s2 (log_dev ?s2) (log_block ?s2 ?i)"
          using h2 lk ne linv_binv[OF inv2] linv_disks[OF inv2]
          by (intro bavailI) (auto simp: held_def is_sector_def NBUF_def)
        fix s3
        assume w: "log_wrote ?s2 s3 b"
        then have "linv s3" "held s3 b (log_dev ?s2) x" "lsynced s3 b" using h2 by (auto simp: log_wrote_def)
        then show "wp (brelse b) (\<lambda>_ s'. lh_n s' \<le> lh_n s + 1) s3"
        proof (intro wp_brelse[OF linv_binv _ lsynced_synced])
          fix s4
          assume "gave s3 s4 b"
          then have "lh_n s4 = lh_n s3" using same_log(5)[of s4 s3] by (simp add: gave_def same_disk_def)
          then show "lh_n s4 \<le> lh_n s + 1" using w f1 f2 by (simp add: log_wrote_def)
        qed
      qed
      then show "wp (kbind (bput b ?v) (\<lambda>_. kbind (log_write b) (\<lambda>_. brelse b))) (\<lambda>_ s'. lh_n s' \<le> lh_n s + 1) s1"
        by (simp add: wp_kbind_fun bput_def wp_kmod)
    qed
  qed
  then have total: "wp (log_update x f) (\<lambda>_ s'. lh_n s' \<le> lh_n s + 1) s"
    by (simp add: log_update_def wp_kbind wp_kget)
  show ?thesis by (rule wp_mono[OF wp_wlp_conj[OF total partial]]) auto
qed

lemma wp_log_updates:
  assumes "linv s" "locked s = {}" "log_busy s" "lh_n s + int (length us) < log_size s"
    and "\<forall>u\<in>set us. log_home s (log_dev s) (fst u)"
  shows "wp (log_updates us) (\<lambda>_ s'. logc.keeps s s' \<and> lview s' = updated (log_dev s) us (lview s)) s"
  using assms
proof (induction us arbitrary: s)
  case Nil
  then show ?case by (simp add: wp_kret logc.keeps_refl)
next
  case (Cons u us)
  let ?x = "fst u" and ?f = "snd u" and ?d = "log_dev s"
  show ?case
    unfolding log_updates.simps wp_kbind
  proof (rule wp_mono[OF wp_log_update])
    show "linv s" "locked s = {}" "log_busy s" "log_home s ?d ?x" "lh_n s < log_size s - 1"
      using Cons.prems by auto
    fix r s1
    assume s1: "logc.keeps s s1 \<and> lh_n s1 \<le> lh_n s + 1 \<and> lview s1 = dput ?d ?x (?f (lview s ?d ?x)) (lview s)"
    then have k: "linv s1" "lrest s1 = lrest s" "held s1 = held s" by (auto simp: logc.keeps_def)
    then have f: "log_dev s1 = ?d" "log_size s1 = log_size s" "log_busy s1" "log_start s1 = log_start s"
      using Cons.prems(3) by (auto simp: lrest_def)
    then have "log_home s1 = log_home s" by (simp add: fun_eq_iff log_home_def log_area_def)
    then have "wp (log_updates us) (\<lambda>_ s'. logc.keeps s1 s' \<and> lview s' = updated ?d us (lview s1)) s1"
      using Cons.IH[of s1] Cons.prems s1 k(1) f unlocked_held[OF k(3)] by auto
    then show "wp (log_updates us) (\<lambda>_ s'. logc.keeps s s' \<and> lview s' = updated ?d (u # us) (lview s)) s1"
      by (rule wp_mono) (use s1 logc.keeps_trans in auto)
  qed
qed

text \<open>C1: a transaction of block updates is atomic. Started between transactions, with at most one
  update fewer than the log has sectors and none to the log or the super block, it runs to
  the end and leaves the updated contents; and if the machine stops after any number of its disk
  writes, booting again (\<open>binit\<close>, then \<open>initlog\<close> with the recovery it runs) returns and finds,
  everywhere outside the log, either the contents before the transaction or those after it.\<close>

theorem transaction_atomic:
  assumes clear: "log_clear s" and idle: "\<not> log_busy s" and sb: "sb_describes (disk s) s"
    and len: "int (length us) < log_size s"
    and home: "\<forall>u\<in>set us. log_home s (log_dev s) (fst u) \<and> fst u \<noteq> 1"
  shows "wp (kbind begin_trans (\<lambda>_. kbind (log_updates us) (\<lambda>_. commit_trans)))
    (\<lambda>_ s'. log_clear s' \<and> \<not> log_busy s' \<and>
       (\<forall>d x. log_home s d x \<longrightarrow> bview s' d x = updated (log_dev s) us (bview s) d x) \<and>
       (\<exists>ws. dwrites s' = ws @ dwrites s \<and>
          (\<forall>cs. suffix cs ws \<longrightarrow>
             wp boot_fs (\<lambda>_ r. log_clear r \<and>
                ((\<forall>d x. log_home s d x \<longrightarrow> bview r d x = bview s d x) \<or>
                 (\<forall>d x. log_home s d x \<longrightarrow> bview r d x = bview s' d x)))
               (power_on (replay cs (disk s)) s)))) s"
proof -
  let ?s = "s\<lparr>log_busy := True\<rparr>" and ?d = "log_dev s"
  have inv: "linv ?s" using clear_linv[OF clear] .
  have un: "locked s = {}" and pres: "disks_present s" and geom: "log_geom s" using clear by (auto simp: log_clear_def)
  have view: "bview s d x = disk s d x" for d x using clear clean_view by (auto simp: log_clear_def)
  have body: "wp (log_updates us) (\<lambda>_ s1. logc.keeps ?s s1 \<and> lview s1 = updated ?d us (lview ?s)) ?s"
    using wp_log_updates[OF inv] un len home clear by (auto simp: log_clear_def)
  have "wp (kbind (log_updates us) (\<lambda>_. commit_trans)) (\<lambda>_ s'. log_clear s' \<and> \<not> log_busy s' \<and>
       (\<forall>d x. log_home s d x \<longrightarrow> bview s' d x = updated ?d us (bview s) d x) \<and>
       (\<exists>ws. dwrites s' = ws @ dwrites s \<and> (\<forall>cs. suffix cs ws \<longrightarrow>
             wp boot_fs (\<lambda>_ r. log_clear r \<and>
                ((\<forall>d x. log_home s d x \<longrightarrow> bview r d x = bview s d x) \<or>
                 (\<forall>d x. log_home s d x \<longrightarrow> bview r d x = bview s' d x)))
               (power_on (replay cs (disk s)) s)))) ?s"
    unfolding wp_kbind
  proof (rule wp_mono[OF body], elim conjE, rule wp_commit_open[OF clear])
    fix s1 s' ws
    assume keep: "logc.keeps ?s s1" and v1: "lview s1 = updated ?d us (lview ?s)"
      and c: "log_clear s'" "\<not> log_busy s'" and v': "\<And>d x. log_home s d x \<Longrightarrow> bview s' d x = bview s1 d x"
      and w: "dwrites s' = ws @ dwrites s" and at: "crash_atomic s ws (bview s) (bview s1)"
    have area: "log_area s1 = log_area s" using keep by (simp add: logc.keeps_def lrest_def log_area_def fun_eq_iff)
    have lv: "bview s1 d x = updated ?d us (bview s) d x" if h: "log_home s d x" for d x
    proof -
      have "bview s1 d x = updated ?d us (lview ?s) d x"
        using v1[THEN fun_cong, of d, THEN fun_cong, of x] h area by (simp add: lview_def log_home_def)
      also have "\<dots> = updated ?d us (bview s) d x"
        by (rule updated_agree[of "log_home s"]) (use home h in \<open>auto simp: lview_def log_home_def\<close>)
      finally show ?thesis .
    qed
    have sb1: "updated ROOTDEV vs V ROOTDEV 1 = V ROOTDEV 1" if "\<forall>u\<in>set vs. fst u \<noteq> 1" for vs V
      using that by (induction vs arbitrary: V) auto
    have rd: "?d = ROOTDEV" "log_home s ROOTDEV 1" using sb by (auto simp: sb_describes_def Let_def)
    have "wp boot_fs (\<lambda>_ r. log_clear r \<and> ((\<forall>d x. log_home s d x \<longrightarrow> bview r d x = bview s d x) \<or>
          (\<forall>d x. log_home s d x \<longrightarrow> bview r d x = bview s' d x))) (power_on (replay cs (disk s)) s)"
      if cs: "suffix cs ws" for cs
    proof -
      let ?D = "replay cs (disk s)"
      have "?D ROOTDEV 1 \<in> {bview s ROOTDEV 1, bview s1 ROOTDEV 1}"
        using at cs rd(2) by (auto simp: crash_atomic_def)
      then have "?D ROOTDEV 1 = disk s ROOTDEV 1" using lv[OF rd(2)] sb1[of us] home rd(1) view by auto
      then have sbD: "sb_describes ?D s" using sb by (simp add: sb_describes_def)
      consider "recovers s ?D (bview s)" | "recovers s ?D (bview s1)" using at cs by (auto simp: crash_atomic_def)
      then show ?thesis
      proof cases
        case 1
        show ?thesis by (rule wp_boot_fs[OF geom pres sbD 1]) auto
      next
        case 2
        show ?thesis by (rule wp_boot_fs[OF geom pres sbD 2]) (use v' in auto)
      qed
    qed
    then show "log_clear s' \<and> \<not> log_busy s' \<and> (\<forall>d x. log_home s d x \<longrightarrow> bview s' d x = updated ?d us (bview s) d x) \<and>
       (\<exists>ws. dwrites s' = ws @ dwrites s \<and> (\<forall>cs. suffix cs ws \<longrightarrow>
             wp boot_fs (\<lambda>_ r. log_clear r \<and>
                ((\<forall>d x. log_home s d x \<longrightarrow> bview r d x = bview s d x) \<or>
                 (\<forall>d x. log_home s d x \<longrightarrow> bview r d x = bview s' d x)))
               (power_on (replay cs (disk s)) s)))"
      using c v' lv w by auto
  qed
  then show ?thesis using idle by (simp add: begin_trans_def wp_kbind_fun wp_kget wp_kmod)
qed

text \<open>A file system just made, with its log in the last ten of a thousand sectors.\<close>

definition demo_disk :: dmap where
  "demo_disk = (\<lambda>d x. if d = ROOTDEV \<and> x = 1 then st32 (st32 (st32 (st32 zero_bytes 0 1000) 4 941) 8 200) 12 10
     else zero_bytes)"

definition demo_log :: log where
  "demo_log = \<lparr>disk = demo_disk,
     bufs = \<lambda>_. \<lparr>b_busy = False, b_valid = False, b_dirty = False, b_dev = nodev, b_sector = 0, b_data = zero_bytes\<rparr>,
     lru = rev [0..<NBUF], havedisk1 = True, havedisk2 = True, dwrites = [], image = demo_disk,
     log_start = 990, log_size = 10, log_busy = False, log_dev = ROOTDEV, lh_n = 0, lh_sector = \<lambda>_. 0\<rparr>"

lemma demo_log_clear: "log_clear demo_log"
proof -
  have "binv demo_log" by (rule binvI) (auto simp: demo_log_def)
  then show ?thesis
    by (simp add: log_clear_def demo_log_def locked_def pinned_def disks_present_def log_geom_def settled_def
        ROOTDEV_def LOGSIZE_def demo_disk_def head_n_def)
qed

lemma demo_home: "log_home demo_log ROOTDEV x" if "x < 990"
  using that by (auto simp: log_home_def log_area_def demo_log_def word_less_def)

lemma demo_sb: "sb_describes (disk demo_log) demo_log"
  using demo_home[of 1] by (simp add: sb_describes_def sb_of_def demo_log_def demo_disk_def)

lemma demo_view: "bview demo_log d x = demo_disk d x"
  using demo_log_clear clean_view[of demo_log d x] by (auto simp: log_clear_def demo_log_def)

theorem transaction_atomic_witness:
  "wp (kbind begin_trans (\<lambda>_. kbind (log_updates [(50, \<lambda>v. v(3 := 9)), (60, \<lambda>v. v(0 := 7))]) (\<lambda>_. commit_trans)))
     (\<lambda>_ s'. bview s' ROOTDEV 50 3 = 9 \<and> bview s' ROOTDEV 60 0 = 7 \<and> bview s' ROOTDEV 50 4 = 0) demo_log"
proof -
  have sz: "log_size demo_log = 10" "log_dev demo_log = ROOTDEV" "\<not> log_busy demo_log" by (simp_all add: demo_log_def)
  show ?thesis
    by (rule wp_mono[OF transaction_atomic[OF demo_log_clear _ demo_sb]])
      (simp_all add: sz demo_home demo_view demo_disk_def zero_bytes_def)
qed

lemma replay_written: "(d, x, v) \<in> set ws \<Longrightarrow> replay ws D d x = replay ws E d x"
proof (induction ws)
  case (Cons w ws)
  then show ?case by (cases "(fst w, fst (snd w)) = (d, x)") (auto simp: prod_eq_iff)
qed simp

lemma replay_idem:
  assumes "set us \<subseteq> set ws"
  shows "replay ws (replay us D) = replay ws D"
proof (intro ext)
  fix d x i
  show "replay ws (replay us D) d x i = replay ws D d x i"
  proof (cases "\<exists>v. (d, x, v) \<in> set ws")
    case True
    then show ?thesis using replay_written by metis
  next
    case False
    then have "(fst w, fst (snd w)) \<noteq> (d, x)" if "w \<in> set ws" for w
      using that by (cases w) auto
    then have "replay ws E d x = E d x" "replay us D d x = D d x" for E
      using assms by (auto intro!: replay_other)
    then show ?thesis by simp
  qed
qed

lemma crash_recover:
  assumes geom: "log_geom s" and rec: "recovers s D V" and H: "head_n H = 0"
    and us: "suffix us ((log_dev s, log_start s, H) # redo s D)"
  shows "recovers s (replay us D) V"
proof -
  let ?d = "log_dev s" and ?x = "log_start s"
  have sound: "log_sound s D" using rec by (simp add: recovers_def)
  have wh: "\<exists>x. fst w = ?d \<and> fst (snd w) = x \<and> log_home s ?d x" if "w \<in> set (redo s D)" for w
    using that sound by (auto simp: redo_def log_sound_def Let_def)
  consider "us = (?d, ?x, H) # redo s D" | "suffix us (redo s D)" using us by (auto simp: suffix_Cons)
  then show ?thesis
  proof cases
    case 1
    show ?thesis
      using rec 1 H by (intro recovers_empty[OF geom]) (auto simp: recovers_def log_home_def)
  next
    case 2
    then have sub: "set us \<subseteq> set (redo s D)" by (rule set_mono_suffix)
    have off: "replay us D ?d x = D ?d x" if "\<not> log_home s ?d x" for x
      using that sub wh by (intro replay_other) fastforce
    have hd: "replay us D ?d ?x = D ?d ?x" by (rule off) (simp add: log_home_def)
    have blk: "replay us D ?d (log_block s i) = D ?d (log_block s i)" if "i < nat (head_n (D ?d ?x))" for i
    proof (rule off)
      have "int i + 1 < log_size s" using that sound by (auto simp: log_sound_def Let_def)
      then show "\<not> log_home s ?d (log_block s i)" using log_block_area[OF geom] by (simp add: log_home_def)
    qed
    have "redo s (replay us D) = redo s D" using hd blk by (simp add: redo_def Let_def)
    moreover have "log_sound s (replay us D)" using sound hd by (simp add: log_sound_def)
    ultimately show ?thesis using rec replay_idem[OF sub] by (simp add: recovers_def)
  qed
qed

text \<open>C2: recovery survives crashes of its own. Boot from disks whose log header is sound; if the
  machine stops after any number of the writes recovery makes, booting again returns and finds
  the same contents outside the log as the uninterrupted boot.\<close>

theorem recovery_restartable:
  assumes "log_geom s" "disks_present s" "log_sound s D" "sb_describes D s"
    and "\<forall>i < nat (head_n (D ROOTDEV (log_start s))). head_sector (D ROOTDEV (log_start s)) i \<noteq> 1"
  shows "wp boot_fs (\<lambda>_ r. \<forall>us. suffix us (dwrites r) \<longrightarrow>
           wp boot_fs (\<lambda>_ r'. log_clear r' \<and> (\<forall>d x. log_home s d x \<longrightarrow> bview r' d x = bview r d x))
             (power_on (replay us D) s)) (power_on D s)"
proof -
  let ?V = "replay (redo s D) D"
  have rd: "log_dev s = ROOTDEV" "log_home s ROOTDEV 1" using assms(4) by (auto simp: sb_describes_def Let_def)
  have rec: "recovers s D ?V" using assms(3) by (simp add: recovers_def)
  show ?thesis
  proof (rule wp_boot_fs[OF assms(1,2,4) rec], intro allI impI)
    fix r us
    assume v: "\<And>d x. log_home s d x \<Longrightarrow> bview r d x = ?V d x" and us: "suffix us (dwrites r)"
      and w: "\<exists>H. head_n H = 0 \<and> dwrites r = (log_dev s, log_start s, H) # redo s D"
    obtain H where H: "head_n H = 0" "suffix us ((log_dev s, log_start s, H) # redo s D)" using us w by auto
    have "(ROOTDEV, 1, v) \<notin> set us" for v
      using set_mono_suffix[OF H(2)] rd assms(5) by (auto simp: redo_def Let_def log_home_def)
    then have "replay us D ROOTDEV 1 = D ROOTDEV 1" using replay_cases[of us D ROOTDEV 1] by blast
    then have sb: "sb_describes (replay us D) s" using assms(4) by (simp add: sb_describes_def)
    show "wp boot_fs (\<lambda>_ r'. log_clear r' \<and> (\<forall>d x. log_home s d x \<longrightarrow> bview r' d x = bview r d x))
        (power_on (replay us D) s)"
      by (rule wp_boot_fs[OF assms(1,2) sb crash_recover[OF assms(1) rec H]]) (use v in auto)
  qed
qed

text \<open>A crash right after the commit point: the log holds one block, for sector 50.\<close>

definition demo_committed :: dmap where
  "demo_committed = dput ROOTDEV 991 (\<lambda>_. 5) (dput ROOTDEV 990 (st32 (st32 zero_bytes 0 1) 4 50) demo_disk)"

theorem recovery_restartable_witness:
  "wp boot_fs (\<lambda>_ r. \<forall>us. suffix us (dwrites r) \<longrightarrow>
     wp boot_fs (\<lambda>_ r'. log_clear r' \<and> bview r' ROOTDEV 50 = bview r ROOTDEV 50)
       (power_on (replay us demo_committed) demo_log)) (power_on demo_committed demo_log)"
proof -
  have hd: "demo_committed ROOTDEV 990 = st32 (st32 zero_bytes 0 1) 4 50" by (simp add: demo_committed_def)
  have s: "log_start demo_log = 990" "log_dev demo_log = ROOTDEV" "log_size demo_log = 10" by (simp_all add: demo_log_def)
  have n1: "head_n (st32 (st32 zero_bytes 0 1) 4 50) = 1" "head_sector (st32 (st32 zero_bytes 0 1) 4 50) 0 = 50"
    by (simp_all add: head_n_def head_sector_def)
  have sound: "log_sound demo_log demo_committed"
    using demo_home[of 50] by (simp add: log_sound_def s hd n1)
  have sb: "sb_describes demo_committed demo_log"
    using demo_sb by (simp add: sb_describes_def demo_committed_def demo_log_def)
  have g: "log_geom demo_log" "disks_present demo_log" using demo_log_clear by (auto simp: log_clear_def)
  show ?thesis
  proof (rule wp_mono[OF recovery_restartable[OF g sound sb]], goal_cases)
    case 1
    show ?case by (simp add: s hd n1)
  next
    case (2 x r)
    show ?case
      by (intro allI impI, rule wp_mono[OF 2[rule_format]]) (use demo_home[of 50] in auto)
  qed
qed

end
