(* ===== verification/Inode.thy ===== *)
theory Inode
  imports Log
begin

text \<open>
  In-memory inodes (\<^verbatim>\<open>fs/vfs/inode.h\<close>, \<^verbatim>\<open>fs/vfs/inode.c\<close>, \<^verbatim>\<open>stat.h\<close>): the cache both file
  systems share, and the device switch.

  \<open>struct inode\<close> overlays \<open>struct sfs_inode\<close> and \<open>struct fat_inode\<close> in a union; the two agree on
  every field up to \<open>size\<close>, and the last word of a FAT inode, \<open>dircluster\<close>, lies where an SFS
  inode has \<open>addrs[0]\<close>. An inode pointer is the number of its slot in \<open>icache\<close>. The flag word is
  its two bits. \<open>icache.lock\<close> makes each short critical section one step, and waiting for a
  locked inode is the outcome \<open>Blocked\<close>. \<open>in_ops\<close> is one of four operation tables, or none.

  A device is described by what it does for the file systems: the results it will give to
  successive reads, and what has been written to it.
\<close>

definition NINODE :: nat where "NINODE = 50"

abbreviation (input) T_DIR :: "16 word" where "T_DIR \<equiv> 1"
abbreviation (input) T_FILE :: "16 word" where "T_FILE \<equiv> 2"
abbreviation (input) T_DEV :: "16 word" where "T_DEV \<equiv> 3"

abbreviation (input) SFS_INODE :: int where "SFS_INODE \<equiv> 1"
abbreviation (input) FAT_INODE :: int where "FAT_INODE \<equiv> 2"

datatype inode_ops = sfs_node_dirops | sfs_node_fileops | fat_node_dirops | fat_node_fileops

record inode =
  i_dev :: uint
  i_inum :: uint
  i_ref :: int
  i_busy :: bool
  i_valid :: bool
  i_type :: "16 word"
  i_major :: "16 word"
  i_minor :: "16 word"
  i_nlink :: "16 word"
  i_size :: uint
  i_addrs :: "nat \<Rightarrow> uint"
  i_fstype :: int
  i_ops :: "inode_ops option"

record stat =
  st_type :: "16 word"
  st_dev :: uint
  st_ino :: uint
  st_nlink :: "16 word"
  st_size :: uint
  st_fstype :: int

definition NDEV :: nat where "NDEV = 10"

record device =
  dv_read :: bool
  dv_write :: bool
  dv_in :: "(int \<times> uchar list) list"
  dv_out :: "uchar list list"

text \<open>\<open>rtc\<close> holds the registers of the real-time clock, \<open>p_cwd\<close> the working directory of the
  running process.\<close>

record fsys = log +
  icache :: "nat \<Rightarrow> inode"
  devsw :: "nat \<Rightarrow> device"
  rtc :: "nat \<Rightarrow> uchar"
  p_cwd :: nat

definition iinfo :: "nat \<Rightarrow> ('a fsys_scheme, inode) prog" where
  \<comment> \<open>read the fields of an inode\<close>
  "iinfo ip = kget (\<lambda>s. icache s ip)"

definition iset :: "nat \<Rightarrow> (inode \<Rightarrow> inode) \<Rightarrow> ('a fsys_scheme, unit) prog" where
  \<comment> \<open>assign to fields of an inode\<close>
  "iset ip f = kmod (\<lambda>s. s\<lparr>icache := (icache s)(ip := f (icache s ip))\<rparr>)"

definition inode_init :: "nat \<Rightarrow> inode_ops \<Rightarrow> int \<Rightarrow> ('a fsys_scheme, unit) prog" where
  "inode_init node ops fstype = iset node (\<lambda>i. i\<lparr>i_ops := Some ops, i_fstype := fstype\<rparr>)"

section \<open>Devices\<close>

definition dev_ok :: "(device \<Rightarrow> bool) \<Rightarrow> 'a fsys_scheme \<Rightarrow> 16 word \<Rightarrow> bool" where
  \<comment> \<open>the test before a device call: the major number is in range and the function is set\<close>
  "dev_ok present s major \<longleftrightarrow> 0 \<le> sint major \<and> sint major < int NDEV \<and> present (devsw s (nat (sint major)))"

definition devsw_read :: "16 word \<Rightarrow> uint \<Rightarrow> ('a fsys_scheme, int \<times> uchar list) prog" where
  "devsw_read major n = (\<lambda>s. let d = devsw s (nat (sint major)) in
     case dv_in d of
       [] \<Rightarrow> Blocked
     | r # rs \<Rightarrow> Ret (r, s\<lparr>devsw := (devsw s)(nat (sint major) := d\<lparr>dv_in := rs\<rparr>)\<rparr>))"

definition devsw_write :: "16 word \<Rightarrow> uchar list \<Rightarrow> ('a fsys_scheme, int) prog" where
  "devsw_write major src = kbind (kmod (\<lambda>s. let d = devsw s (nat (sint major)) in
     s\<lparr>devsw := (devsw s)(nat (sint major) := d\<lparr>dv_out := src # dv_out d\<rparr>)\<rparr>)) (\<lambda>_. kret (int (length src)))"

section \<open>The lower layers do not look at inodes\<close>

lemma iset_bio [simp]:
  "binv (s\<lparr>icache := c\<rparr>) = binv s" "bview (s\<lparr>icache := c\<rparr>) = bview s" "pinned (s\<lparr>icache := c\<rparr>) = pinned s"
  "locked (s\<lparr>icache := c\<rparr>) = locked s" "held (s\<lparr>icache := c\<rparr>) = held s" "synced (s\<lparr>icache := c\<rparr>) = synced s"
  "disks_present (s\<lparr>icache := c\<rparr>) = disks_present s" "bavail (s\<lparr>icache := c\<rparr>) = bavail s"
  by (rule bio_cong; simp)+

lemma log_cong:
  assumes "bufs s' = bufs s" "lru s' = lru s" "disk s' = disk s" "dwrites s' = dwrites s" "image s' = image s"
    "havedisk1 s' = havedisk1 s" "havedisk2 s' = havedisk2 s"
    and "log_start s' = log_start s" "log_size s' = log_size s" "log_busy s' = log_busy s" "log_dev s' = log_dev s"
    "lh_n s' = lh_n s" "lh_sector s' = lh_sector s"
  shows "linv s' = linv s" "lview s' = lview s" "lusable s' = lusable s" "lsynced s' = lsynced s"
    "log_home s' = log_home s" "log_area s' = log_area s" "settled s' = settled s"
proof -
  note b = bio_cong[OF assms(1-7)]
  have a: "log_area s' = log_area s" "log_block s' = log_block s" "logged s' = logged s"
    using assms by (simp_all add: fun_eq_iff log_area_def log_block_def logged_def)
  have h: "log_home s' = log_home s" "log_geom s' = log_geom s" using a assms by (simp_all add: fun_eq_iff log_home_def log_geom_def)
  have t: "settled s' = settled s" using a assms by (simp add: settled_def)
  show "linv s' = linv s" unfolding linv_def b a h t assms ..
  show "lview s' = lview s" unfolding lview_def b a ..
  show "lusable s' = lusable s" by (intro ext) (simp add: lusable_def h assms)
  show "lsynced s' = lsynced s" by (intro ext) (simp add: lsynced_def a assms)
qed (use assms in \<open>simp_all add: fun_eq_iff log_home_def log_area_def settled_def\<close>)

lemma iset_log [simp]:
  "linv (s\<lparr>icache := c\<rparr>) = linv s" "lview (s\<lparr>icache := c\<rparr>) = lview s" "lusable (s\<lparr>icache := c\<rparr>) = lusable s"
  "lsynced (s\<lparr>icache := c\<rparr>) = lsynced s" "log_home (s\<lparr>icache := c\<rparr>) = log_home s"
  "log_area (s\<lparr>icache := c\<rparr>) = log_area s" "settled (s\<lparr>icache := c\<rparr>) = settled s"
  by (rule log_cong; simp)+

end
