(* ===== verification/Sfs.thy ===== *)
theory Sfs
  imports Inode
begin

text \<open>
  The simple file system, \<^verbatim>\<open>fs/sfs/sfs_inode.c\<close>, \<^verbatim>\<open>sfs_inode.h\<close> and \<^verbatim>\<open>sfs_fs.c\<close>: block
  allocation, inodes, file contents, directories and paths, in the order of the source.

  Data passed through pointers is passed as byte lists: \<open>sfs_readi\<close> returns the return value
  with the bytes stored at \<open>dst\<close>, \<open>sfs_writei\<close> takes the \<open>n\<close> bytes at \<open>src\<close>. A path is the
  characters before its terminating zero; a \<open>name\<close> buffer of \<open>DIRSIZ\<close> bytes is its content up to
  a zero or the end of the buffer. A null inode pointer is \<open>None\<close>. Offsets in directories
  advance by the size of an entry from 0, so that the loops over them are bounded by the size
  of the directory; the copy loops carry fuel, one unit per byte at most.

  Where the source calls \<open>vop_\<close> operations on an inode of this file system, the operation of
  its table is called directly.
\<close>

section \<open>Constants and the on-disk structures\<close>

definition BSIZE :: nat where "BSIZE = 512"
definition ROOTINO :: uint where "ROOTINO = 1"
definition NDIRECT :: nat where "NDIRECT = 12"
definition NINDIRECT :: nat where "NINDIRECT = 128"
definition MAXFILE :: nat where "MAXFILE = NDIRECT + NINDIRECT"
definition SFSBPB :: nat where "SFSBPB = 4096"
definition DIRSIZ :: nat where "DIRSIZ = 14"

definition IBLOCK :: "uint \<Rightarrow> uint" where
  "IBLOCK i = i div 8 + 2"

definition BBLOCK :: "uint \<Rightarrow> uint \<Rightarrow> uint" where
  "BBLOCK b ninodes = b div 4096 + ninodes div 8 + 3"

text \<open>\<open>struct sfs_dinode\<close>, 64 bytes, at offset \<open>p\<close> of a block.\<close>

definition dinode_at :: "uint \<Rightarrow> nat" where
  "dinode_at inum = 64 * unat (inum mod 8)"

definition load_dinode :: "bytes \<Rightarrow> nat \<Rightarrow> inode \<Rightarrow> inode" where
  "load_dinode d p i = i\<lparr>i_type := ld16 d p, i_major := ld16 d (p + 2), i_minor := ld16 d (p + 4),
     i_nlink := ld16 d (p + 6), i_size := ld32 d (p + 8),
     i_addrs := (\<lambda>k. if k \<le> NDIRECT then ld32 d (p + 12 + 4 * k) else i_addrs i k)\<rparr>"

primrec put_addrs :: "nat \<Rightarrow> nat \<Rightarrow> (nat \<Rightarrow> uint) \<Rightarrow> nat \<Rightarrow> bytes \<Rightarrow> bytes" where
  \<comment> \<open>the \<open>memmove\<close> of \<open>addrs\<close> into the block at \<open>p\<close>\<close>
  "put_addrs k 0 a p d = d"
| "put_addrs k (Suc n) a p d = put_addrs (Suc k) n a p (st32 d (p + 4 * k) (a k))"

definition store_dinode :: "inode \<Rightarrow> nat \<Rightarrow> bytes \<Rightarrow> bytes" where
  "store_dinode i p d = put_addrs 0 (NDIRECT + 1) (i_addrs i) (p + 12)
     (st32 (st16 (st16 (st16 (st16 d p (i_type i)) (p + 2) (i_major i)) (p + 4) (i_minor i)) (p + 6) (i_nlink i))
        (p + 8) (i_size i))"

text \<open>\<open>struct sfs_dirent\<close>, 16 bytes: the inode number and the name.\<close>

definition de_inum :: "uchar list \<Rightarrow> ushort" where
  "de_inum de = ld16 (cview de) 0"

definition de_name :: "uchar list \<Rightarrow> bytes" where
  "de_name de = (\<lambda>i. if i < DIRSIZ then cview de (2 + i) else 0)"

definition namecmp :: "bytes \<Rightarrow> bytes \<Rightarrow> int" where
  "namecmp s t = strncmp s t DIRSIZ"

section \<open>Blocks\<close>

definition sfs_get_ops :: "16 word \<Rightarrow> ('a fsys_scheme, inode_ops) prog" where
  "sfs_get_ops type =
     (if type = T_DIR then kret sfs_node_dirops
      else if type = T_FILE then kret sfs_node_fileops
      else if type = T_DEV then kret sfs_node_fileops
      else kpanic ''invalid file type'')"

definition bzero :: "uint \<Rightarrow> uint \<Rightarrow> ('a log_scheme, unit) prog" where
  "bzero dev bno =
     kbind (bread dev bno) (\<lambda>bp.
     kbind (bput bp zero_bytes) (\<lambda>_.
     kbind (log_write bp) (\<lambda>_.
     brelse bp)))"

definition bit_of :: "nat \<Rightarrow> uchar" where
  "bit_of bi = push_bit (bi mod 8) 1"

definition bit_free :: "bytes \<Rightarrow> nat \<Rightarrow> bool" where
  "bit_free d bi \<longleftrightarrow> d (bi div 8) AND bit_of bi = 0"

definition bit_set :: "bytes \<Rightarrow> nat \<Rightarrow> bytes" where
  "bit_set d bi = d(bi div 8 := d (bi div 8) OR bit_of bi)"

definition bit_clear :: "bytes \<Rightarrow> nat \<Rightarrow> bytes" where
  "bit_clear d bi = d(bi div 8 := d (bi div 8) AND NOT (bit_of bi))"

primrec bfind :: "bytes \<Rightarrow> nat \<Rightarrow> nat \<Rightarrow> nat \<Rightarrow> nat \<Rightarrow> nat option" where
  \<comment> \<open>the inner loop of \<open>balloc\<close>, from bit \<open>bi\<close>, with at most \<open>n\<close> bits to go\<close>
  "bfind d b sz bi 0 = None"
| "bfind d b sz bi (Suc n) =
     (if b + bi < sz then if bit_free d bi then Some bi else bfind d b sz (Suc bi) n else None)"

definition balloc_page :: "uint \<Rightarrow> sfs_super \<Rightarrow> nat \<Rightarrow> ('a log_scheme, uint option) prog" where
  \<comment> \<open>round \<open>k\<close> of the outer loop: the blocks of one bitmap sector\<close>
  "balloc_page dev sb k =
     (let b = k * SFSBPB in
      kbind (bread dev (BBLOCK (of_nat b) (sb_ninodes sb))) (\<lambda>bp.
      kbind (bdata bp) (\<lambda>d.
      case bfind d b (unat (sb_size sb)) 0 SFSBPB of
        Some bi \<Rightarrow>
          kbind (bput bp (bit_set d bi)) (\<lambda>_.
          kbind (log_write bp) (\<lambda>_.
          kbind (brelse bp) (\<lambda>_.
          kbind (bzero dev (of_nat (b + bi))) (\<lambda>_.
          kret (Some (of_nat (b + bi)))))))
      | None \<Rightarrow> kbind (brelse bp) (\<lambda>_. kret None))))"

definition balloc :: "uint \<Rightarrow> ('a log_scheme, uint) prog" where
  "balloc dev =
     kbind (readsb dev) (\<lambda>sb.
     kbind (ksearch 0 ((unat (sb_size sb) + SFSBPB - 1) div SFSBPB) (balloc_page dev sb)) (\<lambda>r.
     case r of Some b \<Rightarrow> kret b | None \<Rightarrow> kpanic ''balloc: out of blocks''))"

definition bfree :: "uint \<Rightarrow> uint \<Rightarrow> ('a log_scheme, unit) prog" where
  "bfree dev b =
     kbind (readsb dev) (\<lambda>sb.
     kbind (bread dev (BBLOCK b (sb_ninodes sb))) (\<lambda>bp.
     kbind (bdata bp) (\<lambda>d.
     let bi = unat b mod SFSBPB in
     if bit_free d bi then kpanic ''freeing free block''
     else
       kbind (bput bp (bit_clear d bi)) (\<lambda>_.
       kbind (log_write bp) (\<lambda>_.
       brelse bp)))))"

section \<open>Inodes\<close>

definition sfs_ilock :: "nat \<Rightarrow> ('a fsys_scheme, unit) prog" where
  "sfs_ilock ip =
     kbind (iinfo ip) (\<lambda>sin.
     if i_ref sin < 1 then kpanic ''ilock''
     else if i_busy sin then kblock
     else
       kbind (iset ip (\<lambda>i. i\<lparr>i_busy := True\<rparr>)) (\<lambda>_.
       if i_valid sin then kret ()
       else
         kbind (bread (i_dev sin) (IBLOCK (i_inum sin))) (\<lambda>bp.
         kbind (bdata bp) (\<lambda>d.
         kbind (iset ip (load_dinode d (dinode_at (i_inum sin)))) (\<lambda>_.
         kbind (brelse bp) (\<lambda>_.
         kbind (iset ip (\<lambda>i. i\<lparr>i_valid := True\<rparr>)) (\<lambda>_.
         kbind (iinfo ip) (\<lambda>sin'.
         if i_type sin' = 0 then kpanic ''ilock: no type'' else kret ()))))))))"

definition sfs_iunlock :: "nat \<Rightarrow> ('a fsys_scheme, unit) prog" where
  "sfs_iunlock ip =
     kbind (iinfo ip) (\<lambda>sin.
     if \<not> i_busy sin \<or> i_ref sin < 1 then kpanic ''iunlock''
     else iset ip (\<lambda>i. i\<lparr>i_busy := False\<rparr>))"

definition sfs_cached :: "'a fsys_scheme \<Rightarrow> uint \<Rightarrow> uint \<Rightarrow> nat option" where
  \<comment> \<open>the scan of \<open>sfs_iget\<close>: the inode is already cached\<close>
  "sfs_cached s dev inum = find (\<lambda>ip. let i = icache s ip in
     i_fstype i = SFS_INODE \<and> i_ref i > 0 \<and> i_dev i = dev \<and> i_inum i = inum) [0..<NINODE]"

definition iempty :: "'a fsys_scheme \<Rightarrow> nat option" where
  \<comment> \<open>the first empty slot the scan remembers\<close>
  "iempty s = find (\<lambda>ip. i_ref (icache s ip) = 0) [0..<NINODE]"

definition sfs_iget :: "uint \<Rightarrow> uint \<Rightarrow> 16 word \<Rightarrow> ('a fsys_scheme, nat) prog" where
  "sfs_iget dev inum type =
     kbind (kget (\<lambda>s. (sfs_cached s dev inum, iempty s))) (\<lambda>(cached, empty).
     case cached of
       Some ip \<Rightarrow> kbind (iset ip (\<lambda>i. i\<lparr>i_ref := i_ref i + 1\<rparr>)) (\<lambda>_. kret ip)
     | None \<Rightarrow>
         (case empty of
            None \<Rightarrow> kpanic ''iget: no inodes''
          | Some ip \<Rightarrow>
              kbind (iset ip (\<lambda>i. i\<lparr>i_dev := dev, i_inum := inum, i_ref := 1, i_busy := False, i_valid := False\<rparr>)) (\<lambda>_.
              kbind (if type \<noteq> 0 then iset ip (\<lambda>i. i\<lparr>i_type := type\<rparr>)
                     else kbind (sfs_ilock ip) (\<lambda>_. sfs_iunlock ip)) (\<lambda>_.
              kbind (iinfo ip) (\<lambda>sip.
              kbind (sfs_get_ops (i_type sip)) (\<lambda>ops.
              kbind (inode_init ip ops SFS_INODE) (\<lambda>_.
              kret ip)))))))"

definition sfs_ialloc :: "nat \<Rightarrow> uint \<Rightarrow> 16 word \<Rightarrow> ('a fsys_scheme, nat) prog" where
  "sfs_ialloc dirnode dev type =
     kbind (readsb dev) (\<lambda>sb.
     kbind (ksearch 1 (unat (sb_ninodes sb) - 1) (\<lambda>k.
       let inum = of_nat k in
       kbind (bread dev (IBLOCK inum)) (\<lambda>bp.
       kbind (bdata bp) (\<lambda>d.
       if ld16 d (dinode_at inum) = 0 then
         kbind (bput bp (st16 (blit d (dinode_at inum) zero_bytes 0 64) (dinode_at inum) type)) (\<lambda>_.
         kbind (log_write bp) (\<lambda>_.
         kbind (brelse bp) (\<lambda>_.
         kbind (sfs_iget dev inum type) (\<lambda>node.
         kret (Some node)))))
       else kbind (brelse bp) (\<lambda>_. kret None))))) (\<lambda>r.
     case r of Some node \<Rightarrow> kret node | None \<Rightarrow> kpanic ''ialloc: no inodes''))"

definition sfs_iupdate :: "nat \<Rightarrow> ('a fsys_scheme, unit) prog" where
  "sfs_iupdate ip =
     kbind (iinfo ip) (\<lambda>sin.
     kbind (bread (i_dev sin) (IBLOCK (i_inum sin))) (\<lambda>bp.
     kbind (bdata bp) (\<lambda>d.
     kbind (bput bp (store_dinode sin (dinode_at (i_inum sin)) d)) (\<lambda>_.
     kbind (log_write bp) (\<lambda>_.
     brelse bp)))))"

definition sfs_idup :: "nat \<Rightarrow> ('a fsys_scheme, nat) prog" where
  "sfs_idup ip = kbind (iset ip (\<lambda>i. i\<lparr>i_ref := i_ref i + 1\<rparr>)) (\<lambda>_. kret ip)"

section \<open>File contents\<close>

definition bmap_entry :: "uint \<Rightarrow> uint \<Rightarrow> nat \<Rightarrow> ('a log_scheme, uint) prog" where
  \<comment> \<open>the part of \<open>bmap\<close> that looks into the indirect block\<close>
  "bmap_entry dev ind k =
     kbind (bread dev ind) (\<lambda>bp.
     kbind (bdata bp) (\<lambda>a.
     let addr = ld32 a (4 * k) in
     kbind (if addr = 0 then
              kbind (balloc dev) (\<lambda>addr.
              kbind (bput bp (st32 a (4 * k) addr)) (\<lambda>_.
              kbind (log_write bp) (\<lambda>_. kret addr)))
            else kret addr) (\<lambda>addr.
     kbind (brelse bp) (\<lambda>_.
     kret addr))))"

definition bmap :: "nat \<Rightarrow> uint \<Rightarrow> ('a fsys_scheme, uint) prog" where
  "bmap ip bn =
     kbind (iinfo ip) (\<lambda>sin.
     if unat bn < NDIRECT then
       (let addr = i_addrs sin (unat bn) in
        if addr = 0 then
          kbind (balloc (i_dev sin)) (\<lambda>addr.
          kbind (iset ip (\<lambda>i. i\<lparr>i_addrs := (i_addrs i)(unat bn := addr)\<rparr>)) (\<lambda>_. kret addr))
        else kret addr)
     else
       (let bn = bn - of_nat NDIRECT in
        if unat bn < NINDIRECT then
          kbind (let addr = i_addrs sin NDIRECT in
                 if addr = 0 then
                   kbind (balloc (i_dev sin)) (\<lambda>addr.
                   kbind (iset ip (\<lambda>i. i\<lparr>i_addrs := (i_addrs i)(NDIRECT := addr)\<rparr>)) (\<lambda>_. kret addr))
                 else kret addr) (\<lambda>ind.
          bmap_entry (i_dev sin) ind (unat bn))
        else kpanic ''bmap: out of range''))"

definition sfs_itrunc :: "nat \<Rightarrow> ('a fsys_scheme, unit) prog" where
  "sfs_itrunc ip =
     kbind (kfor 0 NDIRECT (\<lambda>i.
       kbind (iinfo ip) (\<lambda>sin.
       if i_addrs sin i \<noteq> 0 then
         kbind (bfree (i_dev sin) (i_addrs sin i)) (\<lambda>_.
         iset ip (\<lambda>n. n\<lparr>i_addrs := (i_addrs n)(i := 0)\<rparr>))
       else kret ()))) (\<lambda>_.
     kbind (iinfo ip) (\<lambda>sin.
     kbind (if i_addrs sin NDIRECT \<noteq> 0 then
         kbind (bread (i_dev sin) (i_addrs sin NDIRECT)) (\<lambda>bp.
         kbind (kfor 0 NINDIRECT (\<lambda>j.
           kbind (bdata bp) (\<lambda>a.
           if ld32 a (4 * j) \<noteq> 0 then bfree (i_dev sin) (ld32 a (4 * j)) else kret ()))) (\<lambda>_.
         kbind (brelse bp) (\<lambda>_.
         kbind (bfree (i_dev sin) (i_addrs sin NDIRECT)) (\<lambda>_.
         iset ip (\<lambda>n. n\<lparr>i_addrs := (i_addrs n)(NDIRECT := 0)\<rparr>)))))
       else kret ()) (\<lambda>_.
     kbind (iset ip (\<lambda>n. n\<lparr>i_size := 0\<rparr>)) (\<lambda>_.
     sfs_iupdate ip))))"

definition sfs_iput :: "nat \<Rightarrow> ('a fsys_scheme, unit) prog" where
  "sfs_iput ip =
     kbind (iinfo ip) (\<lambda>sin.
     kbind (if i_ref sin = 1 \<and> i_valid sin \<and> i_nlink sin = 0 then
         if i_busy sin then kpanic ''iput busy''
         else
           kbind (iset ip (\<lambda>i. i\<lparr>i_busy := True\<rparr>)) (\<lambda>_.
           kbind (sfs_itrunc ip) (\<lambda>_.
           kbind (iset ip (\<lambda>i. i\<lparr>i_type := 0\<rparr>)) (\<lambda>_.
           kbind (sfs_iupdate ip) (\<lambda>_.
           iset ip (\<lambda>i. i\<lparr>i_busy := False, i_valid := False\<rparr>)))))
       else kret ()) (\<lambda>_.
     iset ip (\<lambda>i. i\<lparr>i_ref := i_ref i - 1\<rparr>)))"

definition sfs_iunlockput :: "nat \<Rightarrow> ('a fsys_scheme, unit) prog" where
  "sfs_iunlockput ip = kbind (sfs_iunlock ip) (\<lambda>_. sfs_iput ip)"

definition sfs_stati :: "nat \<Rightarrow> ('a fsys_scheme, stat) prog" where
  "sfs_stati ip = kbind (iinfo ip) (\<lambda>sin. kret \<lparr>st_type = i_type sin, st_dev = i_dev sin, st_ino = i_inum sin,
     st_nlink = i_nlink sin, st_size = i_size sin, st_fstype = i_fstype sin\<rparr>)"

definition bytes_of :: "bytes \<Rightarrow> nat \<Rightarrow> nat \<Rightarrow> uchar list" where
  \<comment> \<open>the \<open>m\<close> bytes at offset \<open>p\<close>\<close>
  "bytes_of d p m = map (\<lambda>i. d (p + i)) [0..<m]"

definition chunk :: "uint \<Rightarrow> uint \<Rightarrow> uint \<Rightarrow> uint" where
  \<comment> \<open>\<open>m = min(n - tot, BSIZE - off%BSIZE)\<close>\<close>
  "chunk n tot off = min (n - tot) (512 - off mod 512)"

primrec readi_loop :: "nat \<Rightarrow> nat \<Rightarrow> uint \<Rightarrow> uint \<Rightarrow> uint \<Rightarrow> uchar list \<Rightarrow> ('a fsys_scheme, uchar list) prog" where
  "readi_loop 0 ip n tot off dst = (if tot < n then kdiverge else kret dst)"
| "readi_loop (Suc f) ip n tot off dst =
     (if tot < n then
        kbind (iinfo ip) (\<lambda>sin.
        kbind (bmap ip (off div 512)) (\<lambda>addr.
        kbind (bread (i_dev sin) addr) (\<lambda>bp.
        let m = chunk n tot off in
        kbind (bdata bp) (\<lambda>d.
        kbind (brelse bp) (\<lambda>_.
        readi_loop f ip n (tot + m) (off + m) (dst @ bytes_of d (unat (off mod 512)) (unat m)))))))
      else kret dst)"

definition sfs_readi :: "nat \<Rightarrow> uint \<Rightarrow> uint \<Rightarrow> ('a fsys_scheme, int \<times> uchar list) prog" where
  "sfs_readi ip off n =
     kbind (iinfo ip) (\<lambda>sin.
     if i_type sin = T_DEV then
       kbind (kget (\<lambda>s. dev_ok dv_read s (i_major sin))) (\<lambda>ok.
       if \<not> ok then kret (-1, []) else devsw_read (i_major sin) n)
     else if off > i_size sin \<or> off + n < off then kret (-1, [])
     else
       let n = (if off + n > i_size sin then i_size sin - off else n) in
       kbind (readi_loop (unat n) ip n 0 off []) (\<lambda>dst.
       kret (sint n, dst)))"

primrec writei_loop :: "nat \<Rightarrow> nat \<Rightarrow> uchar list \<Rightarrow> uint \<Rightarrow> uint \<Rightarrow> uint \<Rightarrow> ('a fsys_scheme, uint) prog" where
  \<comment> \<open>returns \<open>off\<close>, which the code after the loop looks at\<close>
  "writei_loop 0 ip src n tot off = (if tot < n then kdiverge else kret off)"
| "writei_loop (Suc f) ip src n tot off =
     (if tot < n then
        kbind (iinfo ip) (\<lambda>sin.
        kbind (bmap ip (off div 512)) (\<lambda>addr.
        kbind (bread (i_dev sin) addr) (\<lambda>bp.
        let m = chunk n tot off in
        kbind (bdata bp) (\<lambda>d.
        kbind (bput bp (blit d (unat (off mod 512)) (cview src) (unat tot) (unat m))) (\<lambda>_.
        kbind (log_write bp) (\<lambda>_.
        kbind (brelse bp) (\<lambda>_.
        writei_loop f ip src n (tot + m) (off + m))))))))
      else kret off)"

definition sfs_writei :: "nat \<Rightarrow> uchar list \<Rightarrow> uint \<Rightarrow> uint \<Rightarrow> ('a fsys_scheme, int) prog" where
  "sfs_writei ip src off n =
     kbind (iinfo ip) (\<lambda>sin.
     if i_type sin = T_DEV then
       kbind (kget (\<lambda>s. dev_ok dv_write s (i_major sin))) (\<lambda>ok.
       if \<not> ok then kret (-1) else devsw_write (i_major sin) (take (unat n) src))
     else if off > i_size sin \<or> off + n < off then kret (-1)
     else if off + n > of_nat (MAXFILE * BSIZE) then kret (-1)
     else
       kbind (writei_loop (unat n) ip src n 0 off) (\<lambda>off.
       kbind (iinfo ip) (\<lambda>sin.
       kbind (if n > 0 \<and> off > i_size sin then
           kbind (iset ip (\<lambda>i. i\<lparr>i_size := off\<rparr>)) (\<lambda>_. sfs_iupdate ip)
         else kret ()) (\<lambda>_.
       kret (sint n)))))"

section \<open>Directories\<close>

definition dirents :: "uint \<Rightarrow> nat" where
  \<comment> \<open>the rounds of \<open>for(off = 0; off < size; off += sizeof(de))\<close>\<close>
  "dirents sz = (unat sz + 15) div 16"

definition sfs_dirlookup :: "nat \<Rightarrow> uchar list \<Rightarrow> ('a fsys_scheme, (nat \<times> uint) option) prog" where
  \<comment> \<open>the inode found, with the offset stored through \<open>poff\<close>\<close>
  "sfs_dirlookup dp name =
     kbind (iinfo dp) (\<lambda>sdp.
     if i_type sdp \<noteq> T_DIR then kpanic ''dirlookup not DIR''
     else ksearch 0 (dirents (i_size sdp)) (\<lambda>k.
       kbind (sfs_readi dp (of_nat (16 * k)) 16) (\<lambda>(r, de).
       if r \<noteq> 16 then kpanic ''dirlink read''
       else if de_inum de = 0 then kret None
       else if namecmp (cview name) (de_name de) = 0 then
         kbind (sfs_iget (i_dev sdp) (ucast (de_inum de)) 0) (\<lambda>ip. kret (Some (ip, of_nat (16 * k))))
       else kret None)))"

definition sfs_inumtoname :: "nat \<Rightarrow> uint \<Rightarrow> bytes \<Rightarrow> ('a fsys_scheme, bytes option) prog" where
  \<comment> \<open>the name buffer filled in, or \<open>None\<close> for the return value -1\<close>
  "sfs_inumtoname dp inum name =
     kbind (iinfo dp) (\<lambda>sdp.
     kbind (ksearch 0 (dirents (i_size sdp)) (\<lambda>k.
       kbind (sfs_readi dp (of_nat (16 * k)) 16) (\<lambda>(r, de).
       if r \<noteq> 16 then kret (Some None)
       else if inum = ucast (de_inum de) then kret (Some (Some (safestrcpy name 0 (de_name de) (int DIRSIZ))))
       else kret None))) (\<lambda>r.
     kret (case r of None \<Rightarrow> None | Some x \<Rightarrow> x)))"

definition cstr_upto :: "nat \<Rightarrow> bytes \<Rightarrow> uchar list" where
  \<comment> \<open>the C string in a buffer of \<open>n\<close> bytes\<close>
  "cstr_upto n b = takeWhile (\<lambda>c. c \<noteq> 0) (map b [0..<n])"

primrec sfs_getpath_loop ::
  "nat \<Rightarrow> nat \<Rightarrow> int \<Rightarrow> nat \<Rightarrow> bytes \<Rightarrow> bytes \<Rightarrow> ('a fsys_scheme, (int \<times> nat) option \<times> bytes) prog" where
  \<comment> \<open>\<open>pos\<close>, \<open>ptr\<close> and the buffer when the loop breaks; \<open>None\<close> for the return value -1\<close>
  "sfs_getpath_loop 0 node pos ptr namebuf path = kdiverge"
| "sfs_getpath_loop (Suc f) node pos ptr namebuf path =
     kbind (sfs_dirlookup node [46, 46]) (\<lambda>r.
     case r of
       None \<Rightarrow> kbind (sfs_iput node) (\<lambda>_. kret (None, path))
     | Some (parent, _) \<Rightarrow>
         kbind (iinfo node) (\<lambda>sin.
         kbind (sfs_iput node) (\<lambda>_.
         if node = parent then kbind (sfs_iput node) (\<lambda>_. kret (Some (pos, ptr), path))
         else
           kbind (sfs_inumtoname parent (i_inum sin) namebuf) (\<lambda>r.
           case r of
             None \<Rightarrow> kbind (sfs_iput parent) (\<lambda>_. kret (None, path))
           | Some namebuf \<Rightarrow>
               let namelen = length (cstr_upto DIRSIZ namebuf) + 1 in
               if int namelen > pos then kret (None, path)
               else
                 let ptr = ptr - namelen;
                     path = (blit path ptr namebuf 0 (namelen - 1))(ptr + namelen - 1 := 47)
                 in sfs_getpath_loop f parent (pos - int namelen) ptr namebuf path))))"

definition sfs_getpath :: "nat \<Rightarrow> bytes \<Rightarrow> int \<Rightarrow> ('a fsys_scheme, int \<times> bytes) prog" where
  "sfs_getpath node path maxlen =
     kbind (sfs_idup node) (\<lambda>_.
     kbind (sfs_getpath_loop (Suc (nat maxlen)) node (maxlen - 2) (nat maxlen) zero_bytes path) (\<lambda>(r, path).
     case r of
       None \<Rightarrow> kret (-1, path)
     | Some (pos, ptr) \<Rightarrow>
         let namelen = nat (maxlen - pos - 2);
             path = memmove path 5 ptr namelen;
             path = path(4 := 47, 3 := 58, 2 := 115, 1 := 102, 0 := 115);
             path = path(5 + namelen := 0)
         in kret (0, path)))"

definition mk_dirent :: "uint \<Rightarrow> uchar list \<Rightarrow> uchar list" where
  \<comment> \<open>the 16 bytes of \<open>de\<close> after \<open>strncpy(de.name, name, DIRSIZ); de.inum = inum\<close>\<close>
  "mk_dirent inum name = map (st16 (strncpy zero_bytes 2 (cview name) (int DIRSIZ)) 0 (ucast inum)) [0..<16]"

definition sfs_dirlink :: "nat \<Rightarrow> uchar list \<Rightarrow> nat \<Rightarrow> ('a fsys_scheme, int) prog" where
  "sfs_dirlink dp name originip =
     kbind (sfs_dirlookup dp name) (\<lambda>r.
     case r of
       Some (ip, _) \<Rightarrow> kbind (sfs_iput ip) (\<lambda>_. kret (-1))
     | None \<Rightarrow>
         kbind (iinfo dp) (\<lambda>sdp.
         kbind (ksearch 0 (dirents (i_size sdp)) (\<lambda>k.
           kbind (sfs_readi dp (of_nat (16 * k)) 16) (\<lambda>(r, de).
           if r \<noteq> 16 then kpanic ''dirlink read''
           else if de_inum de = 0 then kret (Some (of_nat (16 * k))) else kret None))) (\<lambda>free.
         kbind (iinfo originip) (\<lambda>sin.
         let off = (case free of Some off \<Rightarrow> off | None \<Rightarrow> of_nat (16 * dirents (i_size sdp))) in
         kbind (sfs_writei dp (mk_dirent (i_inum sin) name) off 16) (\<lambda>w.
         if w \<noteq> 16 then kpanic ''dirlink'' else kret 0)))))"

definition sfs_isdirempty :: "nat \<Rightarrow> ('a fsys_scheme, bool) prog" where
  "sfs_isdirempty dp =
     kbind (iinfo dp) (\<lambda>sdp.
     kbind (ksearch 2 (dirents (i_size sdp) - 2) (\<lambda>k.
       kbind (sfs_readi dp (of_nat (16 * k)) 16) (\<lambda>(r, de).
       if r \<noteq> 16 then kpanic ''isdirempty: readi''
       else kret (if de_inum de \<noteq> 0 then Some () else None)))) (\<lambda>r.
     kret (r = None)))"

definition sfs_link_inc :: "nat \<Rightarrow> ('a fsys_scheme, nat) prog" where
  "sfs_link_inc ip = kbind (iset ip (\<lambda>i. i\<lparr>i_nlink := i_nlink i + 1\<rparr>)) (\<lambda>_. kret ip)"

definition sfs_link_dec :: "nat \<Rightarrow> ('a fsys_scheme, nat) prog" where
  "sfs_link_dec ip = kbind (iset ip (\<lambda>i. i\<lparr>i_nlink := i_nlink i - 1\<rparr>)) (\<lambda>_. kret ip)"

definition sfs_unlink :: "nat \<Rightarrow> uchar list \<Rightarrow> ('a fsys_scheme, int) prog" where
  "sfs_unlink dp name =
     kbind (sfs_ilock dp) (\<lambda>_.
     if namecmp (cview name) (cview [46]) = 0 \<or> namecmp (cview name) (cview [46, 46]) = 0 then
       kbind (sfs_iunlockput dp) (\<lambda>_. kret (-1))
     else
       kbind (sfs_dirlookup dp name) (\<lambda>r.
       case r of
         None \<Rightarrow> kbind (sfs_iunlockput dp) (\<lambda>_. kret (-1))
       | Some (ip, off) \<Rightarrow>
           kbind (sfs_ilock ip) (\<lambda>_.
           kbind (iinfo ip) (\<lambda>sin.
           if sint (i_nlink sin) < 1 then kpanic ''unlink: nlink < 1''
           else
             kbind (if i_type sin = T_DIR then sfs_isdirempty ip else kret True) (\<lambda>empty.
             if \<not> empty then
               kbind (sfs_iunlockput ip) (\<lambda>_. kbind (sfs_iunlockput dp) (\<lambda>_. kret (-1)))
             else
               kbind (sfs_writei dp (replicate 16 0) off 16) (\<lambda>w.
               if w \<noteq> 16 then kpanic ''unlink: writei''
               else
                 kbind (iinfo ip) (\<lambda>sin.
                 kbind (if i_type sin = T_DIR then kbind (sfs_link_dec dp) (\<lambda>_. sfs_iupdate dp) else kret ()) (\<lambda>_.
                 kbind (sfs_iunlockput dp) (\<lambda>_.
                 kbind (sfs_link_dec ip) (\<lambda>_.
                 kbind (sfs_iupdate ip) (\<lambda>_.
                 kbind (sfs_iunlockput ip) (\<lambda>_.
                 kret 0))))))))))))"

definition sfs_create_inode ::
  "nat \<Rightarrow> 16 word \<Rightarrow> 16 word \<Rightarrow> 16 word \<Rightarrow> uchar list \<Rightarrow> ('a fsys_scheme, nat) prog" where
  "sfs_create_inode dirnode type major minor name =
     kbind (iinfo dirnode) (\<lambda>sdirnode.
     kbind (sfs_ialloc dirnode (i_dev sdirnode) type) (\<lambda>ip.
     kbind (sfs_ilock ip) (\<lambda>_.
     kbind (iset ip (\<lambda>i. i\<lparr>i_major := major, i_minor := minor, i_nlink := 1\<rparr>)) (\<lambda>_.
     kbind (sfs_iupdate ip) (\<lambda>_.
     kbind (if type = T_DIR then
         kbind (sfs_link_inc dirnode) (\<lambda>_.
         kbind (sfs_iupdate dirnode) (\<lambda>_.
         kbind (sfs_dirlink ip [46] ip) (\<lambda>r.
         if r < 0 then kpanic ''create dots''
         else kbind (sfs_dirlink ip [46, 46] dirnode) (\<lambda>r.
           if r < 0 then kpanic ''create dots'' else kret ()))))
       else kret ()) (\<lambda>_.
     kbind (sfs_dirlink dirnode name ip) (\<lambda>r.
     if r < 0 then kpanic ''create: dirlink'' else kret ip)))))))"

section \<open>Paths\<close>

definition skipelem :: "uchar list \<Rightarrow> (uchar list \<times> uchar list) option" where
  \<comment> \<open>the element copied into \<open>name\<close>, and the rest of the path\<close>
  "skipelem path =
     (let path = dropWhile (\<lambda>c. c = 47) path in
      if path = [] then None
      else
        let elem = takeWhile (\<lambda>c. c \<noteq> 47) path; rest = dropWhile (\<lambda>c. c \<noteq> 47) path in
        Some (take DIRSIZ elem, dropWhile (\<lambda>c. c = 47) rest))"

primrec namex_loop :: "nat \<Rightarrow> nat \<Rightarrow> uchar list \<Rightarrow> bool \<Rightarrow> uchar list \<Rightarrow> ('a fsys_scheme, nat option \<times> uchar list) prog" where
  "namex_loop 0 ip path nameiparent name = kdiverge"
| "namex_loop (Suc f) ip path nameiparent name =
     (case skipelem path of
        None \<Rightarrow>
          if nameiparent then kbind (sfs_iput ip) (\<lambda>_. kret (None, name)) else kret (Some ip, name)
      | Some (name, path) \<Rightarrow>
          kbind (sfs_ilock ip) (\<lambda>_.
          kbind (iinfo ip) (\<lambda>sinp.
          if i_type sinp \<noteq> T_DIR then kbind (sfs_iunlockput ip) (\<lambda>_. kret (None, name))
          else if nameiparent \<and> path = [] then kbind (sfs_iunlock ip) (\<lambda>_. kret (Some ip, name))
          else
            kbind (sfs_dirlookup ip name) (\<lambda>next.
            case next of
              None \<Rightarrow> kbind (sfs_iunlockput ip) (\<lambda>_. kret (None, name))
            | Some (next, _) \<Rightarrow>
                kbind (sfs_iunlockput ip) (\<lambda>_.
                namex_loop f next path nameiparent name)))))"

definition namex :: "nat \<Rightarrow> uchar list \<Rightarrow> bool \<Rightarrow> ('a fsys_scheme, nat option \<times> uchar list) prog" where
  "namex ip path nameiparent = namex_loop (Suc (length path)) ip path nameiparent []"

definition sfs_namei :: "nat \<Rightarrow> uchar list \<Rightarrow> ('a fsys_scheme, nat option) prog" where
  "sfs_namei node path = kbind (namex node path False) (\<lambda>(ip, _). kret ip)"

definition sfs_nameiparent :: "nat \<Rightarrow> uchar list \<Rightarrow> ('a fsys_scheme, nat option \<times> uchar list) prog" where
  "sfs_nameiparent node path = namex node path True"

definition sfs_opendir :: "nat \<Rightarrow> uint \<Rightarrow> ('a fsys_scheme, int) prog" where
  "sfs_opendir node open_flags = kret (if open_flags \<noteq> 0 then -1 else 0)"

definition sfs_openfile :: "nat \<Rightarrow> uint \<Rightarrow> ('a fsys_scheme, int) prog" where
  "sfs_openfile node open_flags = kret 0"

definition sfs_gettype :: "nat \<Rightarrow> ('a fsys_scheme, 16 word) prog" where
  "sfs_gettype node = kbind (iinfo node) (\<lambda>i. kret (i_type i))"

definition sfs_getdev :: "nat \<Rightarrow> ('a fsys_scheme, uint) prog" where
  "sfs_getdev node = kbind (iinfo node) (\<lambda>i. kret (i_dev i))"

definition sfs_getnlink :: "nat \<Rightarrow> ('a fsys_scheme, 16 word) prog" where
  "sfs_getnlink node = kbind (iinfo node) (\<lambda>i. kret (i_nlink i))"

definition sfs_getmajor :: "nat \<Rightarrow> ('a fsys_scheme, 16 word) prog" where
  "sfs_getmajor node = kbind (iinfo node) (\<lambda>i. kret (i_major i))"

definition sfs_getminor :: "nat \<Rightarrow> ('a fsys_scheme, 16 word) prog" where
  "sfs_getminor node = kbind (iinfo node) (\<lambda>i. kret (i_minor i))"

definition sfs_get_root :: "('a fsys_scheme, nat) prog" where
  "sfs_get_root = sfs_iget ROOTDEV ROOTINO T_DIR"

end
