(* ===== verification/Sfs_Blocks.thy ===== *)
theory Sfs_Blocks
  imports Sfs
begin

text \<open>
  Block allocation in the simple file system. \<open>V\<close> is what readers find on the disks
  (\<open>lview\<close>). The bitmap says which blocks are in use; \<open>fs_ok\<close> is the layout \<open>mkfs\<close> gives a disk:
  the super block, the inode blocks and the bitmap are never free, and the log is the last \<open>nlog\<close>
  blocks. The log's blocks are not marked in use by \<open>mkfs\<close>: \<open>balloc\<close> stays away from them as long as
  some block before the log is free, because it takes the first free block. \<open>balloc\<close> and \<open>bfree\<close> are
  shown to return, inside a transaction with room left, and to change the standing of one block.
\<close>


lemma unlocked_held_none: "locked s = {} \<Longrightarrow> \<not> held s i d x"
  by (auto simp: locked_def held_def)

lemma wp_readsb_log:
  assumes "linv s" "lusable s dev 1" "\<forall>i. \<not> held s i dev 1" "logs.has_buffer s"
    and "\<And>s'. logs.spends s s' {} \<Longrightarrow> lview s' = lview s \<Longrightarrow> Q (sb_of (lview s dev 1)) s'"
  shows "wp (readsb dev) Q s"
  unfolding readsb_def wp_kbind_fun
  by (rule logs.wp_read_sector[OF assms(1-4)]) (simp add: wp_kret assms(5))

lemma wp_bzero:
  assumes "linv s" "lusable s dev b" "\<forall>i. \<not> held s i dev b" "logs.affords s K m (Suc h)"
    and "\<And>s'. logs.spends s s' {(dev, b)} \<Longrightarrow> lview s' = dput dev b zero_bytes (lview s) \<Longrightarrow> Q () s'"
  shows "wp (bzero dev b) Q s"
  unfolding bzero_def wp_kbind_fun
  by (rule logs.wp_write_sector[OF assms(1-4)]) (simp add: assms(5))

section \<open>The bitmap\<close>

lemma bit_free_iff: "bit_free d bi \<longleftrightarrow> \<not> bit (d (bi div 8)) (bi mod 8)"
  by (simp add: bit_free_def bit_of_def and_exp_eq_0_iff_not_bit)

lemma mod_div_8: "bi \<noteq> bj \<Longrightarrow> bi div 8 = bj div 8 \<Longrightarrow> bi mod 8 \<noteq> bj mod (8::nat)"
  by (metis div_mult_mod_eq)

lemma bit_free_set: "bit_free (bit_set d bi) bj \<longleftrightarrow> bit_free d bj \<and> bj \<noteq> bi"
  using mod_div_8[of bi bj] by (auto simp: bit_free_iff bit_set_def bit_of_def bit_simps)

lemma bit_free_clear: "bit_free (bit_clear d bi) bj \<longleftrightarrow> bit_free d bj \<or> bj = bi"
  using mod_div_8[of bi bj] mod_div_8[of bj bi] by (auto simp: bit_free_iff bit_clear_def bit_of_def bit_simps)

lemma bfind_Some: "bfind d b sz bi n = Some r \<Longrightarrow> bi \<le> r \<and> r < bi + n \<and> b + r < sz \<and> bit_free d r"
  by (induction n arbitrary: bi) (auto split: if_splits, fastforce+)

lemma bfind_first: "bfind d b sz bi n = Some r \<Longrightarrow> bi \<le> r' \<Longrightarrow> bit_free d r' \<Longrightarrow> r \<le> r'"
proof (induction n arbitrary: bi)
  case (Suc n)
  then show ?case by (cases "r' = bi") (auto split: if_splits)
qed simp

lemma bfind_None: "bfind d b sz bi n = None \<Longrightarrow> bi \<le> r \<Longrightarrow> r < bi + n \<Longrightarrow> b + r < sz \<Longrightarrow> \<not> bit_free d r"
proof (induction n arbitrary: bi)
  case (Suc n)
  then show ?case by (cases "r = bi") (auto split: if_splits)
qed simp

abbreviation sblk :: "dmap \<Rightarrow> uint \<Rightarrow> sfs_super" where
  "sblk V dev \<equiv> sb_of (V dev 1)"

abbreviation fs_blocks :: "sfs_super \<Rightarrow> nat" where
  "fs_blocks sb \<equiv> unat (sb_size sb)"

definition fs_data :: "sfs_super \<Rightarrow> nat" where
  \<comment> \<open>the blocks before the log\<close>
  "fs_data sb = fs_blocks sb - unat (sb_nlog sb)"

definition bitmap_sector :: "sfs_super \<Rightarrow> uint \<Rightarrow> uint" where
  "bitmap_sector sb b = BBLOCK b (sb_ninodes sb)"

definition in_use :: "dmap \<Rightarrow> uint \<Rightarrow> uint \<Rightarrow> bool" where
  "in_use V dev b \<longleftrightarrow> \<not> bit_free (V dev (bitmap_sector (sblk V dev) b)) (unat b mod SFSBPB)"

definition bitmap_area :: "sfs_super \<Rightarrow> uint \<Rightarrow> (uint \<times> uint) set" where
  "bitmap_area sb dev = {(dev, bitmap_sector sb b) | b. unat b < fs_blocks sb}"

text \<open>Blocks for file contents: not the super block, an inode block or part of the bitmap.\<close>

definition data_block :: "sfs_super \<Rightarrow> uint \<Rightarrow> uint \<Rightarrow> bool" where
  "data_block sb dev b \<longleftrightarrow> unat b < fs_data sb \<and> b \<noteq> 0 \<and> b \<noteq> 1 \<and> (dev, b) \<notin> bitmap_area sb dev \<and>
     (\<forall>i. unat i < unat (sb_ninodes sb) \<longrightarrow> b \<noteq> IBLOCK i)"

definition fs_ok :: "'a log_scheme \<Rightarrow> dmap \<Rightarrow> uint \<Rightarrow> bool" where
  "fs_ok s V dev \<longleftrightarrow> fs_blocks (sblk V dev) + SFSBPB \<le> 2 ^ 32 \<and> lusable s dev 1 \<and> (dev, 1) \<notin> bitmap_area (sblk V dev) dev \<and>
     (\<forall>b. unat b < fs_blocks (sblk V dev) \<longrightarrow> lusable s dev (bitmap_sector (sblk V dev) b)) \<and>
     (\<forall>b. unat b < fs_data (sblk V dev) \<longrightarrow> \<not> in_use V dev b \<longrightarrow> data_block (sblk V dev) dev b) \<and>
     (\<forall>b. data_block (sblk V dev) dev b \<longrightarrow> lusable s dev b)"

lemma BBLOCK_page:
  assumes "unat b div SFSBPB = k" "k * SFSBPB < 2 ^ 32"
  shows "BBLOCK (of_nat (k * SFSBPB)) n = BBLOCK b n"
proof -
  have "unat (of_nat (k * SFSBPB) :: uint) = k * SFSBPB" using assms(2) by (intro unat_of_nat32) simp
  then have "unat (of_nat (k * SFSBPB) div 4096 :: uint) = unat (b div 4096)"
    using assms(1) unfolding unat_div by (simp add: SFSBPB_def)
  then have "of_nat (k * SFSBPB) div 4096 = b div (4096 :: uint)" by (simp add: word_unat_eq_iff)
  then show ?thesis by (simp add: BBLOCK_def)
qed

text \<open>The contents after block \<open>b\<close> is taken.\<close>

definition mark_used :: "dmap \<Rightarrow> uint \<Rightarrow> uint \<Rightarrow> dmap" where
  "mark_used V dev b = dput dev (bitmap_sector (sblk V dev) b) (bit_set (V dev (bitmap_sector (sblk V dev) b)) (unat b mod SFSBPB)) V"

definition alloced :: "dmap \<Rightarrow> uint \<Rightarrow> uint \<Rightarrow> dmap" where
  "alloced V dev b = dput dev b zero_bytes (mark_used V dev b)"

lemma mark_used_sb: "(dev, 1) \<notin> bitmap_area (sblk V dev) dev \<Longrightarrow> unat b < fs_blocks (sblk V dev) \<Longrightarrow> mark_used V dev b dev 1 = V dev 1"
  by (auto simp: mark_used_def bitmap_area_def dput_def)

text \<open>No buffer is held that the allocator needs.\<close>

definition alloc_unheld :: "'a log_scheme \<Rightarrow> uint \<Rightarrow> bool" where
  "alloc_unheld s dev \<longleftrightarrow> (\<forall>i x. held s i dev x \<longrightarrow> x \<noteq> 1 \<and> (dev, x) \<notin> bitmap_area (sblk (lview s) dev) dev \<and>
     (unat x < fs_data (sblk (lview s) dev) \<longrightarrow> in_use (lview s) dev x))"

definition alloc_result :: "'a log_scheme \<Rightarrow> uint \<Rightarrow> uint \<Rightarrow> 'a log_scheme \<Rightarrow> bool" where
  "alloc_result s dev b s' \<longleftrightarrow> \<not> in_use (lview s) dev b \<and> data_block (sblk (lview s) dev) dev b \<and>
     logs.spends s s' {(dev, bitmap_sector (sblk (lview s) dev) b), (dev, b)} \<and> lview s' = alloced (lview s) dev b"

lemma wp_balloc_page:
  assumes inv: "linv s" and ok: "fs_ok s (lview s) dev" and un: "alloc_unheld s dev"
    and aff: "logs.affords s K m (Suc h)" "bitmap_area (sblk (lview s) dev) dev \<subseteq> K \<or> 0 < m"
    and k: "k * SFSBPB < fs_blocks (sblk (lview s) dev)"
    and some: "unat f < fs_data (sblk (lview s) dev)" "\<not> in_use (lview s) dev f" "k * SFSBPB \<le> unat f"
  shows "wp (balloc_page dev (sb_of (lview s dev 1)) k) (\<lambda>r s'. case r of Some b \<Rightarrow> alloc_result s dev b s'
     | None \<Rightarrow> logs.spends s s' {} \<and> lview s' = lview s \<and>
         (\<forall>b. unat b < fs_blocks (sblk (lview s) dev) \<and> unat b div SFSBPB = k \<longrightarrow> in_use (lview s) dev b)) s"
    (is "wp _ ?Q s")
proof -
  let ?V = "lview s" and ?sb = "sb_of (lview s dev 1)" and ?b = "k * SFSBPB"
  let ?n = "unat (sb_size ?sb)" and ?x = "BBLOCK (of_nat ?b) (sb_ninodes ?sb)"
  have n: "fs_blocks (sblk ?V dev) = ?n" by simp
  have nb: "?n + SFSBPB \<le> 2 ^ 32" using ok n by (simp add: fs_ok_def)
  have page: "bitmap_sector (sblk ?V dev) b = ?x" if "unat b div SFSBPB = k" for b
    using BBLOCK_page[OF that] k n nb by (simp add: bitmap_sector_def)
  have ub: "unat (of_nat (?b + bi) :: uint) = ?b + bi" if "bi < SFSBPB" for bi
    using that nb k n by (intro unat_of_nat32) simp
  have pos: "0 < SFSBPB" by (simp add: SFSBPB_def)
  have b0: "unat (of_nat ?b :: uint) = ?b" using ub[OF pos] by simp
  have x: "bitmap_sector (sblk ?V dev) (of_nat ?b) = ?x" by (rule page) (simp only: b0 nonzero_mult_div_cancel_right[OF pos[THEN less_imp_neq, symmetric]])
  have xa: "(dev, ?x) \<in> bitmap_area (sblk ?V dev) dev" and ux: "lusable s dev ?x"
    using b0 k ok unfolding bitmap_area_def fs_ok_def x[symmetric] by auto
  have hx: "\<forall>i. \<not> held s i dev ?x" using un xa by (auto simp: alloc_unheld_def)
  show ?thesis
    unfolding balloc_page_def Let_def wp_kbind_fun
  proof (rule logs.wp_rd[OF inv ux hx logs.affords_buffer[OF aff(1)]], rule logs.wp_dat)
    fix bp t
    assume tk: "logs.takes s t bp dev ?x"
    then show t1: "logs.spends t t {}" by (simp add: logs.takes_def logs.spends_refl)
    have t: "lview t = ?V" "logs.affords t K m h"
      using tk logs.affords_takes[OF aff(1) tk] by (auto simp: logs.takes_def)
    show "wp (case bfind (lview t dev ?x) ?b ?n 0 SFSBPB of
         Some bi \<Rightarrow> kbind (bput bp (bit_set (lview t dev ?x) bi)) (\<lambda>_. kbind (log_write bp) (\<lambda>_. kbind (brelse bp) (\<lambda>_.
           kbind (bzero dev (of_nat (?b + bi))) (\<lambda>_. kret (Some (of_nat (?b + bi)))))))
       | None \<Rightarrow> kbind (brelse bp) (\<lambda>_. kret None)) ?Q t"
    proof (cases "bfind (?V dev ?x) ?b ?n 0 SFSBPB")
      case None
      have "in_use ?V dev b" if "unat b < fs_blocks (sblk ?V dev)" "unat b div SFSBPB = k" for b
        using bfind_None[OF None, of "unat b mod SFSBPB"] that page[OF that(2)] n
        by (auto simp: in_use_def SFSBPB_def)
      then show ?thesis
        unfolding t(1) None option.case wp_kbind_fun
        by (intro logs.wp_rel[OF tk t1]) (simp add: wp_kret t(1))
    next
      case (Some bi)
      let ?c = "of_nat (?b + bi) :: uint"
      have bi: "bi < SFSBPB" "?b + bi < ?n" "bit_free (?V dev ?x) bi" using bfind_Some[OF Some] by auto
      have c: "unat ?c = ?b + bi" "unat ?c div SFSBPB = k" "unat ?c mod SFSBPB = bi"
        using ub[OF bi(1)] bi(1) by (auto simp: SFSBPB_def)
      then have xc: "bitmap_sector (sblk ?V dev) ?c = ?x" using page by blast
      have "unat ?c \<le> unat f"
      proof (cases "unat f div SFSBPB = k")
        case True
        then have "bi \<le> unat f mod SFSBPB"
          using some(2) page by (intro bfind_first[OF Some]) (auto simp: in_use_def)
        then show ?thesis using c(1) True by (metis add_le_mono1 add.commute mult.commute mult_div_mod_eq)
      next
        case False
        then have "Suc k \<le> unat f div SFSBPB"
          using some(3) div_le_mono[of "k * SFSBPB" "unat f" SFSBPB] pos by simp
        then have "Suc k * SFSBPB \<le> unat f" by (metis div_times_less_eq_dividend le_trans mult_le_mono1)
        then show ?thesis using c(1) bi(1) by simp
      qed
      then have fr: "\<not> in_use ?V dev ?c" "unat ?c < fs_data (sblk ?V dev)" using bi c xc some(1) by (auto simp: in_use_def)
      then have dc: "data_block (sblk ?V dev) dev ?c" "lusable s dev ?c" "\<forall>i. \<not> held s i dev ?c"
        using ok un by (auto simp: fs_ok_def alloc_unheld_def)
      show ?thesis
        unfolding t(1) Some option.case wp_kbind_fun
      proof (rule logs.wp_put_wr[OF tk ux t1 t(2)], rule logs.wp_rel[OF tk], assumption)
        fix s1 s2
        assume s1: "lview s1 = dput dev ?x (bit_set (?V dev ?x) bi) (lview t)"
          and s2: "logs.spends s s2 (insert (dev, ?x) {})" "lview s2 = lview s1"
        obtain m' where a2: "logs.affords s2 K m' (Suc h)"
          using logs.affords_spends_in[OF aff(1) s2(1)] logs.affords_spends_1[OF aff(1) s2(1)] aff(2) xa by auto
        show "wp (bzero dev ?c) (\<lambda>_. wp (kret (Some ?c)) ?Q) s2"
        proof (rule wp_bzero[OF logs.spends_inv[OF s2(1)] _ _ a2])
          show "lusable s2 dev ?c" "\<forall>i. \<not> held s2 i dev ?c"
            using dc logs.spends_usable[OF s2(1)] logs.spends_lk[OF s2(1)] by auto
          fix s3
          assume s3: "logs.spends s2 s3 {(dev, ?c)}" "lview s3 = dput dev ?c zero_bytes (lview s2)"
          have "logs.spends s s3 {(dev, ?x), (dev, ?c)}"
            using logs.spends_trans[OF s2(1) s3(1)] by (simp add: insert_commute)
          then have "alloc_result s dev ?c s3"
            using fr dc s1 s2 s3 t(1) xc c(3) by (simp add: alloc_result_def alloced_def mark_used_def)
          then show "wp (kret (Some ?c)) ?Q s3" by (simp add: wp_kret)
        qed
      qed
    qed
  qed
qed

lemma alloc_frame:
  assumes sp: "logs.spends s t {}" and v: "lview t = lview s"
  shows "fs_ok t (lview t) dev = fs_ok s (lview s) dev" "alloc_unheld t dev = alloc_unheld s dev"
    "alloc_result t dev b s' \<Longrightarrow> alloc_result s dev b s'"
  using logs.spends_usable[OF sp] logs.spends_lk[OF sp] v logs.spends_trans[OF sp]
  by (auto simp: fs_ok_def alloc_unheld_def alloc_result_def)

lemma wp_balloc:
  assumes inv: "linv s" and ok: "fs_ok s (lview s) dev" and un: "alloc_unheld s dev"
    and aff: "logs.affords s K m (Suc h)" "bitmap_area (sblk (lview s) dev) dev \<subseteq> K \<or> 0 < m"
    and some: "unat f < fs_data (sblk (lview s) dev)" "\<not> in_use (lview s) dev f"
    and Q: "\<And>b s'. alloc_result s dev b s' \<Longrightarrow> Q b s'"
  shows "wp (balloc dev) Q s"
proof -
  let ?V = "lview s" and ?sb = "sb_of (lview s dev 1)"
  let ?n = "unat (sb_size ?sb)"
  have n: "fs_blocks (sblk ?V dev) = ?n" by simp
  have us: "lusable s dev 1" using ok by (simp add: fs_ok_def)
  define I where "I k t \<longleftrightarrow> logs.spends s t {} \<and> lview t = ?V \<and>
     (\<forall>b. unat b < ?n \<longrightarrow> unat b < k * SFSBPB \<longrightarrow> in_use ?V dev b)" for k t
  show ?thesis
    unfolding balloc_def wp_kbind_fun
  proof (rule wp_readsb_log[OF inv us _ logs.affords_buffer[OF aff(1)]], goal_cases)
    case 1
    then show ?case using un by (auto simp: alloc_unheld_def)
  next
    case (2 s1)
    show ?case
    proof (rule wp_ksearch[where I = I], goal_cases)
      case 1
      then show ?case using 2 by (simp add: I_def)
    next
      case (2 k t)
      then have t: "logs.spends s t {}" "lview t = ?V" and k: "k * SFSBPB < fs_blocks (sblk (lview t) dev)"
        by (auto simp: I_def SFSBPB_def )
      note fr = alloc_frame[OF t]
      have f: "unat f < ?n" using some(1) by (simp add: fs_data_def)
      then have k': "k * SFSBPB \<le> unat f" using some(2) 2 by (auto simp: I_def not_less[symmetric])
      have "wp (balloc_page dev (sb_of (lview t dev 1)) k) (\<lambda>r s'. case r of Some b \<Rightarrow> alloc_result t dev b s'
         | None \<Rightarrow> logs.spends t s' {} \<and> lview s' = lview t \<and>
         (\<forall>b. unat b < fs_blocks (sblk (lview t) dev) \<and> unat b div SFSBPB = k \<longrightarrow> in_use (lview t) dev b)) t"
        using logs.affords_spends_in[OF aff(1) t(1)] aff(2) ok un k t(2) fr(1,2)[of dev] some f k'
        by (intro wp_balloc_page[OF logs.spends_inv[OF t(1)]]) auto
      then show ?case
        unfolding t(2)
      proof (rule wp_mono, goal_cases)
        case (1 r s')
        show ?case
        proof (cases r)
          case None
          have "unat b div SFSBPB = k" if "unat b < SFSBPB * Suc k" "\<not> unat b < k * SFSBPB" for b :: uint
            using that by (auto simp: SFSBPB_def)
          then show ?thesis using 1 2 None logs.spends_trans[OF t(1), of s' "{}"] n
            by (auto simp: I_def mult.commute)
        next
          case (Some b)
          then show ?thesis using 1 Q fr(3) by (simp add: wp_kret)
        qed
      qed
    next
      case (3 t)
      then have "in_use ?V dev b" if "unat b < ?n" for b
        using that by (auto simp: I_def SFSBPB_def)
      then show ?case using some by (simp add: fs_data_def)
    qed
  qed
qed


section \<open>Allocation and the bitmap\<close>

lemma bitmap_in_area: "unat b < fs_blocks sb \<Longrightarrow> (dev, bitmap_sector sb b) \<in> bitmap_area sb dev"
  by (auto simp: bitmap_area_def)

lemma data_not_bitmap: "data_block sb dev b \<Longrightarrow> unat c < fs_blocks sb \<Longrightarrow> bitmap_sector sb c \<noteq> b"
  using bitmap_in_area[of c sb dev] by (auto simp: data_block_def)

lemma bitmap_pos:
  assumes "BBLOCK b n = BBLOCK c n" "unat b mod SFSBPB = unat c mod SFSBPB"
  shows "b = c"
proof -
  have "b div 4096 = c div 4096" using assms(1) by (simp add: BBLOCK_def)
  then have "unat (b div 4096) = unat (c div 4096)" by simp
  then have "unat b div 4096 = unat c div 4096" unfolding unat_div by simp
  then have "unat b = unat c" using assms(2) by (metis SFSBPB_def div_mult_mod_eq)
  then show ?thesis by (simp add: word_unat_eq_iff)
qed

text \<open>Taking and freeing a block changes the standing of that block only.\<close>

lemma alloced_facts:
  assumes ok: "fs_ok s V dev" and b: "data_block (sblk V dev) dev b"
  shows "alloced V dev b dev 1 = V dev 1"
    and "unat c < fs_blocks (sblk V dev) \<Longrightarrow> in_use (alloced V dev b) dev c \<longleftrightarrow> in_use V dev c \<or> c = b"
    and "alloced V dev b dev b = zero_bytes"
    and "(d, x) \<notin> bitmap_area (sblk V dev) dev \<Longrightarrow> (d, x) \<noteq> (dev, b) \<Longrightarrow> alloced V dev b d x = V d x"
proof -
  have b1: "b \<noteq> 1" "unat b < fs_blocks (sblk V dev)" using b by (auto simp: data_block_def fs_data_def)
  have "bitmap_sector (sblk V dev) b \<noteq> 1" using ok bitmap_in_area[OF b1(2)] by (auto simp: fs_ok_def)
  then show sb: "alloced V dev b dev 1 = V dev 1" using b1 by (simp add: alloced_def mark_used_def)
  show "alloced V dev b dev b = zero_bytes" by (simp add: alloced_def)
  show "alloced V dev b d x = V d x" if "(d, x) \<notin> bitmap_area (sblk V dev) dev" "(d, x) \<noteq> (dev, b)"
    using that bitmap_in_area[OF b1(2)] by (auto simp: alloced_def mark_used_def dput_def)
  show "in_use (alloced V dev b) dev c \<longleftrightarrow> in_use V dev c \<or> c = b" if c: "unat c < fs_blocks (sblk V dev)"
  proof (cases "bitmap_sector (sblk V dev) c = bitmap_sector (sblk V dev) b")
    case True
    then have "unat c mod SFSBPB = unat b mod SFSBPB \<longleftrightarrow> c = b"
      using bitmap_pos[of c _ b] by (auto simp: bitmap_sector_def)
    then show ?thesis
      using True data_not_bitmap[OF b b1(2)] sb
      by (auto simp: in_use_def alloced_def mark_used_def bit_free_set)
  next
    case False
    then show ?thesis
      using data_not_bitmap[OF b c] sb
      by (auto simp: in_use_def alloced_def mark_used_def)
  qed
qed

lemma fs_ok_alloced:
  assumes ok: "fs_ok s V dev" and b: "data_block (sblk V dev) dev b" and u: "lusable s' = lusable s"
  shows "fs_ok s' (alloced V dev b) dev"
  using ok alloced_facts(1,2)[OF ok b] u
  by (auto simp: fs_ok_def fs_data_def)


section \<open>Freeing\<close>

definition freed :: "dmap \<Rightarrow> uint \<Rightarrow> uint \<Rightarrow> dmap" where
  "freed V dev b = dput dev (bitmap_sector (sblk V dev) b)
     (bit_clear (V dev (bitmap_sector (sblk V dev) b)) (unat b mod SFSBPB)) V"

lemma wp_bfree:
  assumes inv: "linv s" and ok: "fs_ok s (lview s) dev" and un: "alloc_unheld s dev"
    and aff: "logs.affords s K m (Suc h)" and b: "unat b < fs_blocks (sblk (lview s) dev)" "in_use (lview s) dev b"
    and Q: "\<And>s'. logs.spends s s' {(dev, bitmap_sector (sblk (lview s) dev) b)} \<Longrightarrow> lview s' = freed (lview s) dev b \<Longrightarrow> Q () s'"
  shows "wp (bfree dev b) Q s"
proof -
  let ?x = "bitmap_sector (sblk (lview s) dev) b"
  have u1: "lusable s dev 1" "lusable s dev ?x" using ok b by (auto simp: fs_ok_def)
  have h1: "\<forall>i. \<not> held s i dev 1" "\<forall>i. \<not> held s i dev ?x"
    using un bitmap_in_area[OF b(1)] by (auto simp: alloc_unheld_def)
  show ?thesis
    unfolding bfree_def Let_def wp_kbind_fun
  proof (rule wp_readsb_log[OF inv u1(1) h1(1) logs.affords_buffer[OF aff]], goal_cases)
    case (1 s1)
    have a1: "logs.affords s1 K m (Suc h)" using logs.affords_spends_in[OF aff 1(1)] by simp
    have u: "linv s1" "lusable s1 dev ?x" "\<forall>i. \<not> held s1 i dev ?x"
      using u1 h1 1(1) logs.spends_inv logs.spends_usable logs.spends_lk by metis+
    show ?case
      unfolding bitmap_sector_def[symmetric]
    proof (rule logs.wp_rd[OF u logs.affords_buffer[OF a1]], rule logs.wp_dat[where X = "{}"], assumption, goal_cases)
      case (1 bp t)
      then show ?case by (simp add: logs.takes_def logs.spends_refl)
    next
      case (2 bp t)
      then have t: "logs.spends t t {}" "lview t = lview s" "logs.affords t K m h"
        using 1 logs.affords_takes[OF a1 2] by (auto simp: logs.takes_def logs.spends_refl)
      have used: "\<not> bit_free (lview s dev ?x) (unat b mod SFSBPB)" using b by (simp add: in_use_def)
      show ?case
        unfolding t(2) if_not_P[OF used] wp_kbind_fun
      proof (rule logs.wp_put_wr[OF 2 u(2) t(1,3)], rule logs.wp_rel[OF 2], assumption, goal_cases)
        case (1 s3 s4)
        then show ?case
          using Q[of s4] t(2) logs.spends_trans[OF \<open>logs.spends s s1 {}\<close>, of s4] by (simp add: freed_def)
      qed
    qed
  qed
qed


section \<open>Properties\<close>

lemma unlocked_alloc: "locked s = {} \<Longrightarrow> alloc_unheld s dev"
  by (simp add: alloc_unheld_def unlocked_held_none)

lemma affords_unlocked:
  assumes "linv s" "log_busy s" "locked s = {}" "lh_n s + int m + 1 < log_size s" "m + h < 10 - nat (lh_n s)"
  shows "logs.affords s {} m h"
  using assms linv_pinned_eq[OF assms(1)] linv_n[OF assms(1)] unfolding logs.affords_def
  by (auto simp: NBUF_def log_room_def)

text \<open>C10: inside a transaction with room for two more sectors, if some block before the log is free
  then \<open>balloc\<close> returns. The block it returns was free and is a data block; it is now in use and
  zero, every other block keeps its standing, nothing outside the bitmap and that block changes,
  and the layout of the disk is intact.\<close>

theorem balloc_fresh:
  assumes "linv s" "log_busy s" "locked s = {}" "lh_n s + 2 < log_size s" "fs_ok s (lview s) dev"
    and f: "unat f < fs_data (sblk (lview s) dev)" "\<not> in_use (lview s) dev f"
  shows "wp (balloc dev) (\<lambda>b s'. linv s' \<and> locked s' = {} \<and> fs_ok s' (lview s') dev \<and>
     \<not> in_use (lview s) dev b \<and> data_block (sblk (lview s) dev) dev b \<and> lview s' dev b = zero_bytes \<and>
     (\<forall>c. unat c < fs_blocks (sblk (lview s) dev) \<longrightarrow> in_use (lview s') dev c = (in_use (lview s) dev c \<or> c = b)) \<and>
     (\<forall>d x. (d, x) \<notin> bitmap_area (sblk (lview s) dev) dev \<and> (d, x) \<noteq> (dev, b) \<longrightarrow> lview s' d x = lview s d x)) s"
proof -
  have "int LOGSIZE = 10" by (simp add: LOGSIZE_def)
  then have aff: "logs.affords s {} 1 (Suc 0)"
    using assms linv_geom[OF assms(1)] linv_n[OF assms(1)] by (intro affords_unlocked) (auto simp: log_geom_def)
  show ?thesis
  proof (rule wp_balloc[OF assms(1,5) unlocked_alloc[OF assms(3)] aff _ f], goal_cases)
    case (2 b s')
    then have r: "\<not> in_use (lview s) dev b" "data_block (sblk (lview s) dev) dev b" "lview s' = alloced (lview s) dev b"
      and sp: "logs.spends s s' {(dev, bitmap_sector (sblk (lview s) dev) b), (dev, b)}"
      by (auto simp: alloc_result_def)
    have "locked s' = {}" using unlocked_held[OF logs.spends_lk[OF sp]] assms(3) by simp
    then show ?case
      using r logs.spends_inv[OF sp] fs_ok_alloced[OF assms(5) r(2) logs.spends_usable[OF sp]] alloced_facts[OF assms(5) r(2)]
      by auto
  qed simp
qed

text \<open>C17: freeing a block that is already free is caught: \<open>bfree\<close> panics.\<close>

theorem bfree_twice:
  assumes "linv s" "log_busy s" "locked s = {}" "lh_n s + 1 < log_size s" "fs_ok s (lview s) dev"
    and "unat b < fs_blocks (sblk (lview s) dev)" "\<not> in_use (lview s) dev b"
  shows "bfree dev b s = Panic ''freeing free block''"
proof -
  let ?x = "bitmap_sector (sblk (lview s) dev) b"
  have "int LOGSIZE = 10" by (simp add: LOGSIZE_def)
  then have aff: "logs.affords s {} 0 0"
    using assms linv_geom[OF assms(1)] linv_n[OF assms(1)] by (intro affords_unlocked) (auto simp: log_geom_def)
  have u: "lusable s dev 1" "lusable s dev ?x" using assms by (auto simp: fs_ok_def)
  have "wp (readsb dev) (\<lambda>sb. wp (bread dev ?x) (\<lambda>bp. wp (bdata bp) (\<lambda>d s'. sb = sblk (lview s) dev \<and> d = lview s dev ?x))) s"
  proof (rule wp_readsb_log[OF assms(1) u(1) _ logs.affords_buffer[OF aff]], goal_cases)
    case (2 s1)
    have "linv s1" "lusable s1 dev ?x" "\<forall>i. \<not> held s1 i dev ?x"
      using u 2(1) unlocked_held_none[OF assms(3)] logs.spends_inv logs.spends_usable logs.spends_lk by metis+
    then show ?case
    proof (rule logs.wp_rd[OF _ _ _ logs.buffer_spends[OF logs.affords_buffer[OF aff] 2(1)]], goal_cases)
      case (1 bp t)
      then have "logs.spends t t {}" "lview t = lview s"
        using \<open>lview s1 = lview s\<close> by (auto simp: logs.takes_def logs.spends_refl)
      then show ?case by (intro logs.wp_dat[OF 1]) auto
    qed
  qed (simp add: unlocked_held_none[OF assms(3)])
  then show ?thesis
    using assms(7) by (auto simp: wp_Ret bfree_def kbind_def Let_def in_use_def bitmap_sector_def kpanic_def)
qed

text \<open>A small disk in a running transaction: the one of \<open>demo_log\<close>, with its first 30 blocks in use.\<close>

definition demo_bitmap :: bytes where
  "demo_bitmap = (\<lambda>i. if i < 3 then 0xFF else if i = 3 then 0x3F else 0)"

definition demo_ok :: "dmap \<Rightarrow> bool" where
  "demo_ok D \<longleftrightarrow> D ROOTDEV 1 = demo_disk ROOTDEV 1 \<and> D ROOTDEV 28 = demo_bitmap \<and>
     (\<forall>x. 990 \<le> unat x \<longrightarrow> D ROOTDEV x = zero_bytes)"

definition demo_fs :: "dmap \<Rightarrow> 'a \<Rightarrow> 'a log_scheme" where
  "demo_fs D m = \<lparr>disk = D,
     bufs = \<lambda>_. \<lparr>b_busy = False, b_valid = False, b_dirty = False, b_dev = nodev, b_sector = 0, b_data = zero_bytes\<rparr>,
     lru = rev [0..<NBUF], havedisk1 = True, havedisk2 = True, dwrites = [], image = D,
     log_start = 990, log_size = 10, log_busy = True, log_dev = ROOTDEV, lh_n = 0, lh_sector = \<lambda>_. 0, \<dots> = m\<rparr>"

lemma demo_fs_simps [simp]:
  "locked (demo_fs D m) = {}" "pinned (demo_fs D m) = {}" "log_busy (demo_fs D m)" "lh_n (demo_fs D m) = 0"
  "log_size (demo_fs D m) = 10" "log.more (demo_fs D m) = m"
  by (simp_all add: demo_fs_def locked_def pinned_def)

lemma demo_fs_linv: "demo_ok D \<Longrightarrow> linv (demo_fs D m)"
proof -
  assume ok: "demo_ok D"
  let ?s = "(demo_fs D m)\<lparr>log_busy := False\<rparr>"
  have "binv ?s" by (rule binvI) (auto simp: demo_fs_def)
  moreover have "D ROOTDEV 990 = zero_bytes" using ok by (auto simp: demo_ok_def)
  ultimately have "log_clear ?s"
    by (simp add: log_clear_def demo_fs_def locked_def pinned_def disks_present_def log_geom_def settled_def
        ROOTDEV_def LOGSIZE_def head_n_def)
  then have "linv (?s\<lparr>log_busy := True\<rparr>)" by (rule clear_linv)
  then show ?thesis by (simp add: demo_fs_def)
qed

lemma demo_fs_view:
  assumes ok: "demo_ok D"
  shows "lview (demo_fs D m) = D"
proof (rule ext, rule ext)
  fix d x
  have "bview (demo_fs D m) d x = disk (demo_fs D m) d x"
    by (rule clean_view[OF linv_binv[OF demo_fs_linv[OF ok]]]) simp_all
  moreover have "log_area (demo_fs D m) d x \<Longrightarrow> d = ROOTDEV \<and> 990 \<le> x"
    by (auto simp: log_area_def demo_fs_def word_le_def)
  ultimately show "lview (demo_fs D m) d x = D d x"
    using ok by (auto simp: lview_def demo_ok_def demo_fs_def word_le_nat_alt)
qed

lemma demo_fs_home: "unat x < 990 \<Longrightarrow> lusable (demo_fs D m) ROOTDEV x"
proof -
  assume "unat x < 990"
  then have "x < 990" by (simp add: word_less_nat_alt)
  then show ?thesis by (auto simp: lusable_def log_home_def log_area_def demo_fs_def word_less_def)
qed

lemma demo_sblk: "demo_ok D \<Longrightarrow> sblk D ROOTDEV = \<lparr>sb_size = 1000, sb_nblocks = 941, sb_ninodes = 200, sb_nlog = 10\<rparr>"
  by (simp add: demo_ok_def demo_disk_def sb_of_def)

lemma demo_bitmap_sector: "demo_ok D \<Longrightarrow> unat b < 1000 \<Longrightarrow> bitmap_sector (sblk D ROOTDEV) b = 28"
proof -
  assume ok: "demo_ok D" and "unat b < 1000"
  then have "b div 4096 = 0" by (simp add: word_unat_eq_iff unat_div)
  then show ?thesis by (simp add: bitmap_sector_def BBLOCK_def demo_sblk[OF ok])
qed

lemma demo_in_use: "demo_ok D \<Longrightarrow> unat b < 1000 \<Longrightarrow> in_use D ROOTDEV b \<longleftrightarrow> unat b < 30"
proof -
  assume ok: "demo_ok D" and b: "unat b < 1000"
  have m: "(0xFF :: uchar) = mask 8" "(0x3F :: uchar) = mask 6" by (simp_all add: mask_eq_exp_minus_1)
  have "unat b < 24 \<or> unat b div 8 = 3 \<and> (unat b mod 8 < 6 \<longleftrightarrow> unat b < 30) \<or> 32 \<le> unat b" by presburger
  then have "bit (demo_bitmap (unat b div 8)) (unat b mod 8) \<longleftrightarrow> unat b < 30"
    by (auto simp: demo_bitmap_def m bit_mask_iff less_mult_imp_div_less)
  then show ?thesis
    using ok b demo_bitmap_sector[OF ok b] by (simp add: in_use_def bit_free_iff demo_ok_def SFSBPB_def)
qed

lemma unat_IBLOCK: "unat i < 200 \<Longrightarrow> unat (IBLOCK i) = unat i div 8 + 2"
  by (simp add: IBLOCK_def unat_word_ariths unat_div)

lemma demo_area:
  assumes ok: "demo_ok D"
  shows "bitmap_area (sblk D ROOTDEV) ROOTDEV = {(ROOTDEV, 28)}"
proof -
  have "unat (0 :: uint) < 1000" by simp
  then show ?thesis using demo_bitmap_sector[OF ok] by (fastforce simp: bitmap_area_def demo_sblk[OF ok])
qed

lemma demo_data:
  assumes ok: "demo_ok D" and b: "29 \<le> unat b" "unat b < 990"
  shows "data_block (sblk D ROOTDEV) ROOTDEV b"
proof -
  have "b \<noteq> IBLOCK i" if "unat i < 200" for i using unat_IBLOCK[OF that] that b by auto
  then show ?thesis using b demo_area[OF ok] by (auto simp: data_block_def fs_data_def demo_sblk[OF ok])
qed

lemma demo_fs_ok:
  assumes ok: "demo_ok D"
  shows "fs_ok (demo_fs D m) D ROOTDEV"
  using demo_fs_home[of 1] demo_fs_home[of 28] demo_fs_home[of _ D m] demo_area[OF ok] demo_bitmap_sector[OF ok]
    demo_in_use[OF ok] demo_data[OF ok]
  by (auto simp: fs_ok_def demo_sblk[OF ok] SFSBPB_def data_block_def fs_data_def not_less)

definition demo_dmap :: dmap where
  "demo_dmap = dput ROOTDEV 28 demo_bitmap demo_disk"

lemma demo_dmap_ok: "demo_ok demo_dmap"
proof -
  have "x \<noteq> 1 \<and> x \<noteq> 28" if "990 \<le> unat x" for x :: uint using that by auto
  then show ?thesis by (simp add: demo_ok_def demo_dmap_def demo_disk_def dput_def)
qed

theorem balloc_fresh_witness:
  "wp (balloc ROOTDEV) (\<lambda>b s'. 30 \<le> unat b \<and> in_use (lview s') ROOTDEV b \<and> lview s' ROOTDEV b = zero_bytes) (demo_fs demo_dmap ())"
proof -
  note ok = demo_dmap_ok
  show ?thesis
    by (rule wp_mono[OF balloc_fresh[OF demo_fs_linv[OF ok], where f = 500]])
      (use demo_in_use[OF ok] demo_in_use[OF ok, of 500] demo_fs_ok[OF ok] in
        \<open>auto simp: demo_fs_view[OF ok] demo_sblk[OF ok] data_block_def fs_data_def\<close>)
qed

theorem bfree_twice_witness: "bfree ROOTDEV 500 (demo_fs demo_dmap ()) = Panic ''freeing free block''"
  by (rule bfree_twice[OF demo_fs_linv[OF demo_dmap_ok]])
    (use demo_in_use[OF demo_dmap_ok, of 500] demo_fs_ok[OF demo_dmap_ok] in
      \<open>simp_all add: demo_fs_view[OF demo_dmap_ok] demo_sblk[OF demo_dmap_ok]\<close>)

end
