(* ===== verification/Sfs_File.thy ===== *)
theory Sfs_File
  imports Sfs_Blocks
begin

text \<open>
  Files of the simple file system as sequences of bytes. \<open>fblock\<close> is the block a part of a file
  lies in, through the direct addresses of the inode or its indirect block; \<open>fbyte\<close> and \<open>fbytes\<close>
  are the contents; \<open>file_ok\<close> says that the blocks of a file are its own. \<open>bmap\<close> is shown to find or
  make the block of a part without changing the contents, and \<open>sfs_readi\<close> to return the contents.
\<close>

lemma card_two_minus: "2 \<le> card S \<Longrightarrow> S - {a} \<noteq> {}"
  using card_mono[of "{a}" S] by auto

section \<open>Assigning to inodes\<close>

lemma lrest_icache: "lrest (t :: 'a fsys_scheme) = lrest s \<Longrightarrow> icache t = icache s"
  by (cases t, cases s) (simp add: lrest_def)

lemma more_set_icache:
  "log.more (t :: 'a fsys_scheme) = log.more s \<Longrightarrow> log.more (t\<lparr>icache := c\<rparr>) = log.more (s\<lparr>icache := c\<rparr>)"
  by (cases t, cases s) simp

lemma lrest_set_icache: "lrest (t :: 'a fsys_scheme) = lrest s \<Longrightarrow> lrest (t\<lparr>icache := c\<rparr>) = lrest (s\<lparr>icache := c\<rparr>)"
  using more_set_icache[of t s c] by (simp add: lrest_def cong: if_cong)

lemma log_room_set_icache [simp]: "log_room (s\<lparr>icache := c\<rparr>) = log_room s"
  by (simp add: log_room_def)

text \<open>\<open>fspends s s' X\<close>: like \<open>logs.spends\<close>, and inodes may have been assigned to.\<close>

definition fspends :: "'a fsys_scheme \<Rightarrow> 'a fsys_scheme \<Rightarrow> (uint \<times> uint) set \<Rightarrow> bool" where
  "fspends s s' X \<longleftrightarrow> logs.spends (s\<lparr>icache := icache s'\<rparr>) s' X"

lemma spends_set_icache: "logs.spends s t X \<Longrightarrow> logs.spends (s\<lparr>icache := c\<rparr>) (t\<lparr>icache := c\<rparr>) X"
  using lrest_set_icache[of t s c] by (auto simp: logs.spends_def logc.keeps_def)

lemma fspends_spends: "logs.spends s t X \<Longrightarrow> fspends s t X"
  using lrest_icache[of t s] by (auto simp: fspends_def logs.spends_def logc.keeps_def)

lemma fspends_refl: "linv s \<Longrightarrow> fspends s s X"
  by (simp add: fspends_def logs.spends_refl)

lemma fspends_iset: "linv s \<Longrightarrow> fspends s (s\<lparr>icache := c\<rparr>) {}"
  by (simp add: fspends_def logs.spends_refl)

lemma fspends_trans: "fspends s t X \<Longrightarrow> fspends t u Y \<Longrightarrow> fspends s u (X \<union> Y)"
  using spends_set_icache[of "s\<lparr>icache := icache t\<rparr>" t X "icache u"] logs.spends_trans
  by (fastforce simp: fspends_def)

lemma fspends_mono: "fspends s t X \<Longrightarrow> X \<subseteq> Y \<Longrightarrow> fspends s t Y"
  by (auto simp: fspends_def intro: logs.spends_mono)

lemma fspendsD:
  assumes "fspends s t X"
  shows "linv t" "lusable t = lusable s" "held t = held s"
  using logs.spends_inv logs.spends_usable logs.spends_lk assms by (fastforce simp: fspends_def)+

lemma affords_set_icache [simp]: "logs.affords (s\<lparr>icache := c\<rparr>) K m h = logs.affords s K m h"
  by (simp add: logs.affords_def)

lemma affords_fspends:
  "logs.affords s K m h \<Longrightarrow> fspends s t (A \<union> B) \<Longrightarrow> A \<subseteq> K \<Longrightarrow> finite B \<Longrightarrow> card B \<le> n \<Longrightarrow> n \<le> m \<Longrightarrow> logs.affords t K (m - n) h"
  using logs.affords_spends[of "s\<lparr>icache := icache t\<rparr>" K m h t A B n] by (simp add: fspends_def)

lemma affords_fspends_more:
  "logs.affords s K m h \<Longrightarrow> fspends s t (A \<union> B) \<Longrightarrow> A \<subseteq> K \<Longrightarrow> finite B \<Longrightarrow> card B \<le> n \<Longrightarrow> n \<le> m \<Longrightarrow>
   logs.affords t (K \<union> B) (m - n) h"
  using logs.affords_spends_more[of "s\<lparr>icache := icache t\<rparr>" K m h t A B n] by (simp add: fspends_def)

section \<open>The blocks of a file\<close>

definition fblock :: "dmap \<Rightarrow> inode \<Rightarrow> nat \<Rightarrow> uint" where
  \<comment> \<open>the block with the \<open>bn\<close>th part of a file, 0 if there is none\<close>
  "fblock V i bn = (if bn < NDIRECT then i_addrs i bn else if i_addrs i NDIRECT = 0 then 0
     else ld32 (V (i_dev i) (i_addrs i NDIRECT)) (4 * (bn - NDIRECT)))"

definition good_block :: "dmap \<Rightarrow> uint \<Rightarrow> uint \<Rightarrow> bool" where
  "good_block V dev b \<longleftrightarrow> data_block (sblk V dev) dev b \<and> in_use V dev b"

definition file_ok :: "dmap \<Rightarrow> inode \<Rightarrow> bool" where
  \<comment> \<open>the blocks of a file are data blocks in use, and no two are the same\<close>
  "file_ok V i \<longleftrightarrow>
     (\<forall>bn<MAXFILE. fblock V i bn \<noteq> 0 \<longrightarrow> good_block V (i_dev i) (fblock V i bn) \<and> fblock V i bn \<noteq> i_addrs i NDIRECT) \<and>
     (i_addrs i NDIRECT \<noteq> 0 \<longrightarrow> good_block V (i_dev i) (i_addrs i NDIRECT)) \<and>
     (\<forall>bn<MAXFILE. \<forall>bm<MAXFILE. fblock V i bn \<noteq> 0 \<longrightarrow> fblock V i bn = fblock V i bm \<longrightarrow> bn = bm)"

text \<open>How many blocks \<open>bmap\<close> may have to take.\<close>

definition bneed :: "inode \<Rightarrow> nat \<Rightarrow> nat" where
  "bneed i bn = (if \<not> bn < NDIRECT \<and> i_addrs i NDIRECT = 0 then 2 else 1)"

text \<open>\<open>mapped V i V' i' bn b N\<close>: the file has got block \<open>b\<close> for part \<open>bn\<close>, taking the free blocks \<open>N\<close>.\<close>

definition mapped :: "dmap \<Rightarrow> inode \<Rightarrow> dmap \<Rightarrow> inode \<Rightarrow> nat \<Rightarrow> uint \<Rightarrow> uint set \<Rightarrow> bool" where
  "mapped V i V' i' bn b N \<longleftrightarrow>
     i' = i\<lparr>i_addrs := i_addrs i'\<rparr> \<and> b \<noteq> 0 \<and> fblock V' i' bn = b \<and>
     (\<forall>bm<MAXFILE. bm \<noteq> bn \<longrightarrow> fblock V' i' bm = fblock V i bm) \<and>
     (if fblock V i bn \<noteq> 0 then N = {} \<and> b = fblock V i bn \<and> V' = V \<and> i' = i
      else b \<in> N \<and> V' (i_dev i) b = zero_bytes \<and> i_addrs i' NDIRECT \<noteq> b) \<and>
     (if i_addrs i NDIRECT \<noteq> 0 then i_addrs i' NDIRECT = i_addrs i NDIRECT else i_addrs i' NDIRECT \<in> insert 0 N) \<and>
     finite N \<and> card N \<le> bneed i bn \<and> (\<forall>c\<in>N. data_block (sblk V (i_dev i)) (i_dev i) c \<and> \<not> in_use V (i_dev i) c) \<and>
     V' (i_dev i) 1 = V (i_dev i) 1 \<and>
     (\<forall>c. unat c < fs_blocks (sblk V (i_dev i)) \<longrightarrow> in_use V' (i_dev i) c = (in_use V (i_dev i) c \<or> c \<in> N)) \<and>
     (\<forall>d x. (d, x) \<notin> bitmap_area (sblk V (i_dev i)) (i_dev i) \<and> (d \<noteq> i_dev i \<or> x \<notin> N \<and> x \<noteq> i_addrs i NDIRECT) \<longrightarrow> V' d x = V d x)"

lemma bneed_bounds: "1 \<le> bneed i bn" "bneed i bn \<le> 2"
  by (simp_all add: bneed_def)

lemma good_block_data: "data_block sb dev b \<Longrightarrow> unat b < fs_blocks sb \<and> unat b < fs_data sb"
  by (auto simp: data_block_def fs_data_def)

lemma mapped_file_ok:
  assumes ok: "file_ok V i" and m: "mapped V i V' i' bn b N" and bn: "bn < MAXFILE"
  shows "file_ok V' i'"
proof (cases "fblock V i bn = 0")
  case False
  then show ?thesis using ok m by (auto simp: mapped_def)
next
  case True
  let ?d = "i_dev i"
  have "i' = i\<lparr>i_addrs := i_addrs i'\<rparr>" using m by (simp add: mapped_def)
  then have dev: "i_dev i' = ?d" by (metis inode.select_convs(1) inode.surjective inode.update_convs(11))
  have N: "b \<in> N" "b \<noteq> 0" "fblock V' i' bn = b" "i_addrs i' NDIRECT \<noteq> b" using m True by (auto simp: mapped_def)
  have same: "fblock V' i' bm = fblock V i bm" if "bm < MAXFILE" "bm \<noteq> bn" for bm using m that by (auto simp: mapped_def)
  have fresh: "data_block (sblk V ?d) ?d c" "\<not> in_use V ?d c" if "c \<in> N" for c using m that by (auto simp: mapped_def)
  have sb: "V' ?d 1 = V ?d 1" using m by (simp add: mapped_def)
  have use: "in_use V' ?d c \<longleftrightarrow> in_use V ?d c \<or> c \<in> N" if "data_block (sblk V ?d) ?d c" for c
    using m good_block_data[OF that] by (auto simp: mapped_def)
  have good: "good_block V' ?d c" if "good_block V ?d c \<or> c \<in> N" for c
    using that fresh use sb by (auto simp: good_block_def)
  have ind: "i_addrs i' NDIRECT = 0 \<or> i_addrs i' NDIRECT \<in> N \<or> i_addrs i NDIRECT \<noteq> 0 \<and> i_addrs i' NDIRECT = i_addrs i NDIRECT"
    using m by (auto simp: mapped_def split: if_splits)
  have old: "fblock V i bm \<noteq> c" if "c \<in> N" "bm < MAXFILE" "fblock V i bm \<noteq> 0" for bm c
    using ok that fresh by (auto simp: file_ok_def good_block_def)
  show ?thesis
    unfolding file_ok_def dev
  proof (intro conjI allI impI)
    fix bm assume bm: "bm < MAXFILE" "fblock V' i' bm \<noteq> 0"
    show "good_block V' ?d (fblock V' i' bm)"
      using bm good ok N same by (cases "bm = bn") (auto simp: file_ok_def)
    show "fblock V' i' bm \<noteq> i_addrs i' NDIRECT"
      using bm N same[of bm] ind old[of _ bm] ok by (cases "bm = bn") (auto simp: file_ok_def)
  next
    assume "i_addrs i' NDIRECT \<noteq> 0"
    then show "good_block V' ?d (i_addrs i' NDIRECT)" using ind good ok by (auto simp: file_ok_def)
  next
    fix bm bk assume b: "bm < MAXFILE" "bk < MAXFILE" "fblock V' i' bm \<noteq> 0" "fblock V' i' bm = fblock V' i' bk"
    show "bm = bk"
    proof (cases "bm = bn \<or> bk = bn")
      case True
      then show ?thesis using b N old[OF N(1)] same by (metis)
    next
      case False
      then show ?thesis using b same ok by (auto simp: file_ok_def)
    qed
  qed
qed

lemma fblock_present:
  assumes "fblock V i bn \<noteq> 0"
  shows "mapped V i V i bn (fblock V i bn) {}"
  using assms by (auto simp: mapped_def)

lemma mapped_direct:
  assumes ok: "fs_ok s V (i_dev i)" "file_ok V i" and b: "data_block (sblk V (i_dev i)) (i_dev i) b" "\<not> in_use V (i_dev i) b"
    and bn: "bn < NDIRECT" "i_addrs i bn = 0"
  shows "mapped V i (alloced V (i_dev i) b) (i\<lparr>i_addrs := (i_addrs i)(bn := b)\<rparr>) bn b {b}"
proof -
  let ?d = "i_dev i" and ?V = "alloced V (i_dev i) b"
  note f = alloced_facts[OF ok(1) b(1)]
  have b0: "b \<noteq> 0" using b by (auto simp: data_block_def)
  have "?V ?d (i_addrs i NDIRECT) = V ?d (i_addrs i NDIRECT)" "i_addrs i NDIRECT \<noteq> b" if "i_addrs i NDIRECT \<noteq> 0"
  proof -
    have g: "good_block V ?d (i_addrs i NDIRECT)" using ok(2) that by (simp add: file_ok_def)
    then show "i_addrs i NDIRECT \<noteq> b" using b by (auto simp: good_block_def)
    then show "?V ?d (i_addrs i NDIRECT) = V ?d (i_addrs i NDIRECT)"
      using g by (intro f(4)) (auto simp: good_block_def data_block_def)
  qed
  then show ?thesis
    using b b0 bn f(1-4) bneed_bounds[of i bn] unfolding mapped_def by (auto simp: fblock_def)
qed

lemma mapped_indirect:
  assumes ok: "fs_ok s V (i_dev i)" "file_ok V i" and b: "data_block (sblk V (i_dev i)) (i_dev i) b" "\<not> in_use V (i_dev i) b"
    and bn: "\<not> bn < NDIRECT" "bn < MAXFILE" "i_addrs i NDIRECT = a" "a \<noteq> 0" "fblock V i bn = 0"
  shows "mapped V i (dput (i_dev i) a (st32 (V (i_dev i) a) (4 * (bn - NDIRECT)) b) (alloced V (i_dev i) b)) i bn b {b}"
proof -
  let ?d = "i_dev i"
  let ?V1 = "alloced V ?d b"
  let ?V = "dput ?d a (st32 (V ?d a) (4 * (bn - NDIRECT)) b) ?V1"
  note f = alloced_facts[OF ok(1) b(1)]
  have g: "good_block V ?d a" using ok(2) bn by (auto simp: file_ok_def)
  then have a: "data_block (sblk V ?d) ?d a" "a \<noteq> b" "a \<noteq> 1" using b by (auto simp: good_block_def data_block_def)
  have use: "in_use ?V ?d c = in_use ?V1 ?d c" if "unat c < fs_blocks (sblk V ?d)" for c
    using data_not_bitmap[OF a(1) that] a(3) f(1) by (simp add: in_use_def)
  have blk: "fblock ?V i bm = (if bm = bn then b else fblock V i bm)" if "bm < MAXFILE" for bm
  proof (cases "bm < NDIRECT \<or> bm = bn")
    case True
    then show ?thesis using bn by (auto simp: fblock_def)
  next
    case False
    then have "4 * (bm - NDIRECT) + 4 \<le> 4 * (bn - NDIRECT) \<or> 4 * (bn - NDIRECT) + 4 \<le> 4 * (bm - NDIRECT)"
      using bn(1) by arith
    then show ?thesis using False bn by (simp add: fblock_def)
  qed
  have "?V ?d b = zero_bytes" "?V ?d 1 = V ?d 1" using f(1,3) a by auto
  moreover have "?V e x = V e x" if "(e, x) \<notin> bitmap_area (sblk V ?d) ?d" "e \<noteq> ?d \<or> x \<notin> {b} \<and> x \<noteq> a" for e x
    using that f(4)[of e x] by auto
  moreover have "b \<noteq> 0" using b by (auto simp: data_block_def)
  ultimately show ?thesis
    unfolding mapped_def using b bn a f(2) use blk bneed_bounds[of i bn] by auto
qed

text \<open>A new, empty indirect block.\<close>

lemma new_indirect:
  assumes ok: "fs_ok s V (i_dev i)" "file_ok V i" and a: "data_block (sblk V (i_dev i)) (i_dev i) a" "\<not> in_use V (i_dev i) a"
    and z: "i_addrs i NDIRECT = 0" and i': "i' = i\<lparr>i_addrs := (i_addrs i)(NDIRECT := a)\<rparr>"
  shows "fblock (alloced V (i_dev i) a) i' bn = fblock V i bn" "file_ok (alloced V (i_dev i) a) i'"
proof -
  let ?d = "i_dev i" and ?V = "alloced V (i_dev i) a"
  note f = alloced_facts[OF ok(1) a(1)]
  have a0: "a \<noteq> 0" using a by (auto simp: data_block_def)
  show blk: "fblock ?V i' bn = fblock V i bn" for bn
    using z f(3) by (auto simp: fblock_def i')
  have good: "good_block ?V ?d c" if "good_block V ?d c \<or> c = a" for c
    using that a f(1) f(2)[of c] good_block_data[of "sblk V ?d" ?d c] by (auto simp: good_block_def)
  have "fblock V i bm \<noteq> a" if "bm < MAXFILE" for bm
    using ok(2) that a a0 by (auto simp: file_ok_def good_block_def)
  then show "file_ok ?V i'"
    using ok(2) good unfolding file_ok_def blk by (auto simp: i')
qed

lemma mapped_new_indirect:
  assumes ok: "fs_ok s V (i_dev i)" "file_ok V i" and a: "data_block (sblk V (i_dev i)) (i_dev i) a" "\<not> in_use V (i_dev i) a"
    and z: "i_addrs i NDIRECT = 0" and i': "i' = i\<lparr>i_addrs := (i_addrs i)(NDIRECT := a)\<rparr>"
    and bn: "\<not> bn < NDIRECT" and m: "mapped (alloced V (i_dev i) a) i' V' i' bn b {b}"
  shows "mapped V i V' i' bn b {a, b}"
proof -
  let ?d = "i_dev i" and ?V = "alloced V (i_dev i) a"
  note f = alloced_facts[OF ok(1) a(1)] and blk = new_indirect(1)[OF ok a z i']
  have i'd: "i_dev i' = ?d" "i_addrs i' NDIRECT = a" by (simp_all add: i')
  have z': "fblock V i bn = 0" using z bn by (simp add: fblock_def)
  note m' = m[unfolded mapped_def i'd f(1) blk z']
  have ab: "a \<noteq> b" "data_block (sblk V ?d) ?d b" "\<not> in_use ?V ?d b" using m' by auto
  then have nb: "\<not> in_use V ?d b" using f(2)[of b] good_block_data[OF ab(2)] by auto
  have use: "in_use V' ?d c = (in_use V ?d c \<or> c \<in> {a, b})" if "unat c < fs_blocks (sblk V ?d)" for c
    using m' f(2)[OF that] that by auto
  have frame: "V' e x = V e x" if "(e, x) \<notin> bitmap_area (sblk V ?d) ?d" "e \<noteq> ?d \<or> x \<notin> {a, b}" for e x
  proof -
    have "V' e x = ?V e x" using m' that by auto
    then show ?thesis using f(4)[of e x] that by auto
  qed
  show ?thesis
    unfolding mapped_def z z'
    using m' a ab nb use frame z bn by (auto simp: i' bneed_def)
qed

section \<open>Mapping parts of a file to blocks\<close>

lemma wp_iinfo [wp_simps]: "wp (iinfo ip) Q s = Q (icache s ip) s"
  by (simp add: iinfo_def wp_kget)

lemma wp_iset [wp_simps]: "wp (iset ip f) Q s = Q () (s\<lparr>icache := (icache s)(ip := f (icache s ip))\<rparr>)"
  by (simp add: iset_def wp_kmod)

definition free_set :: "dmap \<Rightarrow> uint \<Rightarrow> uint set" where
  "free_set V dev = {b. unat b < fs_data (sblk V dev) \<and> \<not> in_use V dev b}"

lemma free_set_alloced:
  assumes "fs_ok s V dev" "data_block (sblk V dev) dev b"
  shows "free_set (alloced V dev b) dev = free_set V dev - {b}"
  using alloced_facts(1,2)[OF assms] by (auto simp: free_set_def fs_data_def)

lemma free_set_obtain:
  assumes "0 < card (free_set V dev)"
  obtains f where "unat f < fs_data (sblk V dev)" "\<not> in_use V dev f"
  using assms by (metis (mono_tags, lifting) card_gt_0_iff ex_in_conv free_set_def mem_Collect_eq)

definition bmap_post :: "'a fsys_scheme \<Rightarrow> 'a fsys_scheme \<Rightarrow> nat \<Rightarrow> nat \<Rightarrow> uint \<Rightarrow> uint set \<Rightarrow> bool" where
  "bmap_post s s' ip bn b N \<longleftrightarrow> mapped (lview s) (icache s ip) (lview s') (icache s' ip) bn b N \<and>
     icache s' = (icache s)(ip := icache s' ip) \<and>
     (if N = {} then fspends s s' {}
      else fspends s s' (bitmap_area (sblk (lview s) (i_dev (icache s ip))) (i_dev (icache s ip)) \<union>
        Pair (i_dev (icache s ip)) ` (N \<union> (if bn < NDIRECT then {} else {i_addrs (icache s' ip) NDIRECT}))))"

definition bmap_pre :: "'a fsys_scheme \<Rightarrow> nat \<Rightarrow> nat \<Rightarrow> (uint \<times> uint) set \<Rightarrow> nat \<Rightarrow> nat \<Rightarrow> bool" where
  "bmap_pre s ip bn K m h \<longleftrightarrow> linv s \<and> fs_ok s (lview s) (i_dev (icache s ip)) \<and> file_ok (lview s) (icache s ip) \<and>
     locked s = {} \<and> logs.has_buffer s \<and>
     (fblock (lview s) (icache s ip) bn = 0 \<longrightarrow> logs.affords s K m (Suc (Suc h)) \<and>
        bneed (icache s ip) bn \<le> card (free_set (lview s) (i_dev (icache s ip))) \<and>
        bitmap_area (sblk (lview s) (i_dev (icache s ip))) (i_dev (icache s ip)) \<subseteq> K \<and> bneed (icache s ip) bn \<le> m)"

lemma wp_bmap_direct:
  assumes pre: "bmap_pre s ip (unat bn) K m h" and bn: "unat bn < NDIRECT"
    and Q: "\<And>b s' N. bmap_post s s' ip (unat bn) b N \<Longrightarrow> Q b s'"
  shows "wp (bmap ip bn) Q s"
proof -
  let ?i = "icache s ip" and ?V = "lview s"
  let ?d = "i_dev ?i"
  have p: "linv s" "fs_ok s ?V ?d" "file_ok ?V ?i" "alloc_unheld s ?d"
    using pre unlocked_alloc by (auto simp: bmap_pre_def)
  show ?thesis
  proof (cases "i_addrs ?i (unat bn) = 0")
    case False
    then have "bmap_post s s ip (unat bn) (i_addrs ?i (unat bn)) {}"
      using fblock_present[of ?V ?i "unat bn"] bn fspends_refl[OF p(1)] by (simp add: bmap_post_def fblock_def)
    from Q[OF this] show ?thesis using False bn by (simp add: bmap_def wp_simps)
  next
    case True
    then have c: "1 \<le> card (free_set ?V ?d)" "bitmap_area (sblk ?V ?d) ?d \<subseteq> K" "logs.affords s K m (Suc (Suc h))"
      using pre bn by (auto simp: bmap_pre_def fblock_def bneed_def)
    then obtain f where f: "unat f < fs_data (sblk ?V ?d)" "\<not> in_use ?V ?d f" using free_set_obtain[of ?V ?d] by auto
    have "wp (balloc ?d) (\<lambda>b. wp (iset ip (\<lambda>i. i\<lparr>i_addrs := (i_addrs i)(unat bn := b)\<rparr>)) (\<lambda>_. wp (kret b) Q)) s"
    proof (rule wp_balloc[OF p(1,2,4) c(3) _ f], goal_cases)
      case (2 b s1)
      then have r: "\<not> in_use ?V ?d b" "data_block (sblk ?V ?d) ?d b" "lview s1 = alloced ?V ?d b"
        and sp: "logs.spends s s1 {(?d, bitmap_sector (sblk ?V ?d) b), (?d, b)}" by (auto simp: alloc_result_def)
      have ic: "icache s1 = icache s" using lrest_icache[OF logs.spends_rest[OF sp]] .
      let ?s2 = "s1\<lparr>icache := (icache s1)(ip := (icache s1 ip)\<lparr>i_addrs := (i_addrs (icache s1 ip))(unat bn := b)\<rparr>)\<rparr>"
      have "fspends s ?s2 ({(?d, bitmap_sector (sblk ?V ?d) b), (?d, b)} \<union> {})"
        using fspends_trans[OF fspends_spends[OF sp] fspends_iset[OF logs.spends_inv[OF sp]]] .
      then have "fspends s ?s2 (bitmap_area (sblk ?V ?d) ?d \<union> Pair ?d ` {b})"
        using good_block_data[OF r(2)] by (elim fspends_mono) (auto simp: bitmap_in_area)
      moreover have "mapped ?V ?i (lview ?s2) (icache ?s2 ip) (unat bn) b {b}"
        using mapped_direct[OF p(2,3) r(2,1) bn True] r(3) ic by simp
      ultimately have "bmap_post s ?s2 ip (unat bn) b {b}" using ic bn by (simp add: bmap_post_def)
      from Q[OF this] show ?case by (simp add: wp_simps)
    qed (use c in simp)
    then show ?thesis using True bn by (simp add: bmap_def wp_kbind_fun wp_iinfo)
  qed
qed

lemma wp_bmap_entry:
  assumes p: "linv s" "fs_ok s V d" "locked s = {}" "logs.has_buffer s" and V: "lview s = V"
    and a: "good_block V d a"
    and new: "ld32 (V d a) (4 * k) = 0 \<Longrightarrow> free_set V d \<noteq> {} \<and> bitmap_area (sblk V d) d \<subseteq> K \<and> 0 < m \<and> logs.affords s K m (Suc (Suc h))"
    and Q0: "\<And>s'. ld32 (V d a) (4 * k) \<noteq> 0 \<Longrightarrow> logs.spends s s' {} \<Longrightarrow> lview s' = V \<Longrightarrow> Q (ld32 (V d a) (4 * k)) s'"
    and Q1: "\<And>b s'. ld32 (V d a) (4 * k) = 0 \<Longrightarrow> \<not> in_use V d b \<Longrightarrow> data_block (sblk V d) d b \<Longrightarrow>
       logs.spends s s' {(d, a), (d, bitmap_sector (sblk V d) b), (d, b)} \<Longrightarrow>
       lview s' = dput d a (st32 (V d a) (4 * k) b) (alloced V d b) \<Longrightarrow> Q b s'"
  shows "wp (bmap_entry d a k) Q s"
proof -
  have da: "data_block (sblk V d) d a" using a by (simp add: good_block_def)
  have ua: "lusable s d a" using p(2) da by (auto simp: fs_ok_def)
  have ha: "\<forall>i. \<not> held s i d a" using unlocked_held_none[OF p(3)] by simp
  show ?thesis
    unfolding bmap_entry_def wp_kbind_fun
  proof (rule logs.wp_rd[OF p(1) ua ha p(4)], rule logs.wp_dat[where X = "{}"], assumption, goal_cases)
    case (1 bp t)
    then show ?case by (simp add: logs.takes_def logs.spends_refl)
  next
    case (2 bp t)
    have t: "logs.spends t t {}" "lview t = V" "linv t" "lusable t = lusable s"
      using 2 V by (auto simp: logs.takes_def logs.spends_refl)
    show ?case
    proof (cases "ld32 (V d a) (4 * k) = 0")
      case False
      then show ?thesis
        unfolding t(2) Let_def wp_kbind_fun
        by (simp add: wp_kret) (rule logs.wp_rel[OF 2 t(1)], use Q0 t(2) in \<open>auto simp: wp_kret\<close>)
    next
      case True
      obtain f where f: "unat f < fs_data (sblk (lview t) d)" "\<not> in_use (lview t) d f"
        using new[OF True] t(2) by (auto simp: free_set_def)
      have un: "alloc_unheld t d"
        unfolding alloc_unheld_def t(2)
      proof (intro allI impI)
        fix i x assume "held t i d x"
        then have "x = a" using 2 ha unlocked_held_none[OF p(3)] logc.lk_unique[of t bp d a d x]
          by (cases "i = bp") (auto simp: logs.takes_def)
        then show "x \<noteq> 1 \<and> (d, x) \<notin> bitmap_area (sblk V d) d \<and> (unat x < fs_data (sblk V d) \<longrightarrow> in_use V d x)"
          using a by (auto simp: good_block_def data_block_def)
      qed
      have at: "logs.affords t K m (Suc h)" using logs.affords_takes[OF _ 2] new[OF True] by blast
      have "wp (balloc d) (\<lambda>b. wp (bput bp (st32 (V d a) (4 * k) b)) (\<lambda>_. wp (log_write bp) (\<lambda>_. wp (brelse bp) (\<lambda>_. Q b)))) t"
      proof (rule wp_balloc[OF t(3) _ un at _ f], goal_cases)
        case 1
        then show ?case using p(2) t by (auto simp: fs_ok_def)
      next
        case 2
        then show ?case using new[OF True] t by simp
      next
        case (3 b t1)
        then have r: "\<not> in_use V d b" "data_block (sblk V d) d b" "lview t1 = alloced V d b"
          and sp: "logs.spends t t1 {(d, bitmap_sector (sblk V d) b), (d, b)}" using t(2) by (auto simp: alloc_result_def)
        have "logs.spends t t1 (insert (d, b) {(d, bitmap_sector (sblk V d) b)})" using sp by (simp add: insert_commute)
        then have aff: "logs.affords t1 K (m - 1) (Suc h)"
          using logs.affords_spends_1[OF at] new[OF True] good_block_data[OF r(2)] bitmap_in_area by blast
        show ?case
        proof (rule logs.wp_put_wr[OF 2 ua sp aff], rule logs.wp_rel[OF 2], assumption, goal_cases)
          case (1 t2 t3)
          then show ?case using Q1[OF True r(1,2)] r(3) by auto
        qed
      qed
      then show ?thesis
        unfolding t(2) Let_def using True by (simp add: wp_kbind_fun wp_kret_fun)
    qed
  qed
qed

lemma bmap_indirect_eq:
  assumes "\<not> unat bn < NDIRECT" "unat bn < MAXFILE"
  shows "bmap ip bn = kbind (iinfo ip) (\<lambda>sin.
     kbind (if i_addrs sin NDIRECT = 0 then
         kbind (balloc (i_dev sin)) (\<lambda>addr.
         kbind (iset ip (\<lambda>i. i\<lparr>i_addrs := (i_addrs i)(NDIRECT := addr)\<rparr>)) (\<lambda>_. kret addr))
       else kret (i_addrs sin NDIRECT)) (\<lambda>ind. bmap_entry (i_dev sin) ind (unat bn - NDIRECT)))"
proof -
  have "unat (bn - of_nat NDIRECT) = unat bn - NDIRECT"
    using assms by (simp add: NDIRECT_def unat_sub word_le_nat_alt)
  moreover from this have "unat (bn - of_nat NDIRECT) < NINDIRECT" using assms by (simp add: MAXFILE_def)
  ultimately show ?thesis using assms by (simp add: bmap_def Let_def)
qed

lemma wp_bmap_indirect:
  assumes pre: "bmap_pre s ip (unat bn) K m h" and bn: "\<not> unat bn < NDIRECT" "unat bn < MAXFILE"
    and Q: "\<And>b s' N. bmap_post s s' ip (unat bn) b N \<Longrightarrow> Q b s'"
  shows "wp (bmap ip bn) Q s"
proof -
  let ?i = "icache s ip" and ?V = "lview s" and ?k = "unat bn - NDIRECT"
  let ?d = "i_dev ?i" and ?a = "i_addrs ?i NDIRECT"
  have p: "linv s" "fs_ok s ?V ?d" "file_ok ?V ?i" "locked s = {}" "logs.has_buffer s"
    using pre by (auto simp: bmap_pre_def)
  show ?thesis
  proof (cases "?a = 0")
    case False
    have g: "good_block ?V ?d ?a" using p(3) False by (simp add: file_ok_def)
    have blk: "fblock ?V ?i (unat bn) = ld32 (?V ?d ?a) (4 * ?k)" using False bn by (simp add: fblock_def)
    have "wp (bmap_entry ?d ?a ?k) Q s"
    proof (rule wp_bmap_entry[where K = K and m = m and h = h, OF p(1,2,4,5) refl g], goal_cases)
      case 1
      then show ?case using pre blk by (auto simp: bmap_pre_def bneed_def split: if_splits)
    next
      case (2 s')
      have ic: "icache s' = icache s" using lrest_icache[OF logs.spends_rest[OF 2(2)]] .
      then have "bmap_post s s' ip (unat bn) (ld32 (?V ?d ?a) (4 * ?k)) {}"
        using 2 fblock_present[of ?V ?i "unat bn"] blk fspends_spends[OF 2(2)] by (simp add: bmap_post_def)
      then show ?case by (rule Q)
    next
      case (3 b s')
      have ic: "icache s' = icache s" using lrest_icache[OF logs.spends_rest[OF 3(4)]] .
      have "mapped ?V ?i (lview s') ?i (unat bn) b {b}"
        unfolding 3(5) using 3(1,2,3) blk by (intro mapped_indirect[OF p(2,3) _ _ bn refl False]) auto
      moreover have "fspends s s' (bitmap_area (sblk ?V ?d) ?d \<union> Pair ?d ` {b, ?a})"
        using fspends_spends[OF 3(4)] bitmap_in_area good_block_data[OF 3(3)] by (elim fspends_mono) auto
      ultimately have "bmap_post s s' ip (unat bn) b {b}" using ic bn by (simp add: bmap_post_def insert_commute)
      then show ?case by (rule Q)
    qed
    then show ?thesis using False by (simp add: bmap_indirect_eq[OF bn] wp_kbind wp_iinfo wp_kret)
  next
    case True
    then have c: "2 \<le> card (free_set ?V ?d)" "bitmap_area (sblk ?V ?d) ?d \<subseteq> K" "2 \<le> m" "logs.affords s K m (Suc (Suc h))"
      using pre bn by (auto simp: bmap_pre_def fblock_def bneed_def)
    then obtain f where f: "unat f < fs_data (sblk ?V ?d)" "\<not> in_use ?V ?d f" using free_set_obtain[of ?V ?d] by auto
    have "wp (balloc ?d) (\<lambda>a. wp (iset ip (\<lambda>i. i\<lparr>i_addrs := (i_addrs i)(NDIRECT := a)\<rparr>)) (\<lambda>_. wp (bmap_entry ?d a ?k) Q)) s"
    proof (rule wp_balloc[OF p(1,2) unlocked_alloc[OF p(4)] c(4) _ f], goal_cases)
      case (2 a s1)
      then have r: "\<not> in_use ?V ?d a" "data_block (sblk ?V ?d) ?d a" "lview s1 = alloced ?V ?d a"
        and sp: "logs.spends s s1 {(?d, bitmap_sector (sblk ?V ?d) a), (?d, a)}" by (auto simp: alloc_result_def)
      define i2 where "i2 = ?i\<lparr>i_addrs := (i_addrs ?i)(NDIRECT := a)\<rparr>"
      define s2 where "s2 = s1\<lparr>icache := (icache s)(ip := i2)\<rparr>"
      have ic: "icache s1 = icache s" using lrest_icache[OF logs.spends_rest[OF sp]] .
      have s2: "linv s2" "lview s2 = alloced ?V ?d a" "icache s2 = (icache s)(ip := i2)" "locked s2 = {}"
        using r logs.spends_inv[OF sp] unlocked_held[OF logs.spends_lk[OF sp] p(4)] by (simp_all add: s2_def)
      have sp2: "fspends s s2 {(?d, a), (?d, bitmap_sector (sblk ?V ?d) a)}"
        using fspends_trans[OF fspends_spends[OF sp] fspends_iset[OF logs.spends_inv[OF sp]]] ic
        by (simp add: s2_def insert_commute)
      note blk = new_indirect[OF p(2,3) r(2,1) True i2_def]
      have affords: "logs.affords s2 K (m - 1) (Suc (Suc h))"
        using affords_fspends[OF c(4), of s2 "{(?d, bitmap_sector (sblk ?V ?d) a)}" "{(?d, a)}" 1] sp2 c
          bitmap_in_area[of a "sblk ?V ?d" ?d] good_block_data[OF r(2)] by (auto simp: insert_commute)
      have ok2: "fs_ok s2 (lview s2) ?d"
        unfolding s2(2) by (rule fs_ok_alloced[OF p(2) r(2) fspendsD(2)[OF sp2]])
      have g2: "good_block (lview s2) ?d a"
        using r good_block_data[OF r(2)] alloced_facts(1,2)[OF p(2) r(2)] by (simp add: good_block_def s2(2))
      have z: "ld32 (lview s2 ?d a) (4 * ?k) = 0" by (simp add: s2(2) alloced_facts(3)[OF p(2) r(2)])
      have "wp (bmap_entry ?d a ?k) Q s2"
      proof (rule wp_bmap_entry[where K = K and m = "m - 1" and h = h, OF s2(1) ok2 s2(4) logs.affords_buffer[OF affords] refl g2], goal_cases)
        case 1
        have "free_set (lview s2) ?d \<noteq> {}"
          using card_two_minus[OF c(1)] free_set_alloced[OF p(2) r(2)] s2(2) by simp
        then show ?case using c affords alloced_facts(1)[OF p(2) r(2)] by (simp add: s2(2))
      next
        case (2 s')
        then show ?case using z by simp
      next
        case (3 b s')
        have ic': "icache s' = icache s2" using lrest_icache[OF logs.spends_rest[OF 3(4)]] .
        have i2d: "i_dev i2 = ?d" "i_addrs i2 NDIRECT = a" by (simp_all add: i2_def)
        have a0: "a \<noteq> 0" using r(2) by (auto simp: data_block_def)
        have sb: "sblk (lview s2) ?d = sblk ?V ?d" by (simp add: s2(2) alloced_facts(1)[OF p(2) r(2)])
        have "mapped (lview s2) i2 (lview s') i2 (unat bn) b {b}"
          unfolding 3(5) using 3(2,3) z ok2 blk(2) a0 bn i2d s2(2)
          by (intro mapped_indirect[where i = i2, unfolded i2d]) (auto simp: fblock_def)
        then have "mapped ?V ?i (lview s') i2 (unat bn) b {a, b}"
          using mapped_new_indirect[OF p(2,3) r(2,1) True i2_def bn(1)] s2(2) by simp
        moreover have "fspends s s' ({(?d, a), (?d, bitmap_sector (sblk ?V ?d) a)} \<union>
            {(?d, a), (?d, bitmap_sector (sblk (lview s2) ?d) b), (?d, b)})"
          by (rule fspends_trans[OF sp2 fspends_spends[OF 3(4)]])
        then have "fspends s s' (bitmap_area (sblk ?V ?d) ?d \<union> Pair ?d ` {a, b})"
          using bitmap_in_area good_block_data[OF r(2)] good_block_data[OF 3(3)] sb by (elim fspends_mono) auto
        ultimately have "bmap_post s s' ip (unat bn) b {a, b}" using ic' s2(3) i2d bn by (simp add: bmap_post_def insert_commute)
        then show ?case by (rule Q)
      qed
      then show ?case using ic by (simp add: wp_iset s2_def i2_def)
    qed (use c in simp)
    then show ?thesis using True by (simp add: bmap_indirect_eq[OF bn] wp_kbind_fun wp_iinfo wp_kret_fun)
  qed
qed

lemma wp_bmap:
  assumes "bmap_pre s ip (unat bn) K m h" "unat bn < MAXFILE" "\<And>b s' N. bmap_post s s' ip (unat bn) b N \<Longrightarrow> Q b s'"
  shows "wp (bmap ip bn) Q s"
  using assms wp_bmap_direct[of s ip bn K m h Q] wp_bmap_indirect[of s ip bn K m h Q] by blast

section \<open>Contents\<close>

definition fbyte :: "dmap \<Rightarrow> inode \<Rightarrow> nat \<Rightarrow> uchar" where
  "fbyte V i p = (if fblock V i (p div BSIZE) = 0 then 0 else V (i_dev i) (fblock V i (p div BSIZE)) (p mod BSIZE))"

text \<open>Getting a block for a part of the file does not change its contents.\<close>

lemma mapped_dev: "mapped V i V' i' bn b N \<Longrightarrow> i_dev i' = i_dev i"
  unfolding mapped_def by (metis inode.select_convs(1) inode.surjective inode.update_convs(11))

lemma mapped_fbyte:
  assumes ok: "file_ok V i" and m: "mapped V i V' i' bn b N" and p: "p div BSIZE < MAXFILE"
  shows "fbyte V' i' p = fbyte V i p"
proof (cases "p div BSIZE = bn \<and> fblock V i bn = 0")
  case True
  then have "fblock V' i' bn = b" "V' (i_dev i) b = zero_bytes" using m by (auto simp: mapped_def)
  then show ?thesis using True mapped_dev[OF m] by (simp add: fbyte_def zero_bytes_def)
next
  case False
  let ?b = "fblock V i (p div BSIZE)"
  have b: "fblock V' i' (p div BSIZE) = ?b" using m False p by (auto simp: mapped_def split: if_splits)
  have "V' (i_dev i) ?b = V (i_dev i) ?b" if "?b \<noteq> 0"
  proof -
    have g: "good_block V (i_dev i) ?b" "?b \<noteq> i_addrs i NDIRECT" using ok p that by (auto simp: file_ok_def)
    then have "(i_dev i, ?b) \<notin> bitmap_area (sblk V (i_dev i)) (i_dev i)" "?b \<notin> N"
      using m by (auto simp: good_block_def data_block_def mapped_def)
    then show ?thesis using m g(2) by (auto simp: mapped_def)
  qed
  then show ?thesis using b mapped_dev[OF m] by (simp add: fbyte_def)
qed

text \<open>Overwriting a block of the file.\<close>

lemma write_block:
  assumes ok: "file_ok V i" "fs_ok s V (i_dev i)" and bn: "bn < MAXFILE" "fblock V i bn = b" "b \<noteq> 0"
    and V': "V' = dput (i_dev i) b w V"
  shows "fblock V' i bm = fblock V i bm" "file_ok V' i" "fs_ok s V' (i_dev i)"
    and "p div BSIZE < MAXFILE \<Longrightarrow> fbyte V' i p = (if p div BSIZE = bn then w (p mod BSIZE) else fbyte V i p)"
    and "free_set V' (i_dev i) = free_set V (i_dev i)" "V' (i_dev i) 1 = V (i_dev i) 1"
proof -
  let ?d = "i_dev i"
  have g: "data_block (sblk V ?d) ?d b" "b \<noteq> i_addrs i NDIRECT" "b \<noteq> 1"
    using ok(1) bn by (auto simp: file_ok_def good_block_def data_block_def)
  show sb: "V' ?d 1 = V ?d 1" using g by (simp add: V')
  show blk: "fblock V' i bm = fblock V i bm" for bm using g by (auto simp: fblock_def V')
  have use: "in_use V' ?d c = in_use V ?d c" if "unat c < fs_blocks (sblk V ?d)" for c
    using data_not_bitmap[OF g(1) that] sb by (simp add: in_use_def V')
  have good: "good_block V' ?d c = good_block V ?d c" for c
    using use sb good_block_data[of "sblk V ?d" ?d c] by (auto simp: good_block_def)
  show "file_ok V' i" using ok(1) unfolding file_ok_def blk good .
  show "fs_ok s V' ?d" using ok(2) use sb by (auto simp: fs_ok_def fs_data_def)
  show "free_set V' ?d = free_set V ?d" using use sb by (auto simp: free_set_def fs_data_def)
  show "fbyte V' i p = (if p div BSIZE = bn then w (p mod BSIZE) else fbyte V i p)" if "p div BSIZE < MAXFILE"
  proof -
    have "fblock V i (p div BSIZE) \<noteq> b" if "p div BSIZE \<noteq> bn"
      using ok(1) bn \<open>p div BSIZE < MAXFILE\<close> that by (auto simp: file_ok_def)
    then show ?thesis unfolding fbyte_def blk using bn by (auto simp: V')
  qed
qed

section \<open>Reading\<close>

text \<open>A file is ready to be read: it is an ordinary inode, unlocked buffers and a block for each part.\<close>

definition readable :: "'a fsys_scheme \<Rightarrow> nat \<Rightarrow> bool" where
  "readable s ip \<longleftrightarrow> linv s \<and> locked s = {} \<and> logs.has_buffer s \<and>
     fs_ok s (lview s) (i_dev (icache s ip)) \<and> file_ok (lview s) (icache s ip) \<and>
     unat (i_size (icache s ip)) \<le> MAXFILE * BSIZE \<and>
     (\<forall>bn. bn * BSIZE < unat (i_size (icache s ip)) \<longrightarrow> fblock (lview s) (icache s ip) bn \<noteq> 0)"

definition fbytes :: "dmap \<Rightarrow> inode \<Rightarrow> nat \<Rightarrow> nat \<Rightarrow> uchar list" where
  "fbytes V i p n = map (fbyte V i) [p..<p + n]"

lemma unat_chunk:
  assumes "tot \<le> n"
  shows "unat (chunk n tot off) = min (unat n - unat tot) (BSIZE - unat off mod BSIZE)"
proof -
  have m: "unat (off mod 512) = unat off mod 512" by (simp add: unat_mod)
  then have "off mod 512 \<le> 512" by (simp add: word_le_nat_alt)
  then have "unat (512 - off mod 512) = 512 - unat off mod 512" by (simp add: unat_sub m)
  moreover have "unat (n - tot) = unat n - unat tot" using assms by (simp add: unat_sub)
  ultimately show ?thesis by (simp add: chunk_def BSIZE_def min_def word_le_nat_alt)
qed

lemma fbytes_append: "fbytes V i p m @ fbytes V i (p + m) n = fbytes V i p (m + n)"
  using upt_add_eq_append[of p "p + m" n] by (simp add: fbytes_def add.assoc flip: map_append)

lemma block_offset:
  assumes "p mod b + j < (b :: nat)"
  shows "(p + j) div b = p div b" "(p + j) mod b = p mod b + j"
proof -
  have e: "b * (p div b) + p mod b = p" by simp
  show d: "(p + j) div b = p div b"
  proof (rule div_nat_eqI)
    show "b * (p div b) \<le> p + j" using e by linarith
    show "p + j < b * Suc (p div b)" using e assms unfolding mult_Suc_right by linarith
  qed
  have "b * ((p + j) div b) + (p + j) mod b = p + j" by simp
  then show "(p + j) mod b = p mod b + j" using e unfolding d by linarith
qed

lemma fbytes_block:
  assumes "fblock V i (p div BSIZE) = b" "b \<noteq> 0" "p mod BSIZE + m \<le> BSIZE"
  shows "bytes_of (V (i_dev i) b) (p mod BSIZE) m = fbytes V i p m"
proof -
  have "V (i_dev i) b (p mod BSIZE + j) = fbyte V i (p + j)" if "j < m" for j
    using assms that block_offset[of p BSIZE j] by (simp add: fbyte_def)
  then show ?thesis
    by (simp add: bytes_of_def fbytes_def list_eq_iff_nth_eq)
qed

lemma wp_bmap_present:
  assumes r: "readable s ip" and bn: "unat bn < MAXFILE" and blk: "fblock (lview s) (icache s ip) (unat bn) \<noteq> 0"
    and Q: "\<And>s'. logs.spends s s' {} \<Longrightarrow> lview s' = lview s \<Longrightarrow> Q (fblock (lview s) (icache s ip) (unat bn)) s'"
  shows "wp (bmap ip bn) Q s"
proof (rule wp_bmap[where K = "{}" and m = 0 and h = 0])
  show "bmap_pre s ip (unat bn) {} 0 0" using r blk by (auto simp: bmap_pre_def readable_def)
  fix b s' N
  assume p: "bmap_post s s' ip (unat bn) b N"
  then have m: "N = {}" "b = fblock (lview s) (icache s ip) (unat bn)" "lview s' = lview s" "icache s' ip = icache s ip"
    and ic: "icache s' = (icache s)(ip := icache s' ip)"
    using blk by (auto simp: bmap_post_def mapped_def)
  then have "icache s' = icache s" by (metis fun_upd_triv)
  then have "logs.spends s s' {}" using p m(1) by (simp add: bmap_post_def fspends_def)
  then show "Q b s'" using Q m by simp
qed (rule bn)

lemma readable_spends:
  assumes "readable s ip" "logs.spends s t {}" "lview t = lview s"
  shows "readable t ip" "icache t = icache s"
proof -
  show ic: "icache t = icache s" using lrest_icache[OF logs.spends_rest[OF assms(2)]] .
  show "readable t ip"
    using assms logs.spends_inv[OF assms(2)] logs.buffer_spends[OF _ assms(2)] unlocked_held[OF logs.spends_lk[OF assms(2)]]
      alloc_frame(1)[OF assms(2,3)] ic by (auto simp: readable_def)
qed

lemma wp_readi_loop:
  assumes "readable s ip" "off0 + unat n \<le> unat (i_size (icache s ip))" "tot \<le> n" "unat off = off0 + unat tot"
    "unat n - unat tot \<le> f" "dst = fbytes (lview s) (icache s ip) off0 (unat tot)"
    and Q: "\<And>s'. logs.spends s s' {} \<Longrightarrow> lview s' = lview s \<Longrightarrow> Q (fbytes (lview s) (icache s ip) off0 (unat n)) s'"
  shows "wp (readi_loop f ip n tot off dst) Q s"
  using assms
proof (induction f arbitrary: s tot off dst)
  case 0
  then have "tot = n" by (simp add: word_unat_eq_iff word_le_nat_alt)
  then show ?case using 0 logs.spends_refl[of s] by (auto simp: wp_kret readable_def)
next
  case (Suc f)
  let ?i = "icache s ip" and ?V = "lview s" and ?bn = "off div 512" and ?m = "chunk n tot off"
  let ?d = "i_dev ?i" and ?b = "fblock (lview s) (icache s ip) (unat (off div 512))"
  have r: "linv s" "locked s = {}" "fs_ok s ?V ?d" "file_ok ?V ?i" using Suc.prems(1) by (auto simp: readable_def)
  show ?case
  proof (cases "tot < n")
    case False
    then have "tot = n" using Suc.prems(3) by auto
    then show ?thesis using Suc.prems logs.spends_refl[OF r(1)] by (auto simp: wp_kret)
  next
    case True
    have offl: "unat off < unat (i_size ?i)" using True Suc.prems by (simp add: word_less_nat_alt)
    have bn: "unat ?bn = unat off div BSIZE" "unat (off mod 512) = unat off mod BSIZE" by (simp_all add: unat_div unat_mod BSIZE_def)
    have "unat ?bn * BSIZE < unat (i_size ?i)" using bn offl by (metis div_times_less_eq_dividend le_less_trans)
    then have blk: "?b \<noteq> 0" and lt: "unat ?bn < MAXFILE"
      using Suc.prems(1) offl by (auto simp: readable_def) (metis less_le_trans mult_less_cancel2)
    then have ub: "lusable s ?d ?b" using r(3,4) by (auto simp: file_ok_def good_block_def fs_ok_def)
    have m: "unat ?m = min (unat n - unat tot) (BSIZE - unat off mod BSIZE)" by (rule unat_chunk[OF Suc.prems(3)])
    have pos: "0 < unat ?m" using True m by (auto simp: word_less_nat_alt BSIZE_def)
    have mb: "unat off mod BSIZE + unat ?m \<le> BSIZE" using m mod_less_divisor[of BSIZE "unat off"] by (simp add: BSIZE_def)
    have le: "unat tot + unat ?m \<le> unat n" using m Suc.prems(3) by (simp add: word_le_nat_alt)
    have "unat tot + unat ?m < 2 ^ 32" "unat off + unat ?m < 2 ^ 32"
      using le Suc.prems(2,4) unat_lt32[of n] unat_lt32[of "i_size ?i"] by simp_all
    then have tm: "unat (tot + ?m) = unat tot + unat ?m" and om: "unat (off + ?m) = unat off + unat ?m"
      by (simp_all add: unat_add32)
    have dst: "dst @ bytes_of (?V ?d ?b) (unat (off mod 512)) (unat ?m) = fbytes ?V ?i off0 (unat (tot + ?m))"
      using fbytes_block[OF _ blk mb] bn Suc.prems(4,6) fbytes_append[of ?V ?i off0 "unat tot" "unat ?m"]
      by (simp add: tm)
    have "wp (bmap ip ?bn) (\<lambda>a. wp (bread ?d a) (\<lambda>bp. wp (bdata bp) (\<lambda>v. wp (brelse bp) (\<lambda>_.
        wp (readi_loop f ip n (tot + ?m) (off + ?m) (dst @ bytes_of v (unat (off mod 512)) (unat ?m))) Q)))) s"
    proof (rule wp_bmap_present[OF Suc.prems(1) lt blk])
      fix s1
      assume s1: "logs.spends s s1 {}" "lview s1 = ?V"
      note r1 = readable_spends[OF Suc.prems(1) s1]
      have h1: "linv s1" "lusable s1 ?d ?b" "\<forall>i. \<not> held s1 i ?d ?b" "logs.has_buffer s1"
        using r1 ub logs.spends_usable[OF s1(1)] unlocked_held_none by (auto simp: readable_def)
      show "wp (bread ?d ?b) (\<lambda>bp. wp (bdata bp) (\<lambda>v. wp (brelse bp) (\<lambda>_.
        wp (readi_loop f ip n (tot + ?m) (off + ?m) (dst @ bytes_of v (unat (off mod 512)) (unat ?m))) Q))) s1"
      proof (rule logs.wp_read_sector[OF h1])
        fix s2
        assume s2: "logs.spends s1 s2 {}" "lview s2 = lview s1"
        note r2 = readable_spends[OF r1(1) s2]
        have ic: "icache s2 = icache s" "lview s2 = ?V" using r1 r2 s1 s2 by simp_all
        show "wp (readi_loop f ip n (tot + ?m) (off + ?m) (dst @ bytes_of (lview s1 ?d ?b) (unat (off mod 512)) (unat ?m))) Q s2"
        proof (rule Suc.IH[OF r2(1)], goal_cases)
          case (6 s')
          show ?case
            using Suc.prems(7)[of s'] logs.spends_trans[OF logs.spends_trans[OF s1(1) s2(1)] 6(1)] 6(2) ic by simp
        qed (use Suc.prems(2,4,5) ic dst s1 tm om pos le in \<open>auto simp: word_le_nat_alt\<close>)
      qed
    qed
    then show ?thesis using True by (simp add: wp_kbind_fun wp_iinfo Let_def)
  qed
qed

lemma wp_sfs_readi:
  assumes r: "readable s ip" and ty: "i_type (icache s ip) \<noteq> T_DEV"
    and off: "off \<le> i_size (icache s ip)" "\<not> off + n < off"
    and Q: "\<And>s'. logs.spends s s' {} \<Longrightarrow> lview s' = lview s \<Longrightarrow>
      Q (int (min (unat n) (unat (i_size (icache s ip)) - unat off)),
         fbytes (lview s) (icache s ip) (unat off) (min (unat n) (unat (i_size (icache s ip)) - unat off))) s'"
  shows "wp (sfs_readi ip off n) Q s"
proof -
  let ?sz = "i_size (icache s ip)"
  define n' where "n' = (if off + n > ?sz then ?sz - off else n)"
  have un: "unat (?sz - off) = unat ?sz - unat off" using off by (simp add: unat_sub)
  have "unat (off + n) = unat off + unat n" using off(2) by (rule unat_add_nowrap32)
  then have n': "unat n' = min (unat n) (unat ?sz - unat off)"
    using un off(1) by (auto simp: n'_def word_less_nat_alt word_le_nat_alt)
  have small: "unat n' < 2 ^ 31" using n' r by (auto simp: readable_def MAXFILE_def BSIZE_def NDIRECT_def NINDIRECT_def)
  have "wp (readi_loop (unat n') ip n' 0 off []) (\<lambda>dst. wp (kret (sint n', dst)) Q) s"
  proof (rule wp_readi_loop[OF r, where ?off0.0 = "unat off"], goal_cases)
    case (6 s')
    have "sint n' = int (unat n')" using small by (rule sint_small32)
    then show ?case using Q[OF 6] n' by (simp add: wp_kret)
  qed (use n' off in \<open>auto simp: fbytes_def word_le_nat_alt\<close>)
  then show ?thesis
    using ty off unfolding sfs_readi_def n'_def by (auto simp: wp_kbind_fun wp_iinfo Let_def not_less)
qed

text \<open>C9: \<open>sfs_readi\<close> reads the file. On a file whose blocks are in order, for an offset within it, it
  returns, with the bytes of the file from the offset on, as many as were asked for or as the
  file still has; and it changes nothing.\<close>

theorem sfs_readi_contents:
  assumes r: "readable s ip" and ty: "i_type (icache s ip) \<noteq> T_DEV"
    and off: "off \<le> i_size (icache s ip)" "\<not> off + n < off"
  shows "wp (sfs_readi ip off n) (\<lambda>(r, dst) s'.
     dst = fbytes (lview s) (icache s ip) (unat off) (min (unat n) (unat (i_size (icache s ip)) - unat off)) \<and>
     r = int (length dst) \<and> lview s' = lview s \<and> icache s' = icache s \<and> readable s' ip) s"
  using assms readable_spends[OF assms(1)] by (intro wp_sfs_readi) (auto simp: fbytes_def)

end
