(* ===== verification/Sfs_Write.thy ===== *)
theory Sfs_Write
  imports Sfs_File
begin

text \<open>
  Writing files of the simple file system. \<open>wrote\<close> relates the disk and the inode before and after a
  part of a file was written; \<open>room\<close> is what a write needs of the log, the buffers and the free
  blocks. From them follow the effect of the loop of \<open>sfs_writei\<close>, that the inode on disk
  is kept up to date, the effect of the whole of \<open>sfs_writei\<close> on the contents of the file, and
  that reading gives back what was written.
\<close>

section \<open>Writing a part of a file\<close>

definition file_blocks :: "dmap \<Rightarrow> inode \<Rightarrow> uint set" where
  "file_blocks V i = {b. b \<noteq> 0 \<and> (b = i_addrs i NDIRECT \<or> (\<exists>bn<MAXFILE. fblock V i bn = b))}"

text \<open>\<open>wrote V i V' i' p k f\<close>: the \<open>k\<close> bytes of the file from \<open>p\<close> on are now those of \<open>f\<close>, the others
  are what they were, and so are the blocks of other files and all that is no data block.\<close>

definition wrote :: "dmap \<Rightarrow> inode \<Rightarrow> dmap \<Rightarrow> inode \<Rightarrow> nat \<Rightarrow> nat \<Rightarrow> (nat \<Rightarrow> uchar) \<Rightarrow> bool" where
  "wrote V i V' i' p k f \<longleftrightarrow> i' = i\<lparr>i_addrs := i_addrs i'\<rparr> \<and> V' (i_dev i) 1 = V (i_dev i) 1 \<and>
     (\<forall>q. q div BSIZE < MAXFILE \<longrightarrow> fbyte V' i' q = (if p \<le> q \<and> q < p + k then f q else fbyte V i q)) \<and>
     (\<forall>q. p \<le> q \<and> q < p + k \<longrightarrow> fblock V' i' (q div BSIZE) \<noteq> 0) \<and>
     (\<forall>bn<MAXFILE. fblock V i bn \<noteq> 0 \<longrightarrow> fblock V' i' bn = fblock V i bn) \<and>
     ((\<forall>q. p \<le> q \<and> q < p + k \<longrightarrow> fblock V i (q div BSIZE) \<noteq> 0) \<longrightarrow> i' = i) \<and>
     (\<forall>x. data_block (sblk V (i_dev i)) (i_dev i) x \<and> in_use V (i_dev i) x \<and> x \<notin> file_blocks V i \<longrightarrow>
        in_use V' (i_dev i) x \<and> x \<notin> file_blocks V' i' \<and> V' (i_dev i) x = V (i_dev i) x) \<and>
     (\<forall>d x. d \<noteq> i_dev i \<or> x \<noteq> 0 \<and> \<not> data_block (sblk V (i_dev i)) (i_dev i) x \<and> (d, x) \<notin> bitmap_area (sblk V (i_dev i)) (i_dev i) \<longrightarrow>
        V' d x = V d x)"

lemma wrote_dev: "wrote V i V' i' p k f \<Longrightarrow> i_dev i' = i_dev i"
  unfolding wrote_def by (metis inode.select_convs(1) inode.surjective inode.update_convs(11))

lemma wrote_refl: "wrote V i V i p 0 f"
  by (auto simp: wrote_def)

lemma wrote_trans:
  assumes a: "wrote V i V1 i1 p k f" and b: "wrote V1 i1 V2 i2 (p + k) m f" and lim: "(p + k + m) \<le> MAXFILE * BSIZE"
  shows "wrote V i V2 i2 p (k + m) f"
proof -
  note d = wrote_dev[OF a]
  have i2: "i2 = i\<lparr>i_addrs := i_addrs i2\<rparr>" using a b unfolding wrote_def by (metis inode.surjective inode.update_convs(11))
  have part: "q div BSIZE < MAXFILE" if "q < p + k + m" for q using that lim by (simp add: less_mult_imp_div_less)
  have keep: "fblock V2 i2 bn = fblock V1 i1 bn" if "bn < MAXFILE" "fblock V1 i1 bn \<noteq> 0" for bn
    using b that by (auto simp: wrote_def)
  have blk: "fblock V2 i2 (q div BSIZE) \<noteq> 0" if q: "p \<le> q" "q < p + (k + m)" for q
  proof (cases "q < p + k")
    case True
    then have "fblock V1 i1 (q div BSIZE) \<noteq> 0" using a q by (auto simp: wrote_def)
    then show ?thesis using keep part[of q] q by simp
  next
    case False
    then show ?thesis using b q by (auto simp: wrote_def)
  qed
  have byte: "fbyte V2 i2 q = (if p \<le> q \<and> q < p + (k + m) then f q else fbyte V i q)" if "q div BSIZE < MAXFILE" for q
    using a b that by (simp add: wrote_def)
  have old: "fblock V2 i2 bn = fblock V i bn" if "bn < MAXFILE" "fblock V i bn \<noteq> 0" for bn
    using a keep that by (auto simp: wrote_def)
  have a6: "in_use V1 (i_dev i) x \<and> x \<notin> file_blocks V1 i1 \<and> V1 (i_dev i) x = V (i_dev i) x"
    if "data_block (sblk V (i_dev i)) (i_dev i) x" "in_use V (i_dev i) x" "x \<notin> file_blocks V i" for x
    using a that by (simp add: wrote_def)
  have sb: "V1 (i_dev i) 1 = V (i_dev i) 1" "V2 (i_dev i) 1 = V1 (i_dev i) 1" using a b d by (simp_all add: wrote_def)
  have b6: "in_use V2 (i_dev i) x \<and> x \<notin> file_blocks V2 i2 \<and> V2 (i_dev i) x = V1 (i_dev i) x"
    if "data_block (sblk V (i_dev i)) (i_dev i) x" "in_use V1 (i_dev i) x" "x \<notin> file_blocks V1 i1" for x
    using b that d sb(1) by (simp add: wrote_def)
  have rest: "V2 e x = V e x" if "e \<noteq> i_dev i \<or> x \<noteq> 0 \<and> \<not> data_block (sblk V (i_dev i)) (i_dev i) x \<and> (e, x) \<notin> bitmap_area (sblk V (i_dev i)) (i_dev i)" for e x
  proof -
    have "V1 e x = V e x" using a that by (auto simp: wrote_def)
    moreover have "V2 e x = V1 e x" using b that d sb(1) by (auto simp: wrote_def)
    ultimately show ?thesis by simp
  qed
  have same: "i2 = i" if q: "\<And>q. p \<le> q \<Longrightarrow> q < p + (k + m) \<Longrightarrow> fblock V i (q div BSIZE) \<noteq> 0"
  proof -
    have "i1 = i" using a q by (simp add: wrote_def)
    moreover have "fblock V1 i1 (r div BSIZE) \<noteq> 0" if "p + k \<le> r" "r < p + k + m" for r
      using q[of r] that part[of r] a by (simp add: wrote_def)
    then have "i2 = i1" using b by (simp add: wrote_def)
    ultimately show ?thesis by simp
  qed
  show ?thesis unfolding wrote_def using i2 blk byte old a6 b6 sb rest same by simp
qed

lemma mapped_fs_ok: "fs_ok s V (i_dev i) \<Longrightarrow> mapped V i V' i' bn b N \<Longrightarrow> lusable t = lusable s \<Longrightarrow> fs_ok t V' (i_dev i)"
  by (auto simp: fs_ok_def fs_data_def mapped_def)

lemma mapped_free_set:
  assumes "mapped V i V' i' bn b N"
  shows "free_set V' (i_dev i) = free_set V (i_dev i) - N"
  using assms by (auto simp: free_set_def fs_data_def mapped_def)

lemma blit_part:
  assumes "p mod BSIZE + k \<le> BSIZE"
  shows "q div BSIZE = p div BSIZE \<Longrightarrow> blit d (p mod BSIZE) src j k (q mod BSIZE) =
      (if p \<le> q \<and> q < p + k then src (j + (q - p)) else d (q mod BSIZE))"
    and "p \<le> q \<Longrightarrow> q < p + k \<Longrightarrow> q div BSIZE = p div BSIZE"
proof -
  show "blit d (p mod BSIZE) src j k (q mod BSIZE) = (if p \<le> q \<and> q < p + k then src (j + (q - p)) else d (q mod BSIZE))"
    if "q div BSIZE = p div BSIZE"
  proof -
    have "q = BSIZE * (p div BSIZE) + q mod BSIZE" "p = BSIZE * (p div BSIZE) + p mod BSIZE"
      using that by (metis mult_div_mod_eq)+
    then show ?thesis unfolding blit_def by (smt (verit) add_diff_cancel_left add_le_cancel_left nat_add_left_cancel_less add.assoc)
  qed
  show "q div BSIZE = p div BSIZE" if "p \<le> q" "q < p + k"
    using block_offset(1)[of p BSIZE "q - p"] that assms by simp
qed

lemma wrote_part:
  assumes ok: "fs_ok s V (i_dev i)" "file_ok V i" and m: "mapped V i V1 i1 bn b N"
    and bn: "bn < MAXFILE" "bn = p div BSIZE" and k: "p mod BSIZE + k \<le> BSIZE" "0 < k"
    and V': "V' = dput (i_dev i) b (blit (V1 (i_dev i) b) (p mod BSIZE) src j k) V1"
  shows "wrote V i V' i1 p k (\<lambda>q. src (j + (q - p)))" "file_ok V' i1" "fs_ok s V' (i_dev i)"
    "free_set V' (i_dev i) = free_set V (i_dev i) - N"
proof -
  let ?d = "i_dev i"
  note d = mapped_dev[OF m] and ok1 = mapped_file_ok[OF ok(2) m bn(1)] mapped_fs_ok[OF ok(1) m refl]
  have b: "fblock V1 i1 bn = b" "b \<noteq> 0" "V1 ?d 1 = V ?d 1" "i1 = i\<lparr>i_addrs := i_addrs i1\<rparr>" using m by (auto simp: mapped_def)
  note w = write_block[OF ok1(1) ok1(2)[folded d] bn(1) b(1,2) V'[folded d]]
  show "file_ok V' i1" "fs_ok s V' ?d" using w d by simp_all
  show "free_set V' ?d = free_set V ?d - N" using w(5) d mapped_free_set[OF m] by simp
  have byte: "fbyte V' i1 q = (if p \<le> q \<and> q < p + k then src (j + (q - p)) else fbyte V i q)" if q: "q div BSIZE < MAXFILE" for q
  proof (cases "q div BSIZE = bn")
    case True
    then have "fbyte V1 i1 q = V1 ?d b (q mod BSIZE)" using b d by (simp add: fbyte_def)
    then show ?thesis using w(4)[OF q] True blit_part(1)[OF k(1), of q] bn(2) mapped_fbyte[OF ok(2) m q] d by simp
  next
    case False
    then show ?thesis using w(4)[OF q] blit_part(2)[OF k(1), of q] bn(2) mapped_fbyte[OF ok(2) m q] by auto
  qed
  have blk: "fblock V' i1 (q div BSIZE) \<noteq> 0" if "p \<le> q" "q < p + k" for q
    using w(1) b bn(2) blit_part(2)[OF k(1) that] by simp
  have old: "fblock V' i1 bm = fblock V i bm" if "bm < MAXFILE" "fblock V i bm \<noteq> 0" for bm
    using w(1) m that by (cases "bm = bn") (auto simp: mapped_def)
  have same: "i1 = i" if "\<forall>q. p \<le> q \<and> q < p + k \<longrightarrow> fblock V i (q div BSIZE) \<noteq> 0"
    using spec[OF that, of p] m k(2) bn(2) by (auto simp: mapped_def split: if_splits)
  have one: "fblock V' i1 bm = fblock V i bm \<or> fblock V' i1 bm \<in> N" if "bm < MAXFILE" for bm
    using w(1) m that by (cases "bm = bn") (auto simp: mapped_def split: if_splits)
  have ind: "i_addrs i1 NDIRECT = 0 \<or> i_addrs i1 NDIRECT = i_addrs i NDIRECT \<or> i_addrs i1 NDIRECT \<in> N"
    using m by (auto simp: mapped_def split: if_splits)
  have new: "c \<in> file_blocks V i \<or> c \<in> N" if "c \<in> file_blocks V' i1" for c
    using that one ind unfolding file_blocks_def by fastforce
  have bN: "b \<in> file_blocks V i \<or> b \<in> N" using b bn(1) w(1) by (intro new) (auto simp: file_blocks_def)
  have fresh: "\<not> in_use V ?d c" "data_block (sblk V ?d) ?d c" if "c \<in> N" for c using m that by (auto simp: mapped_def)
  have bdata: "data_block (sblk V ?d) ?d b" using ok1(1) b d bn(1) by (auto simp: file_ok_def good_block_def)
  have other: "in_use V' ?d x \<and> x \<notin> file_blocks V' i1 \<and> V' ?d x = V ?d x"
    if x: "data_block (sblk V ?d) ?d x" "in_use V ?d x" "x \<notin> file_blocks V i" for x
  proof -
    have n: "x \<notin> N" "x \<noteq> b" using x fresh bN by auto
    have "x \<noteq> i_addrs i NDIRECT" using x by (auto simp: file_blocks_def data_block_def)
    then have "V1 ?d x = V ?d x" using m n x by (auto simp: mapped_def data_block_def)
    moreover have "in_use V1 ?d x" using m x good_block_data[OF x(1)] by (auto simp: mapped_def)
    moreover have "bitmap_sector (sblk V ?d) x \<noteq> b" using data_not_bitmap[OF bdata] good_block_data[OF x(1)] by blast
    then have "V' ?d (bitmap_sector (sblk V ?d) x) = V1 ?d (bitmap_sector (sblk V ?d) x)" by (simp add: V')
    then have "in_use V' ?d x = in_use V1 ?d x" using w(6) d b(3) by (simp add: in_use_def)
    ultimately show ?thesis using n x new by (auto simp: V')
  qed
  have rest: "V' e x = V e x" if "e \<noteq> ?d \<or> x \<noteq> 0 \<and> \<not> data_block (sblk V ?d) ?d x \<and> (e, x) \<notin> bitmap_area (sblk V ?d) ?d" for e x
  proof -
    have "(e, x) \<notin> bitmap_area (sblk V ?d) ?d" using that by (auto simp: bitmap_area_def)
    moreover have "e \<noteq> ?d \<or> x \<notin> N \<and> x \<noteq> b" using that fresh bdata by auto
    moreover have "e \<noteq> ?d \<or> x \<noteq> i_addrs i NDIRECT" using that ok(2) by (auto simp: file_ok_def good_block_def)
    ultimately show ?thesis using m by (auto simp: V' mapped_def)
  qed
  show "wrote V i V' i1 p k (\<lambda>q. src (j + (q - p)))"
    unfolding wrote_def using byte blk old other rest b w(6) d same by auto
qed

section \<open>What a write needs\<close>

definition fsready :: "'a fsys_scheme \<Rightarrow> nat \<Rightarrow> bool" where
  "fsready s ip \<longleftrightarrow> linv s \<and> locked s = {} \<and> fs_ok s (lview s) (i_dev (icache s ip)) \<and> file_ok (lview s) (icache s ip)"

definition ind_need :: "inode \<Rightarrow> nat" where
  "ind_need i = (if i_addrs i NDIRECT = 0 then 1 else 0)"

text \<open>\<open>room s ip K m\<close>: the log and the buffers have room for the sectors of \<open>K\<close>, the bitmap and the
  indirect block among them, and \<open>m\<close> more, and there are \<open>m\<close> free blocks.\<close>

definition room :: "'a fsys_scheme \<Rightarrow> nat \<Rightarrow> (uint \<times> uint) set \<Rightarrow> nat \<Rightarrow> bool" where
  "room s ip K m \<longleftrightarrow> logs.affords s K m 2 \<and> m \<le> card (free_set (lview s) (i_dev (icache s ip))) \<and>
     bitmap_area (sblk (lview s) (i_dev (icache s ip))) (i_dev (icache s ip)) \<subseteq> K \<and>
     (i_addrs (icache s ip) NDIRECT \<noteq> 0 \<longrightarrow> (i_dev (icache s ip), i_addrs (icache s ip) NDIRECT) \<in> K)"

lemma mapped_cost:
  assumes "mapped V i V' i' bn b N"
  shows "card (insert b N) + ind_need i' \<le> 1 + ind_need i" "finite N"
    and "i_addrs i' NDIRECT \<noteq> 0 \<Longrightarrow> i_addrs i' NDIRECT = i_addrs i NDIRECT \<or> i_addrs i' NDIRECT \<in> N"
proof -
  show fin: "finite N" using assms by (simp add: mapped_def)
  show ind: "i_addrs i' NDIRECT = i_addrs i NDIRECT \<or> i_addrs i' NDIRECT \<in> N" if "i_addrs i' NDIRECT \<noteq> 0"
    using assms that by (auto simp: mapped_def split: if_splits)
  show "card (insert b N) + ind_need i' \<le> 1 + ind_need i"
  proof (cases "fblock V i bn = 0")
    case True
    then have b: "b \<in> N" "i_addrs i' NDIRECT \<noteq> b" "card N \<le> bneed i bn" using assms by (auto simp: mapped_def)
    then have i: "insert b N = N" by auto
    show ?thesis
    proof (cases "i_addrs i NDIRECT = 0 \<and> i_addrs i' NDIRECT = 0")
      case True
      have "bn < NDIRECT" using True assms by (auto simp: mapped_def fblock_def split: if_splits)
      then show ?thesis using b True i by (simp add: ind_need_def bneed_def)
    next
      case False
      have "i_addrs i NDIRECT \<noteq> 0 \<Longrightarrow> i_addrs i' NDIRECT = i_addrs i NDIRECT" using assms by (auto simp: mapped_def)
      then show ?thesis using b False i bneed_bounds(2)[of i bn] by (auto simp: ind_need_def bneed_def split: if_splits)
    qed
  next
    case False
    then have "N = {}" "i' = i" using assms by (auto simp: mapped_def)
    then show ?thesis by simp
  qed
qed

lemma wp_write_part:
  assumes r: "fsready s ip" "room s ip K m" "1 + ind_need (icache s ip) \<le> m"
    and k: "unat off div BSIZE < MAXFILE" "unat off mod BSIZE + k \<le> BSIZE" "0 < k"
    and Q: "\<And>s' L c. fsready s' ip \<Longrightarrow> K \<subseteq> L \<Longrightarrow> room s' ip L (m - c) \<Longrightarrow> c + ind_need (icache s' ip) \<le> 1 + ind_need (icache s ip) \<Longrightarrow>
       wrote (lview s) (icache s ip) (lview s') (icache s' ip) (unat off) k (\<lambda>q. src (j + (q - unat off))) \<Longrightarrow>
       icache s' = (icache s)(ip := icache s' ip) \<Longrightarrow> lusable s' = lusable s \<Longrightarrow> Q s'"
  shows "wp (bmap ip (off div 512)) (\<lambda>a. wp (bread (i_dev (icache s ip)) a) (\<lambda>bp. wp (bdata bp) (\<lambda>v.
     wp (bput bp (blit v (unat (off mod 512)) src j k)) (\<lambda>_. wp (log_write bp) (\<lambda>_. wp (brelse bp) (\<lambda>_. Q)))))) s"
proof -
  let ?V = "lview s" and ?i = "icache s ip" and ?bn = "unat off div BSIZE"
  let ?d = "i_dev ?i"
  have bn: "unat (off div 512) = ?bn" "unat (off mod 512) = unat off mod BSIZE" by (simp_all add: unat_div unat_mod BSIZE_def)
  have p: "linv s" "locked s = {}" "fs_ok s ?V ?d" "file_ok ?V ?i" using r(1) by (auto simp: fsready_def)
  have a: "logs.affords s K m 2" using r(2) by (simp add: room_def)
  have need: "bneed ?i ?bn \<le> 1 + ind_need ?i" by (simp add: bneed_def ind_need_def)
  have pre: "bmap_pre s ip (unat (off div 512)) K m 0"
    using p r(2,3) need logs.affords_buffer[OF a] by (auto simp: bmap_pre_def room_def bn numeral_2_eq_2)
  show ?thesis
  proof (rule wp_bmap[OF pre], goal_cases)
    case 1
    then show ?case using k(1) bn by simp
  next
    case (2 b s1 N)
    have m: "mapped ?V ?i (lview s1) (icache s1 ip) ?bn b N" and ic: "icache s1 = (icache s)(ip := icache s1 ip)"
      using 2 bn by (auto simp: bmap_post_def)
    note c = mapped_cost[OF m]
    define A where "A = (bitmap_area (sblk ?V ?d) ?d \<union> (if i_addrs ?i NDIRECT = 0 then {} else {(?d, i_addrs ?i NDIRECT)}))"
    define B where "B = Pair ?d ` insert b N"
    have A: "A \<subseteq> K" using r(2) by (auto simp: A_def room_def)
    have ind: "\<not> ?bn < NDIRECT \<Longrightarrow> i_addrs (icache s1 ip) NDIRECT \<noteq> 0" using m by (auto simp: mapped_def fblock_def)
    have sp1: "fspends s s1 (A \<union> B)"
      using 2 bn c(3) ind by (auto simp: bmap_post_def A_def B_def split: if_splits elim!: fspends_mono)
    have "finite (insert b N)" using c(2) by simp
    then have cB: "finite B" "card B \<le> card (insert b N)" "card (insert b N) \<le> m"
      unfolding B_def using c(1) r(3) by (auto simp del: image_insert intro: card_image_le)
    have a1: "logs.affords s1 (K \<union> B) (m - card (insert b N)) 2" by (rule affords_fspends_more[OF a sp1 A cB])
    have s1: "linv s1" "lusable s1 = lusable s" "held s1 = held s" using fspendsD[OF sp1] by auto
    note ok1 = mapped_file_ok[OF p(4) m k(1)]
    have gb: "data_block (sblk ?V ?d) ?d b" using ok1 m k(1) mapped_dev[OF m] by (auto simp: file_ok_def good_block_def mapped_def)
    have u: "lusable s1 ?d b" using p(3) gb s1(2) by (auto simp: fs_ok_def)
    have un: "\<forall>i. \<not> held s1 i ?d b" using unlocked_held_none[OF p(2)] s1(3) by simp
    show ?case
    proof (rule logs.wp_update_sector[OF s1(1) u un], rule a1[unfolded numeral_2_eq_2], goal_cases)
      case (1 s2)
      have ic2: "icache s2 = icache s1" using lrest_icache[OF logs.spends_rest[OF 1(1)]] .
      have "fspends s s2 ((A \<union> B) \<union> {(?d, b)})" by (rule fspends_trans[OF sp1 fspends_spends[OF 1(1)]])
      then have sp2: "fspends s s2 (A \<union> B)" by (elim fspends_mono) (auto simp: B_def)
      have a2: "logs.affords s2 (K \<union> B) (m - card (insert b N)) 2" by (rule affords_fspends_more[OF a sp2 A cB])
      have s2: "linv s2" "lusable s2 = lusable s" "held s2 = held s" using fspendsD[OF sp2] by auto
      note w = wrote_part[OF p(3,4) m k(1) refl k(2,3) 1(2)[unfolded bn]]
      have i2: "i_dev (icache s2 ip) = ?d" using mapped_dev[OF m] ic2 by simp
      have "fsready s2 ip"
        using s2 w i2 ic2 unlocked_held[OF s2(3) p(2)] unfolding fsready_def by (auto simp: fs_ok_def)
      moreover have "room s2 ip (K \<union> B) (m - card (insert b N))"
      proof -
        have "card (free_set ?V ?d) - card N \<le> card (free_set (lview s2) ?d)" using w(4) c(2) by (simp add: diff_card_le_card_Diff)
        moreover have "card N \<le> card (insert b N)" using c(2) by (intro card_mono) auto
        moreover have "sblk (lview s2) ?d = sblk ?V ?d" using w(1) by (simp add: wrote_def)
        ultimately show ?thesis using a2 r(2) c(3) unfolding room_def ic2 mapped_dev[OF m] by (auto simp: B_def)
      qed
      ultimately show ?case
        using w(1) ic ic2 s2(2) c(1) by (intro Q[of s2 "K \<union> B" "card (insert b N)"]) auto
    qed
  qed
qed

lemma room_mono: "room s ip K m \<Longrightarrow> n \<le> m \<Longrightarrow> room s ip K n"
  using logs.affords_mono[of s K m 2 n 2] by (auto simp: room_def)

section \<open>The loop\<close>

definition span :: "nat \<Rightarrow> nat \<Rightarrow> nat" where
  \<comment> \<open>in how many blocks the \<open>k\<close> bytes from \<open>p\<close> on lie\<close>
  "span p k = (if k = 0 then 0 else (p mod BSIZE + k + BSIZE - 1) div BSIZE)"

lemma span_step:
  assumes "0 < k" "m = min k (BSIZE - p mod BSIZE)"
  shows "span p k = Suc (span (p + m) (k - m))"
proof (cases "k \<le> BSIZE - p mod BSIZE")
  case True
  then have "(p mod BSIZE + k + BSIZE - 1) div BSIZE = 1" using assms(1) by (intro div_nat_eqI) (auto simp: BSIZE_def)
  then show ?thesis using True assms by (simp add: span_def)
next
  case False
  have "p mod BSIZE < BSIZE" by (simp add: BSIZE_def)
  then have pm: "p mod BSIZE + m = BSIZE" "m < k" using False assms by auto
  then have "(p + m) mod BSIZE = 0" by (metis mod_add_left_eq mod_self)
  moreover have "p mod BSIZE + k + BSIZE - 1 = BSIZE + (k - m + BSIZE - 1)" using pm by (simp add: BSIZE_def)
  moreover have "(BSIZE + (k - m + BSIZE - 1)) div BSIZE = Suc ((k - m + BSIZE - 1) div BSIZE)" by (simp add: BSIZE_def)
  ultimately show ?thesis using assms pm by (simp add: span_def)
qed

lemma wrote_cong: "wrote V i V' i' p k f \<Longrightarrow> (\<And>q. p \<le> q \<Longrightarrow> q < p + k \<Longrightarrow> f q = g q) \<Longrightarrow> wrote V i V' i' p k g"
  by (simp add: wrote_def)

lemma unat_eq_of_nat: "unat (off :: uint) = k \<Longrightarrow> off = of_nat k"
  by auto

lemma upd_trans: "f' = f(x := f' x) \<Longrightarrow> f'' = f'(x := f'' x) \<Longrightarrow> f'' = f(x := f'' x)"
  by (metis fun_upd_upd)

lemma wp_writei_loop:
  assumes "fsready s ip" "room s ip K m" "span (unat off) (unat n - unat tot) + ind_need (icache s ip) \<le> m"
    "tot \<le> n" "unat off = p + unat tot" "p + unat n \<le> MAXFILE * BSIZE" "unat n - unat tot \<le> f"
    and Q: "\<And>s' L. fsready s' ip \<Longrightarrow> K \<subseteq> L \<Longrightarrow> room s' ip L 0 \<Longrightarrow>
       wrote (lview s) (icache s ip) (lview s') (icache s' ip) (unat off) (unat n - unat tot) (\<lambda>q. cview src (q - p)) \<Longrightarrow>
       icache s' = (icache s)(ip := icache s' ip) \<Longrightarrow> lusable s' = lusable s \<Longrightarrow> Q (of_nat (p + unat n)) s'"
  shows "wp (writei_loop f ip src n tot off) Q s"
  using assms
proof (induction f arbitrary: s K m tot off)
  case 0
  have "tot = n" using 0(4,7) by (simp add: word_unat_eq_iff word_le_nat_alt)
  moreover from this have "off = of_nat (p + unat n)" using 0(5) by (intro unat_eq_of_nat) simp
  ultimately show ?case using 0(8)[of s K] 0(1) room_mono[OF 0(2)] wrote_refl by (simp add: wp_kret)
next
  case (Suc f)
  let ?m = "chunk n tot off" and ?o = "unat off"
  show ?case
  proof (cases "tot < n")
    case False
    then have "tot = n" using Suc.prems(4) by auto
    moreover from this have "off = of_nat (p + unat n)" using Suc.prems(5) by (intro unat_eq_of_nat) simp
    ultimately show ?thesis using Suc.prems(8)[of s K] Suc.prems(1) room_mono[OF Suc.prems(2)] wrote_refl by (simp add: wp_kret)
  next
    case True
    have m: "unat ?m = min (unat n - unat tot) (BSIZE - ?o mod BSIZE)" by (rule unat_chunk[OF Suc.prems(4)])
    have pos: "0 < unat ?m" using True m by (auto simp: word_less_nat_alt BSIZE_def)
    have le: "unat tot + unat ?m \<le> unat n" using m Suc.prems(4) by (simp add: word_le_nat_alt)
    have mb: "?o mod BSIZE + unat ?m \<le> BSIZE" using m mod_less_divisor[of BSIZE ?o] by (simp add: BSIZE_def)
    have olt: "?o < MAXFILE * BSIZE" using Suc.prems(5,6) le pos by simp
    then have bn: "?o div BSIZE < MAXFILE" by (simp add: less_mult_imp_div_less)
    have "unat tot + unat ?m < 2 ^ 32" "?o + unat ?m < 2 ^ 32"
      using le Suc.prems(5,6) unat_lt32[of n] by (simp_all add: MAXFILE_def NDIRECT_def NINDIRECT_def BSIZE_def)
    then have tm: "unat (tot + ?m) = unat tot + unat ?m" and om: "unat (off + ?m) = ?o + unat ?m" by (simp_all add: unat_add32)
    have sp: "span ?o (unat n - unat tot) = Suc (span (unat (off + ?m)) (unat n - unat (tot + ?m)))"
      using span_step[OF _ m] pos m unfolding tm om by (simp add: diff_diff_left)
    have need: "1 + ind_need (icache s ip) \<le> m" using sp Suc.prems(3) by simp
    have "wp (bmap ip (off div 512)) (\<lambda>a. wp (bread (i_dev (icache s ip)) a) (\<lambda>bp. wp (bdata bp) (\<lambda>v.
       wp (bput bp (blit v (unat (off mod 512)) (cview src) (unat tot) (unat ?m))) (\<lambda>_. wp (log_write bp) (\<lambda>_. wp (brelse bp) (\<lambda>_.
         wp (writei_loop f ip src n (tot + ?m) (off + ?m)) Q)))))) s"
    proof (rule wp_write_part[OF Suc.prems(1,2) need bn mb pos], goal_cases)
      case (1 s1 L c)
      have w1: "wrote (lview s) (icache s ip) (lview s1) (icache s1 ip) ?o (unat ?m) (\<lambda>q. cview src (q - p))"
        using 1(5) Suc.prems(5) by (elim wrote_cong) simp
      show ?case
      proof (rule Suc.IH[OF 1(1,3)], goal_cases)
        case (6 s2 L2)
        have e: "unat ?m + (unat n - unat (tot + ?m)) = unat n - unat tot" using le tm by simp
        have w: "wrote (lview s) (icache s ip) (lview s2) (icache s2 ip) ?o (unat n - unat tot) (\<lambda>q. cview src (q - p))"
          using wrote_trans[OF w1 6(4)[unfolded om]] Suc.prems(5,6) le tm e by simp
        have ic: "icache s2 = (icache s)(ip := icache s2 ip)" using upd_trans[OF 1(6) 6(5)] .
        have L: "K \<subseteq> L2" "lusable s2 = lusable s" using 1(2,7) 6(2,6) by auto
        show ?case by (rule Suc.prems(8)[OF 6(1) L(1) 6(3) w ic L(2)])
      qed (use sp Suc.prems(3-7) 1(4) tm om le pos in \<open>auto simp: word_le_nat_alt\<close>)
    qed
    then show ?thesis using True by (simp add: wp_kbind_fun wp_iinfo Let_def)
  qed
qed

section \<open>The inode on disk\<close>

lemma put_addrs_other: "q < p + 4 * k \<or> p + 4 * (k + n) \<le> q \<Longrightarrow> put_addrs k n a p d q = d q"
  by (induction n arbitrary: k d) auto

lemma put_addrs_ld: "ld32 (put_addrs k n a p d) (p + 4 * j) = (if k \<le> j \<and> j < k + n then a j else ld32 d (p + 4 * j))"
proof (induction n arbitrary: k d)
  case (Suc n)
  have "ld32 (st32 d (p + 4 * k) (a k)) (p + 4 * j) = (if j = k then a k else ld32 d (p + 4 * j))"
  proof (cases "j = k")
    case False
    then have "p + 4 * j + 4 \<le> p + 4 * k \<or> p + 4 * k + 4 \<le> p + 4 * j" by arith
    then show ?thesis using False by simp
  qed simp
  then show ?case using Suc by auto
qed auto

lemma store_dinode_other: "q < p \<or> p + 64 \<le> q \<Longrightarrow> store_dinode i p d q = d q"
  unfolding store_dinode_def by (subst put_addrs_other) (auto simp: NDIRECT_def)

lemma load_store_dinode: "load_dinode (store_dinode i p d) p j =
   j\<lparr>i_type := i_type i, i_major := i_major i, i_minor := i_minor i, i_nlink := i_nlink i, i_size := i_size i,
     i_addrs := (\<lambda>k. if k \<le> NDIRECT then i_addrs i k else i_addrs j k)\<rparr>"
proof -
  let ?d = "st32 (st16 (st16 (st16 (st16 d p (i_type i)) (p + 2) (i_major i)) (p + 4) (i_minor i)) (p + 6) (i_nlink i)) (p + 8) (i_size i)"
  have low: "ld16 (put_addrs 0 n a (p + 12) e) q = ld16 e q" if "q + 2 \<le> p + 12" for q n a e
    using that by (intro ld16_cong put_addrs_other) auto
  have low4: "ld32 (put_addrs 0 n a (p + 12) e) q = ld32 e q" if "q + 4 \<le> p + 12" for q n a e
    using that by (intro ld32_cong put_addrs_other) auto
  show ?thesis
    by (simp add: load_dinode_def store_dinode_def low low4 put_addrs_ld NDIRECT_def less_Suc_eq_le cong: if_cong)
qed

lemma load_dinode_other:
  assumes "q + 64 \<le> p \<or> p + 64 \<le> q"
  shows "load_dinode (store_dinode i p d) q j = load_dinode d q j"
proof -
  have "ld16 (store_dinode i p d) (q + r) = ld16 d (q + r)" if "r + 2 \<le> 64" for r
    using that assms by (intro ld16_cong store_dinode_other) auto
  from this[of 0] this[of 2] this[of 4] this[of 6]
  have a: "ld16 (store_dinode i p d) q = ld16 d q" "ld16 (store_dinode i p d) (q + 2) = ld16 d (q + 2)"
    "ld16 (store_dinode i p d) (q + 4) = ld16 d (q + 4)" "ld16 (store_dinode i p d) (q + 6) = ld16 d (q + 6)" by simp_all
  have b: "ld32 (store_dinode i p d) (q + r) = ld32 d (q + r)" if "r + 4 \<le> 64" for r
    using that assms by (intro ld32_cong store_dinode_other) auto
  have "ld32 (store_dinode i p d) (q + 12 + 4 * k) = ld32 d (q + 12 + 4 * k)" if "k \<le> NDIRECT" for k
    using b[of "12 + 4 * k"] that by (simp add: NDIRECT_def add.assoc)
  then show ?thesis using a b[of 8] by (simp add: load_dinode_def cong: if_cong)
qed

definition on_disk :: "dmap \<Rightarrow> inode \<Rightarrow> bool" where
  \<comment> \<open>the inode on disk is the one in memory\<close>
  "on_disk V i \<longleftrightarrow> load_dinode (V (i_dev i) (IBLOCK (i_inum i))) (dinode_at (i_inum i)) i = i"

definition inode_place :: "'a log_scheme \<Rightarrow> dmap \<Rightarrow> inode \<Rightarrow> bool" where
  "inode_place s V i \<longleftrightarrow> unat (i_inum i) < unat (sb_ninodes (sblk V (i_dev i))) \<and> lusable s (i_dev i) (IBLOCK (i_inum i)) \<and>
     IBLOCK (i_inum i) \<noteq> 1 \<and> (i_dev i, IBLOCK (i_inum i)) \<notin> bitmap_area (sblk V (i_dev i)) (i_dev i)"

text \<open>Changing a sector with inodes leaves the blocks of the file system alone.\<close>

lemma meta_frame:
  assumes ok: "file_ok V i" "fs_ok s V (i_dev i)" and pl: "x \<noteq> 1" "(i_dev i, x) \<notin> bitmap_area (sblk V (i_dev i)) (i_dev i)"
    "\<not> data_block (sblk V (i_dev i)) (i_dev i) x" and V': "V' = dput (i_dev i) x w V"
    and i': "i_dev i' = i_dev i" "i_addrs i' = i_addrs i"
  shows "fblock V' i' = fblock V i" "file_ok V' i'" "fs_ok s V' (i_dev i)" "q div BSIZE < MAXFILE \<Longrightarrow> fbyte V' i' q = fbyte V i q"
    "V' (i_dev i) 1 = V (i_dev i) 1" "good_block V' (i_dev i) c = good_block V (i_dev i) c"
proof -
  let ?d = "i_dev i"
  show sb: "V' ?d 1 = V ?d 1" using pl by (simp add: V')
  have nx: "good_block V ?d b \<Longrightarrow> b \<noteq> x" for b using pl by (auto simp: good_block_def)
  then have ind: "i_addrs i NDIRECT \<noteq> 0 \<Longrightarrow> i_addrs i NDIRECT \<noteq> x" using ok(1) by (auto simp: file_ok_def)
  show blk: "fblock V' i' = fblock V i" using ind i' by (auto simp: fun_eq_iff fblock_def V')
  have use: "in_use V' ?d c = in_use V ?d c" if "unat c < fs_blocks (sblk V ?d)" for c
  proof -
    have "bitmap_sector (sblk V ?d) c \<noteq> x" using bitmap_in_area[OF that, of ?d] pl(2) by auto
    then show ?thesis unfolding in_use_def sb by (simp add: V')
  qed
  show good: "good_block V' ?d c = good_block V ?d c" for c
    using use sb good_block_data[of "sblk V ?d" ?d c] by (auto simp: good_block_def)
  show "file_ok V' i'" using ok(1) unfolding file_ok_def blk i' good .
  show "fs_ok s V' ?d" using ok(2) use sb by (auto simp: fs_ok_def fs_data_def)
  show "fbyte V' i' q = fbyte V i q" if "q div BSIZE < MAXFILE"
    using that nx ok(1) unfolding fbyte_def blk i' by (auto simp: V' file_ok_def)
qed

lemma IBLOCK_no_data: "unat n < unat (sb_ninodes sb) \<Longrightarrow> \<not> data_block sb dev (IBLOCK n)"
  by (auto simp: data_block_def)

lemma wp_sfs_iupdate:
  assumes p: "linv s" "locked s = {}" "lusable s (i_dev (icache s ip)) (IBLOCK (i_inum (icache s ip)))" and aff: "logs.affords s K m (Suc h)"
    and Q: "\<And>s'. logs.spends s s' {(i_dev (icache s ip), IBLOCK (i_inum (icache s ip)))} \<Longrightarrow>
      lview s' = dput (i_dev (icache s ip)) (IBLOCK (i_inum (icache s ip)))
        (store_dinode (icache s ip) (dinode_at (i_inum (icache s ip))) (lview s (i_dev (icache s ip)) (IBLOCK (i_inum (icache s ip))))) (lview s)
      \<Longrightarrow> Q () s'"
  shows "wp (sfs_iupdate ip) Q s"
  unfolding sfs_iupdate_def wp_kbind_fun wp_iinfo
  by (rule logs.wp_update_sector[OF p(1,3) _ aff]) (use Q unlocked_held_none[OF p(2)] in auto)

section \<open>Writing a file\<close>

definition patched :: "uchar list \<Rightarrow> nat \<Rightarrow> uchar list \<Rightarrow> uchar list" where
  "patched f p src = take p f @ src @ drop (p + length src) f"

definition contents :: "dmap \<Rightarrow> inode \<Rightarrow> uchar list" where
  "contents V i = fbytes V i 0 (unat (i_size i))"

definition no_holes :: "dmap \<Rightarrow> inode \<Rightarrow> bool" where
  "no_holes V i \<longleftrightarrow> unat (i_size i) \<le> MAXFILE * BSIZE \<and> (\<forall>q<unat (i_size i). fblock V i (q div BSIZE) \<noteq> 0)"

definition writable :: "'a fsys_scheme \<Rightarrow> nat \<Rightarrow> nat \<Rightarrow> nat \<Rightarrow> (uint \<times> uint) set \<Rightarrow> bool" where
  "writable s ip p n K \<longleftrightarrow> fsready s ip \<and> no_holes (lview s) (icache s ip) \<and> inode_place s (lview s) (icache s ip) \<and>
     (i_dev (icache s ip), IBLOCK (i_inum (icache s ip))) \<in> K \<and> room s ip K (span p n + ind_need (icache s ip))"

lemma patched_contents:
  assumes w: "wrote V i V' i' p (length src) (\<lambda>q. cview src (q - p))" and p: "p \<le> unat (i_size i)"
    and sz: "n = max (p + length src) (unat (i_size i))" "n \<le> MAXFILE * BSIZE"
  shows "fbytes V' i' 0 n = patched (contents V i) p src"
proof (rule nth_equalityI)
  have l: "length (contents V i) = unat (i_size i)" by (simp add: contents_def fbytes_def)
  show "length (fbytes V' i' 0 n) = length (patched (contents V i) p src)"
    using p sz(1) by (simp add: patched_def fbytes_def l max_def)
  fix q assume "q < length (fbytes V' i' 0 n)"
  then have q: "q < n" by (simp add: fbytes_def)
  then have "q div BSIZE < MAXFILE" using sz(2) by (simp add: less_mult_imp_div_less)
  then have b: "fbyte V' i' q = (if p \<le> q \<and> q < p + length src then cview src (q - p) else fbyte V i q)"
    using w by (simp add: wrote_def)
  have c: "contents V i ! q = fbyte V i q" if "q < unat (i_size i)" using that by (simp add: contents_def fbytes_def)
  have "patched (contents V i) p src ! q = (if p \<le> q \<and> q < p + length src then src ! (q - p) else contents V i ! q)"
    using p q sz(1) by (auto simp: patched_def nth_append l max_def split: if_splits)
  then show "fbytes V' i' 0 n ! q = patched (contents V i) p src ! q"
    using b c q p sz(1) by (auto simp: fbytes_def cview_def max_def split: if_splits)
qed

definition writei_post :: "'a fsys_scheme \<Rightarrow> 'a fsys_scheme \<Rightarrow> nat \<Rightarrow> nat \<Rightarrow> uchar list \<Rightarrow> bool" where
  "writei_post s s' ip p src \<longleftrightarrow> readable s' ip \<and> icache s' = (icache s)(ip := icache s' ip) \<and>
     icache s' ip = (icache s ip)\<lparr>i_addrs := i_addrs (icache s' ip), i_size := i_size (icache s' ip)\<rparr> \<and>
     unat (i_size (icache s' ip)) = max (p + length src) (unat (i_size (icache s ip))) \<and>
     contents (lview s') (icache s' ip) = patched (contents (lview s) (icache s ip)) p src \<and>
     (on_disk (lview s) (icache s ip) \<longrightarrow> on_disk (lview s') (icache s' ip)) \<and>
     (\<forall>x. good_block (lview s) (i_dev (icache s ip)) x \<and> x \<notin> file_blocks (lview s) (icache s ip) \<longrightarrow>
        good_block (lview s') (i_dev (icache s ip)) x \<and> x \<notin> file_blocks (lview s') (icache s' ip) \<and>
        lview s' (i_dev (icache s ip)) x = lview s (i_dev (icache s ip)) x)"

lemma no_holes_wrote:
  assumes w: "wrote V i V' i' p k f" and nh: "no_holes V i" and n: "n \<le> max (p + k) (unat (i_size i))" "n \<le> MAXFILE * BSIZE"
    and p: "p \<le> unat (i_size i)"
  shows "q < n \<Longrightarrow> fblock V' i' (q div BSIZE) \<noteq> 0"
proof -
  assume q: "q < n"
  then have bn: "q div BSIZE < MAXFILE" using n by (simp add: less_mult_imp_div_less)
  show "fblock V' i' (q div BSIZE) \<noteq> 0"
  proof (cases "q < unat (i_size i)")
    case True
    then show ?thesis using nh w bn by (auto simp: no_holes_def wrote_def)
  next
    case False
    then show ?thesis using w q n p by (auto simp: wrote_def)
  qed
qed

lemma readableI:
  assumes "fsready s ip" "logs.has_buffer s" "unat (i_size (icache s ip)) = n" "n \<le> MAXFILE * BSIZE"
    "\<And>q. q < n \<Longrightarrow> fblock (lview s) (icache s ip) (q div BSIZE) \<noteq> 0"
  shows "readable s ip"
proof -
  have "fblock (lview s) (icache s ip) bn \<noteq> 0" if "bn * BSIZE < n" for bn
    using assms(5)[OF that] by (simp add: BSIZE_def)
  then show ?thesis using assms by (simp add: readable_def fsready_def)
qed

lemma wrote_good:
  assumes "wrote V i V' i' p k f" "good_block V (i_dev i) x" "x \<notin> file_blocks V i"
  shows "good_block V' (i_dev i) x \<and> x \<notin> file_blocks V' i' \<and> V' (i_dev i) x = V (i_dev i) x"
  using assms by (simp add: wrote_def good_block_def)

lemma IBLOCK_nonzero: "IBLOCK n \<noteq> 0"
proof -
  have "unat (n div 8) + unat (2 :: uint) < 2 ^ 32" using unat_lt32[of n] by (simp add: unat_div)
  then have "unat (IBLOCK n) = unat (n div 8) + 2" unfolding IBLOCK_def by (simp add: unat_add32)
  then show ?thesis by auto
qed

lemma writei_same:
  assumes wr: "writable s ip p k K" and w: "wrote (lview s) (icache s ip) (lview t) (icache t ip) p (length src) (\<lambda>q. cview src (q - p))"
    and t: "fsready t ip" "logs.has_buffer t" "icache t = (icache s)(ip := icache t ip)"
    and p: "p + length src \<le> unat (i_size (icache s ip))"
  shows "writei_post s t ip p src"
proof -
  let ?V = "lview s" and ?i = "icache s ip" and ?V' = "lview t"
  have nh: "no_holes ?V ?i" "inode_place s ?V ?i" using wr by (auto simp: writable_def)
  have i: "icache t ip = ?i" using w nh(1) p by (auto simp: wrote_def no_holes_def)
  have sz: "unat (i_size ?i) = max (p + length src) (unat (i_size ?i))" "unat (i_size ?i) \<le> MAXFILE * BSIZE"
    using p nh(1) by (auto simp: no_holes_def)
  have pl: "p \<le> unat (i_size ?i)" using p by simp
  have "readable t ip"
    using no_holes_wrote[OF w nh(1) _ sz(2) pl] by (intro readableI[OF t(1,2) _ sz(2)]) (auto simp: i)
  moreover have "contents ?V' ?i = patched (contents ?V ?i) p src"
    using patched_contents[OF w pl sz] by (simp add: contents_def i)
  moreover have "?V' (i_dev ?i) (IBLOCK (i_inum ?i)) = ?V (i_dev ?i) (IBLOCK (i_inum ?i))"
    using w nh(2) IBLOCK_no_data IBLOCK_nonzero by (auto simp: wrote_def inode_place_def)
  then have "on_disk ?V ?i \<longrightarrow> on_disk ?V' ?i" by (simp add: on_disk_def)
  moreover have "icache t = icache s" using t(3) unfolding i by simp
  ultimately show ?thesis unfolding writei_post_def using i sz(1) wrote_good[OF w[unfolded i]] by simp
qed

lemma writei_grow:
  assumes wr: "writable s ip p k K" and w: "wrote (lview s) (icache s ip) (lview t) (icache t ip) p (length src) (\<lambda>q. cview src (q - p))"
    and t: "fsready t ip" "icache t = (icache s)(ip := icache t ip)"
    and p: "p \<le> unat (i_size (icache s ip))" "unat (i_size (icache s ip)) < p + length src" "p + length src \<le> MAXFILE * BSIZE"
    and u: "u = t\<lparr>icache := (icache t)(ip := (icache t ip)\<lparr>i_size := of_nat (p + length src)\<rparr>)\<rparr>"
    and v: "logs.spends u v {(i_dev (icache u ip), IBLOCK (i_inum (icache u ip)))}" "logs.has_buffer v"
      "lview v = dput (i_dev (icache u ip)) (IBLOCK (i_inum (icache u ip)))
        (store_dinode (icache u ip) (dinode_at (i_inum (icache u ip))) (lview u (i_dev (icache u ip)) (IBLOCK (i_inum (icache u ip))))) (lview u)"
  shows "writei_post s v ip p src"
proof -
  let ?V = "lview s" and ?i = "icache s ip" and ?V1 = "lview t" and ?i1 = "icache t ip"
  let ?d = "i_dev ?i" and ?x = "IBLOCK (i_inum ?i)"
  define i' where "i' = ?i1\<lparr>i_size := of_nat (p + length src)\<rparr>"
  obtain a where "?i1 = ?i\<lparr>i_addrs := a\<rparr>" using w unfolding wrote_def by blast
  then have i1: "i_dev ?i1 = ?d" "i_inum ?i1 = i_inum ?i" "i' = ?i\<lparr>i_addrs := i_addrs i', i_size := i_size i'\<rparr>"
    unfolding i'_def by simp_all
  have "unat (of_nat (p + length src) :: uint) = p + length src"
    using p(3) by (intro unat_of_nat32) (simp add: MAXFILE_def NDIRECT_def NINDIRECT_def BSIZE_def)
  then have sz: "unat (i_size i') = p + length src" "i_addrs i' = i_addrs ?i1" "i_dev i' = ?d" "i_inum i' = i_inum ?i"
    using i1 by (simp_all add: i'_def)
  have ic: "icache u = (icache t)(ip := i')" "icache v = icache u" "lview u = ?V1" "held v = held t"
    using lrest_icache[OF logs.spends_rest[OF v(1)]] logs.spends_lk[OF v(1)] by (simp_all add: u i'_def)
  have V: "lview v = dput ?d ?x (store_dinode i' (dinode_at (i_inum ?i)) (?V1 ?d ?x)) ?V1"
    using v(3) ic sz by simp
  have place: "inode_place s ?V ?i" "no_holes ?V ?i" using wr by (auto simp: writable_def)
  have sb: "?V1 ?d 1 = ?V ?d 1" using w by (simp add: wrote_def)
  have nd: "\<not> data_block (sblk ?V1 ?d) ?d ?x" "?x \<noteq> 1" "(?d, ?x) \<notin> bitmap_area (sblk ?V1 ?d) ?d"
    using place IBLOCK_no_data sb by (auto simp: inode_place_def)
  have r: "fs_ok t ?V1 ?d" "file_ok ?V1 ?i1" "locked t = {}" using t(1) i1 by (auto simp: fsready_def)
  note f = meta_frame[OF r(2) r(1)[folded i1(1)] nd(2) nd(3)[folded i1(1)] nd(1)[folded i1(1)] V[folded i1(1)],
      of i', unfolded i1(1), OF sz(3,2)]
  have "fsready v ip"
    using f ic sz(3) logs.spends_inv[OF v(1)] logs.spends_usable[OF v(1)] unlocked_held[OF ic(4) r(3)]
    by (auto simp: fsready_def fs_ok_def u)
  moreover have nh: "q < p + length src \<Longrightarrow> fblock (lview v) i' (q div BSIZE) \<noteq> 0" for q
    using no_holes_wrote[OF w place(2) _ p(3,1)] f(1) by simp
  ultimately have "readable v ip"
    using p(3) sz(1) by (intro readableI[OF _ v(2)]) (auto simp: ic)
  moreover have "contents (lview v) i' = patched (contents ?V ?i) p src"
  proof -
    have "fbyte (lview v) i' q = fbyte ?V1 ?i1 q" if "q < p + length src" for q
      using that p(3) by (intro f(4)) (simp add: less_mult_imp_div_less)
    then have "contents (lview v) i' = fbytes ?V1 ?i1 0 (p + length src)" using sz(1) by (simp add: contents_def fbytes_def)
    then show ?thesis using patched_contents[OF w p(1) _ p(3)] p(2) by simp
  qed
  moreover have "on_disk (lview v) i'"
    by (simp add: on_disk_def sz V load_store_dinode)
  moreover have "good_block (lview v) ?d x \<and> x \<notin> file_blocks (lview v) i' \<and> lview v ?d x = ?V ?d x"
    if x: "good_block ?V ?d x" "x \<notin> file_blocks ?V ?i" for x
  proof -
    have g: "good_block ?V1 ?d x" "x \<notin> file_blocks ?V1 ?i1" "?V1 ?d x = ?V ?d x" using wrote_good[OF w x] by auto
    then have "x \<noteq> ?x" using nd(1) by (auto simp: good_block_def)
    moreover have "file_blocks (lview v) i' = file_blocks ?V1 ?i1" using f(1) sz(2) by (simp add: file_blocks_def)
    moreover have "lview v ?d x = ?V1 ?d x" using \<open>x \<noteq> ?x\<close> by (simp add: V)
    ultimately show ?thesis using g f(6) by simp
  qed
  moreover have "icache v = (icache s)(ip := icache v ip)" "icache v ip = i'"
    using upd_trans[OF t(2), of "icache v"] ic by simp_all
  ultimately show ?thesis
    unfolding writei_post_def using sz p(2) i1(3) by simp
qed

lemma wp_sfs_writei:
  assumes wr: "writable s ip (unat off) (unat n) K" and ty: "i_type (icache s ip) \<noteq> T_DEV"
    and off: "off \<le> i_size (icache s ip)" "unat off + unat n \<le> MAXFILE * BSIZE" and src: "length src = unat n"
    and Q: "\<And>s'. writei_post s s' ip (unat off) src \<Longrightarrow> Q (int (length src)) s'"
  shows "wp (sfs_writei ip src off n) Q s"
proof -
  let ?p = "unat off" and ?sz = "i_size (icache s ip)"
  have lim: "MAXFILE * BSIZE < 2 ^ 31" by (simp add: MAXFILE_def NDIRECT_def NINDIRECT_def BSIZE_def)
  then have on: "unat (off + n) = ?p + unat n" using off(2) by (intro unat_add32) simp
  have big: "unat (of_nat (MAXFILE * BSIZE) :: uint) = MAXFILE * BSIZE" using lim by (intro unat_of_nat32) simp
  have guards: "\<not> off > ?sz" "\<not> off + n < off" "\<not> off + n > of_nat (MAXFILE * BSIZE)"
    using off on big by (auto simp: word_less_nat_alt word_le_nat_alt)
  have r: "fsready s ip" "room s ip K (span ?p (unat n) + ind_need (icache s ip))" "(i_dev (icache s ip), IBLOCK (i_inum (icache s ip))) \<in> K"
    "inode_place s (lview s) (icache s ip)"
    using wr by (auto simp: writable_def)
  have sn: "sint n = int (length src)" using src off(2) lim by (simp add: sint_small32)
  have "wp (writei_loop (unat n) ip src n 0 off) (\<lambda>off. wp (iinfo ip) (\<lambda>sin.
      wp (if n > 0 \<and> off > i_size sin then kbind (iset ip (\<lambda>i. i\<lparr>i_size := off\<rparr>)) (\<lambda>_. sfs_iupdate ip) else kret ())
        (\<lambda>_. wp (kret (sint n)) Q))) s"
  proof (rule wp_writei_loop[OF r(1,2), where p = ?p], goal_cases)
    case (6 t L)
    have w: "wrote (lview s) (icache s ip) (lview t) (icache t ip) ?p (length src) (\<lambda>q. cview src (q - ?p))" using 6(4) src by simp
    have sz: "i_size (icache t ip) = ?sz" "i_dev (icache t ip) = i_dev (icache s ip)" "i_inum (icache t ip) = i_inum (icache s ip)"
      using w unfolding wrote_def by (metis inode.surjective inode.update_convs(11) inode.select_convs)+
    have aff: "logs.affords t L 0 2" using 6(3) by (simp add: room_def)
    have un: "unat (of_nat (?p + unat n) :: uint) = ?p + unat n" using off(2) lim by (intro unat_of_nat32) simp
    show ?case
    proof (cases "?p + unat n \<le> unat ?sz")
      case True
      then have "writei_post s t ip ?p src" using src by (intro writei_same[OF wr w 6(1) logs.affords_buffer[OF aff] 6(5)]) simp
      then show ?thesis using Q True sz un sn by (simp add: wp_iinfo wp_kret word_less_nat_alt)
    next
      case False
      then have pos: "0 < unat n" using off(1) by (cases "unat n") (auto simp: word_le_nat_alt)
      define u where "u = t\<lparr>icache := (icache t)(ip := (icache t ip)\<lparr>i_size := of_nat (?p + length src)\<rparr>)\<rparr>"
      have pre: "linv u" "locked u = {}" "lusable u (i_dev (icache u ip)) (IBLOCK (i_inum (icache u ip)))"
        using 6(1,6) r(4) sz by (auto simp: fsready_def inode_place_def u_def)
      have "wp (sfs_iupdate ip) (\<lambda>_. wp (kret (sint n)) Q) u"
      proof (rule wp_sfs_iupdate[OF pre, where K = L and m = 0 and h = 1], goal_cases)
        case 1
        then show ?case using aff by (simp add: u_def numeral_2_eq_2)
      next
        case (2 v)
        have "logs.affords v L 0 2" using logs.affords_spends_in[OF _ 2(1), of L 0 2] aff r(3) 6(2) sz by (auto simp: u_def)
        then have "writei_post s v ip ?p src"
          using False src off by (intro writei_grow[OF wr w 6(1,5) _ _ _ u_def 2(1) _ 2(2)])
            (auto simp: word_le_nat_alt intro: logs.affords_buffer)
        then show ?case using Q sn by (simp add: wp_kret)
      qed
      then show ?thesis
        using False pos sz un src by (simp add: wp_iinfo wp_kbind wp_iset u_def word_less_nat_alt)
    qed
  qed (use off src in \<open>auto simp: word_le_nat_alt\<close>)
  then show ?thesis using ty guards unfolding sfs_writei_def by (simp add: wp_kbind_fun wp_iinfo)
qed

text \<open>C3: \<open>sfs_writei\<close> writes the file. For an offset within the file, in a transaction with room for
  the sectors and with enough free blocks, it returns the number of bytes asked for; the contents are the old
  ones with the bytes put in at the offset, and as long as needed; the inode on disk stays the one in
  memory; and the blocks of all other files are as they were.\<close>

theorem sfs_writei_contents:
  assumes "writable s ip (unat off) (length src) K" "i_type (icache s ip) \<noteq> T_DEV"
    "off \<le> i_size (icache s ip)" "unat off + length src \<le> MAXFILE * BSIZE"
    "on_disk (lview s) (icache s ip)"
  shows "wp (sfs_writei ip src off (of_nat (length src))) (\<lambda>r s'. r = int (length src) \<and> readable s' ip \<and>
     contents (lview s') (icache s' ip) =
       take (unat off) (contents (lview s) (icache s ip)) @ src @ drop (unat off + length src) (contents (lview s) (icache s ip)) \<and>
     on_disk (lview s') (icache s' ip) \<and>
     (\<forall>x. good_block (lview s) (i_dev (icache s ip)) x \<and> x \<notin> file_blocks (lview s) (icache s ip) \<longrightarrow>
        good_block (lview s') (i_dev (icache s ip)) x \<and> lview s' (i_dev (icache s ip)) x = lview s (i_dev (icache s ip)) x)) s"
proof -
  have "unat (of_nat (length src) :: uint) = length src"
    using assms(4) by (intro unat_of_nat32) (simp add: MAXFILE_def NDIRECT_def NINDIRECT_def BSIZE_def)
  then show ?thesis
    using assms by (intro wp_sfs_writei) (auto simp: writei_post_def patched_def)
qed

text \<open>C4: Reading back what was written gives what was written.\<close>

theorem sfs_write_read:
  assumes "writable s ip (unat off) (length src) K" "i_type (icache s ip) \<noteq> T_DEV"
    "off \<le> i_size (icache s ip)" "unat off + length src \<le> MAXFILE * BSIZE"
  shows "wp (kbind (sfs_writei ip src off (of_nat (length src))) (\<lambda>_. sfs_readi ip off (of_nat (length src))))
    (\<lambda>(r, dst) s'. r = int (length src) \<and> dst = src) s"
proof -
  have l: "unat (of_nat (length src) :: uint) = length src"
    using assms(4) by (intro unat_of_nat32) (simp add: MAXFILE_def NDIRECT_def NINDIRECT_def BSIZE_def)
  have "unat off + unat (of_nat (length src) :: uint) < 2 ^ 32"
    using assms(4) l by (simp add: MAXFILE_def NDIRECT_def NINDIRECT_def BSIZE_def)
  then have nw: "\<not> off + of_nat (length src) < off" using l unat_add32 by (simp add: word_less_nat_alt)
  have "wp (sfs_writei ip src off (of_nat (length src))) (\<lambda>_. wp (sfs_readi ip off (of_nat (length src)))
    (\<lambda>(r, dst) s'. r = int (length src) \<and> dst = src)) s"
  proof (rule wp_sfs_writei[OF _ assms(2,3)], goal_cases)
    case (4 s')
    let ?i = "icache s' ip" and ?p = "unat off"
    obtain a b where "?i = (icache s ip)\<lparr>i_addrs := a, i_size := b\<rparr>" using 4 unfolding writei_post_def by blast
    then have ty: "i_type ?i = i_type (icache s ip)" by simp
    have p: "readable s' ip" "unat (i_size ?i) = max (?p + length src) (unat (i_size (icache s ip)))"
      "contents (lview s') ?i = patched (contents (lview s) (icache s ip)) ?p src"
      using 4 by (auto simp: writei_post_def)
    have "fbytes (lview s') ?i ?p (length src) = take (length src) (drop ?p (contents (lview s') ?i))"
      using p(2) by (simp add: contents_def fbytes_def drop_map take_map)
    also have "\<dots> = src"
      using p(3) assms(3) by (simp add: patched_def contents_def fbytes_def word_le_nat_alt)
    finally have b: "fbytes (lview s') ?i ?p (length src) = src" .
    show ?case
    proof (rule wp_sfs_readi[OF p(1)], goal_cases)
      case (4 t)
      have "min (length src) (unat (i_size ?i) - ?p) = length src" using p(2) by simp
      then show ?case using b l by simp
    qed (use ty assms(2,3) nw p(2) in \<open>auto simp: word_le_nat_alt\<close>)
  qed (use assms l in auto)
  then show ?thesis by (simp add: wp_kbind_fun)
qed

text \<open>A file of five bytes on the disk of \<open>demo_fs\<close>: inode 3, with its first block.\<close>

definition demo_inode :: inode where
  "demo_inode = \<lparr>i_dev = ROOTDEV, i_inum = 3, i_ref = 1, i_busy = True, i_valid = True, i_type = T_FILE, i_major = 0,
     i_minor = 0, i_nlink = 1, i_size = 5, i_addrs = (\<lambda>_. 0)(0 := 29), i_fstype = SFS_INODE, i_ops = Some sfs_node_fileops\<rparr>"

definition demo_text :: "uchar list" where
  "demo_text = [104, 101, 108, 108, 111]"

definition demo_fmap :: dmap where
  "demo_fmap = dput ROOTDEV 29 (cview demo_text) (dput ROOTDEV 2 (store_dinode demo_inode (dinode_at 3) zero_bytes) demo_dmap)"

definition demo_file :: fsys where
  "demo_file = demo_fs demo_fmap \<lparr>icache = \<lambda>_. demo_inode, devsw = \<lambda>_. \<lparr>dv_read = False, dv_write = False, dv_in = [], dv_out = []\<rparr>,
     rtc = \<lambda>_. 0, p_cwd = 0, \<dots> = ()\<rparr>"

lemma demo_fmap_ok: "demo_ok demo_fmap"
proof -
  have "x \<noteq> 2 \<and> x \<noteq> 29" if "990 \<le> unat x" for x :: uint using that by auto
  then show ?thesis using demo_dmap_ok by (simp add: demo_ok_def demo_fmap_def)
qed

lemma demo_file_icache: "icache demo_file = (\<lambda>_. demo_inode)"
  by (simp add: demo_file_def demo_fs_def)

lemma demo_file_facts:
  "linv demo_file" "locked demo_file = {}" "lview demo_file = demo_fmap" "fs_ok demo_file demo_fmap ROOTDEV"
  "pinned demo_file = {}" "log_busy demo_file" "log_size demo_file = 10"
  using demo_fs_linv[OF demo_fmap_ok] demo_fs_view[OF demo_fmap_ok] demo_fs_ok[OF demo_fmap_ok] by (simp_all add: demo_file_def)

lemma demo_size: "unat (i_size demo_inode) = 5" "i_dev demo_inode = ROOTDEV" "i_type demo_inode = T_FILE" "i_inum demo_inode = 3"
  "i_addrs demo_inode NDIRECT = 0"
  by (simp_all add: demo_inode_def NDIRECT_def)

lemma demo_fblock: "fblock demo_fmap demo_inode bn = (if bn = 0 then 29 else 0)"
  by (simp add: fblock_def demo_inode_def NDIRECT_def)

lemma demo_file_ok: "file_ok demo_fmap demo_inode"
proof -
  have "good_block demo_fmap ROOTDEV 29"
    using demo_data[OF demo_fmap_ok, of 29] demo_in_use[OF demo_fmap_ok, of 29] by (simp add: good_block_def)
  then show ?thesis by (auto simp: file_ok_def demo_fblock demo_size)
qed

lemma demo_fbyte: "p < 512 \<Longrightarrow> fbyte demo_fmap demo_inode p = cview demo_text p"
proof -
  have "demo_fmap ROOTDEV 29 = cview demo_text" by (simp add: demo_fmap_def)
  then show "p < 512 \<Longrightarrow> fbyte demo_fmap demo_inode p = cview demo_text p"
    by (simp add: fbyte_def demo_fblock demo_size BSIZE_def)
qed

lemma demo_contents: "contents demo_fmap demo_inode = demo_text"
  by (simp add: contents_def fbytes_def demo_fbyte demo_size upt_rec) (simp add: demo_text_def cview_def)

lemma demo_affords: "logs.affords demo_file {(ROOTDEV, 28), (ROOTDEV, 2)} (Suc (Suc 0)) 2"
  unfolding logs.affords_def by (simp add: demo_file_facts log_room_def NBUF_def ROOTDEV_def)

lemma demo_writable: "writable demo_file 0 4 3 {(ROOTDEV, 28), (ROOTDEV, 2)}"
proof -
  have "{500, 501} \<subseteq> free_set demo_fmap ROOTDEV"
    using demo_in_use[OF demo_fmap_ok] by (simp add: free_set_def fs_data_def demo_sblk[OF demo_fmap_ok])
  then have "card {500, 501 :: uint} \<le> card (free_set demo_fmap ROOTDEV)" by (intro card_mono) simp_all
  moreover have "IBLOCK 3 = 2" by (simp add: IBLOCK_def)
  moreover have "lusable demo_file ROOTDEV 2" using demo_fs_home[of 2] by (simp add: demo_file_def)
  ultimately show ?thesis
    using demo_affords demo_area[OF demo_fmap_ok] demo_file_ok demo_file_facts
    by (auto simp: writable_def fsready_def no_holes_def inode_place_def room_def demo_file_icache demo_size demo_fblock
        demo_sblk[OF demo_fmap_ok] span_def ind_need_def BSIZE_def MAXFILE_def NINDIRECT_def)
qed

theorem sfs_readi_contents_witness:
  "wp (sfs_readi 0 1 100) (\<lambda>(r, dst) s'. r = 4 \<and> dst = [101, 108, 108, 111]) demo_file"
proof -
  have "readable demo_file 0"
    using demo_file_facts demo_file_ok logs.affords_buffer[OF demo_affords]
    by (auto simp: readable_def demo_file_icache demo_size demo_fblock BSIZE_def MAXFILE_def NDIRECT_def NINDIRECT_def)
  then show ?thesis
    by (rule wp_mono[OF sfs_readi_contents])
      (auto simp: demo_file_icache demo_size demo_file_facts fbytes_def demo_fbyte demo_text_def cview_def upt_rec
        word_le_nat_alt word_less_nat_alt)
qed

theorem sfs_writei_contents_witness:
  "wp (sfs_writei 0 [88, 89, 90] 4 3) (\<lambda>r s'. r = 3 \<and> contents (lview s') (icache s' 0) = [104, 101, 108, 108, 88, 89, 90] \<and>
     on_disk (lview s') (icache s' 0)) demo_file"
proof -
  have "on_disk demo_fmap demo_inode"
    by (simp add: on_disk_def demo_size demo_fmap_def IBLOCK_def load_store_dinode)
  then have "wp (sfs_writei 0 [88, 89, 90] 4 (of_nat (length [88, 89, 90 :: uchar]))) (\<lambda>r s'. r = int (length [88, 89, 90 :: uchar]) \<and>
     readable s' 0 \<and> contents (lview s') (icache s' 0) = [104, 101, 108, 108] @ [88, 89, 90] @ [] \<and> on_disk (lview s') (icache s' 0)) demo_file"
    using demo_writable
    by (intro wp_mono[OF sfs_writei_contents[where K = "{(ROOTDEV, 28), (ROOTDEV, 2)}"]])
      (simp_all add: demo_file_icache demo_size demo_file_facts demo_contents demo_text_def word_le_nat_alt BSIZE_def MAXFILE_def
        NDIRECT_def NINDIRECT_def numeral_3_eq_3)
  then show ?thesis by (auto elim: wp_mono)
qed

theorem sfs_write_read_witness:
  "wp (kbind (sfs_writei 0 [88, 89, 90] 4 3) (\<lambda>_. sfs_readi 0 4 3)) (\<lambda>(r, dst) s'. r = 3 \<and> dst = [88, 89, 90]) demo_file"
  using sfs_write_read[of demo_file 0 4 "[88, 89, 90]" "{(ROOTDEV, 28), (ROOTDEV, 2)}"] demo_writable
  by (simp add: demo_file_icache demo_size word_le_nat_alt BSIZE_def MAXFILE_def NDIRECT_def NINDIRECT_def numeral_3_eq_3)

end
