(* ===== verification/Spinlock.thy ===== *)
theory Spinlock
  imports Xv6_Prelude
begin

text \<open>
  Spin locks (\<^verbatim>\<open>spinlock.c\<close>). \<open>pushcli\<close> and \<open>popcli\<close> act on a processor, of which \<open>struct cpu\<close> has the
  nesting depth and the saved interrupt flag, and the hardware the flag itself. \<open>lock_step\<close>
  interleaves any number of processors that acquire and release one lock: the atomic steps are the
  \<open>xchg\<close> instructions and the assignments before and after them.
\<close>

section \<open>State\<close>

record cpu =
  ncli :: int
  intena :: bool
  fl_if :: bool

record spinlock =
  lk_locked :: uint
  lk_cpu :: "nat option"
  lk_pcs :: "uint list"

definition initlock :: "spinlock \<Rightarrow> spinlock" where
  "initlock lk = lk\<lparr>lk_locked := 0, lk_cpu := None\<rparr>"

definition holding :: "nat \<Rightarrow> spinlock \<Rightarrow> bool" where
  "holding c lk \<longleftrightarrow> lk_locked lk \<noteq> 0 \<and> lk_cpu lk = Some c"

definition xchg :: "uint \<Rightarrow> spinlock \<Rightarrow> uint \<times> spinlock" where
  "xchg v lk = (lk_locked lk, lk\<lparr>lk_locked := v\<rparr>)"

definition pushcli :: "cpu \<Rightarrow> cpu" where
  "pushcli c = c\<lparr>fl_if := False, ncli := ncli c + 1, intena := (if ncli c = 0 then fl_if c else intena c)\<rparr>"

definition popcli :: "(cpu, unit) prog" where
  "popcli = kbind (kget (\<lambda>c. c)) (\<lambda>c.
     if fl_if c then kpanic ''popcli - interruptible''
     else
       kbind (kmod (\<lambda>c. c\<lparr>ncli := ncli c - 1\<rparr>)) (\<lambda>_.
       kbind (kget ncli) (\<lambda>n.
       if n < 0 then kpanic ''popcli''
       else kmod (\<lambda>c. if ncli c = 0 \<and> intena c then c\<lparr>fl_if := True\<rparr> else c))))"

text \<open>The walk of \<open>getcallerpcs\<close> up the chain of frame pointers in memory, at most ten frames.\<close>

primrec callerpcs_from :: "nat \<Rightarrow> bytes \<Rightarrow> uint \<Rightarrow> uint list" where
  "callerpcs_from 0 m ebp = []"
| "callerpcs_from (Suc k) m ebp =
     (if ebp = 0 \<or> ebp < 0x80000000 \<or> ebp = 0xFFFFFFFF then replicate (Suc k) 0
      else ld32 m (unat (ebp + 4)) # callerpcs_from k m (ld32 m (unat ebp)))"

definition getcallerpcs :: "bytes \<Rightarrow> uint \<Rightarrow> uint list" where
  "getcallerpcs m v = callerpcs_from 10 m (v - 8)"

lemma getcallerpcs_ten: "length (getcallerpcs m v) = 10"
proof -
  have "length (callerpcs_from k m e) = k" for k e by (induction k arbitrary: e) auto
  then show ?thesis by (simp add: getcallerpcs_def)
qed

section \<open>Nesting\<close>

text \<open>Matched sequences of \<open>pushcli\<close> and \<open>popcli\<close>.\<close>

datatype cli_call = Push | Pop

inductive matched :: "cli_call list \<Rightarrow> bool" where
  matched_Nil: "matched []"
| matched_nest: "matched xs \<Longrightarrow> matched ys \<Longrightarrow> matched (Push # xs @ Pop # ys)"

primrec run_cli :: "cli_call list \<Rightarrow> (cpu, unit) prog" where
  "run_cli [] = kret ()"
| "run_cli (x # xs) = kbind (case x of Push \<Rightarrow> kmod pushcli | Pop \<Rightarrow> popcli) (\<lambda>_. run_cli xs)"

lemma run_cli_append: "wp (run_cli (xs @ ys)) Q s = wp (run_cli xs) (\<lambda>_. wp (run_cli ys) Q) s"
proof (induction xs arbitrary: s)
  case Nil
  then show ?case by (simp add: wp_kret)
next
  case (Cons x xs)
  then have "(\<lambda>_ :: unit. wp (run_cli (xs @ ys)) Q) = (\<lambda>_. wp (run_cli xs) (\<lambda>_. wp (run_cli ys) Q))" by auto
  then show ?case by (simp add: wp_kbind_fun)
qed

lemma matched_restores:
  "matched xs \<Longrightarrow> 0 \<le> ncli c \<Longrightarrow> (0 < ncli c \<longrightarrow> \<not> fl_if c) \<Longrightarrow>
   wp (run_cli xs) (\<lambda>_ c'. fl_if c' = fl_if c \<and> ncli c' = ncli c \<and> (0 < ncli c \<longrightarrow> intena c' = intena c)) c"
proof (induction xs arbitrary: c rule: matched.induct)
  case matched_Nil
  then show ?case by (simp add: wp_kret)
next
  case (matched_nest xs ys)
  let ?c1 = "pushcli c"
  have c1: "0 \<le> ncli ?c1" "0 < ncli ?c1 \<longrightarrow> \<not> fl_if ?c1" "ncli ?c1 = ncli c + 1" "\<not> fl_if ?c1"
    "intena ?c1 = (if ncli c = 0 then fl_if c else intena c)"
    using matched_nest.prems by (simp_all add: pushcli_def)
  have "wp (run_cli xs) (\<lambda>_. wp popcli (\<lambda>_. wp (run_cli ys)
     (\<lambda>_ c'. fl_if c' = fl_if c \<and> ncli c' = ncli c \<and> (0 < ncli c \<longrightarrow> intena c' = intena c)))) ?c1"
  proof (rule wp_mono[OF matched_nest.IH(1)[OF c1(1,2)]])
    fix u and c2 :: cpu
    assume c2: "fl_if c2 = fl_if ?c1 \<and> ncli c2 = ncli ?c1 \<and> (0 < ncli ?c1 \<longrightarrow> intena c2 = intena ?c1)"
    define c3 where "c3 = (if ncli c = 0 \<and> intena c2 then c2\<lparr>ncli := ncli c, fl_if := True\<rparr> else c2\<lparr>ncli := ncli c\<rparr>)"
    have i2: "intena c2 = (if ncli c = 0 then fl_if c else intena c)" using c2 c1 matched_nest.prems(1) by simp
    have c3: "fl_if c3 = fl_if c" "ncli c3 = ncli c" "0 < ncli c \<longrightarrow> intena c3 = intena c"
      using c2 c1 i2 matched_nest.prems by (auto simp: c3_def)
    have ready: "0 \<le> ncli c3" "0 < ncli c3 \<longrightarrow> \<not> fl_if c3" using c3 matched_nest.prems by auto
    have "wp (run_cli ys) (\<lambda>_ c'. fl_if c' = fl_if c \<and> ncli c' = ncli c \<and> (0 < ncli c \<longrightarrow> intena c' = intena c)) c3"
      by (rule wp_mono[OF matched_nest.IH(2)[OF ready]]) (use c3 in auto)
    then show "wp popcli (\<lambda>_. wp (run_cli ys)
       (\<lambda>_ c'. fl_if c' = fl_if c \<and> ncli c' = ncli c \<and> (0 < ncli c \<longrightarrow> intena c' = intena c))) c2"
      using c2 c1 matched_nest.prems(1)
      by (auto simp: popcli_def wp_simps c3_def)
  qed
  then show ?case by (simp add: run_cli_append wp_kbind_fun wp_kmod)
qed

text \<open>C22: \<open>pushcli\<close> and \<open>popcli\<close> nest: a matched sequence of them runs to the end without a panic, and leaves
  interrupts enabled or disabled as they were, at the same depth.\<close>

theorem cli_nesting:
  assumes "matched xs" "0 \<le> ncli c" "0 < ncli c \<longrightarrow> \<not> fl_if c"
  shows "wp (run_cli xs) (\<lambda>_ c'. fl_if c' = fl_if c \<and> ncli c' = ncli c) c"
  by (rule wp_mono[OF matched_restores[OF assms]]) auto

theorem cli_nesting_witness:
  "wp (run_cli [Push, Push, Pop, Push, Pop, Pop]) (\<lambda>_ c'. fl_if c' \<and> ncli c' = 0) \<lparr>ncli = 0, intena = False, fl_if = True\<rparr>"
proof -
  have "matched [Push, Pop]" using matched_nest[OF matched_Nil matched_Nil] by simp
  then have "matched [Push, Pop, Push, Pop]" using matched_nest[OF matched_Nil, of "[Push, Pop]"] by simp
  then have "matched [Push, Push, Pop, Push, Pop, Pop]" using matched_nest[OF _ matched_Nil, of "[Push, Pop, Push, Pop]"] by simp
  from cli_nesting[OF this, of "\<lparr>ncli = 0, intena = False, fl_if = True\<rparr>"] show ?thesis by simp
qed

section \<open>Acquiring and releasing\<close>

text \<open>Where a processor is in \<open>acquire\<close> and \<open>release\<close>: outside; spinning; past the \<open>xchg\<close>, before it writes
  \<open>lk->cpu\<close>; with the lock; past the reset of \<open>lk->cpu\<close>, before the second \<open>xchg\<close>; before
  \<open>popcli\<close>.\<close>

datatype lpc = L_out | L_spin | L_got | L_in | L_reset | L_freed | L_panic string

record lsys =
  slock :: spinlock
  cpus :: "nat \<Rightarrow> cpu"
  lpcs :: "nat \<Rightarrow> lpc"

definition enter_acquire :: "nat \<Rightarrow> lsys \<Rightarrow> lsys" where
  \<comment> \<open>\<open>pushcli\<close> and the check for a lock held by this processor\<close>
  "enter_acquire c s = s\<lparr>cpus := (cpus s)(c := pushcli (cpus s c)),
     lpcs := (lpcs s)(c := if holding c (slock s) then L_panic ''acquire'' else L_spin)\<rparr>"

definition try_xchg :: "nat \<Rightarrow> lsys \<Rightarrow> lsys" where
  "try_xchg c s = (let (old, lk) = xchg 1 (slock s) in
     s\<lparr>slock := lk, lpcs := (lpcs s)(c := if old \<noteq> 0 then L_spin else L_got)\<rparr>)"

definition note_owner :: "nat \<Rightarrow> uint list \<Rightarrow> lsys \<Rightarrow> lsys" where
  "note_owner c pcs s = s\<lparr>slock := (slock s)\<lparr>lk_cpu := Some c, lk_pcs := pcs\<rparr>, lpcs := (lpcs s)(c := L_in)\<rparr>"

definition enter_release :: "nat \<Rightarrow> lsys \<Rightarrow> lsys" where
  "enter_release c s = (if \<not> holding c (slock s) then s\<lparr>lpcs := (lpcs s)(c := L_panic ''release'')\<rparr>
     else s\<lparr>slock := (slock s)\<lparr>lk_pcs := (lk_pcs (slock s))[0 := 0], lk_cpu := None\<rparr>, lpcs := (lpcs s)(c := L_reset)\<rparr>)"

definition free_xchg :: "nat \<Rightarrow> lsys \<Rightarrow> lsys" where
  "free_xchg c s = s\<lparr>slock := snd (xchg 0 (slock s)), lpcs := (lpcs s)(c := L_freed)\<rparr>"

definition leave_release :: "nat \<Rightarrow> lsys \<Rightarrow> lsys" where
  "leave_release c s = (case popcli (cpus s c) of
       Ret (_, k) \<Rightarrow> s\<lparr>cpus := (cpus s)(c := k), lpcs := (lpcs s)(c := L_out)\<rparr>
     | Panic e \<Rightarrow> s\<lparr>lpcs := (lpcs s)(c := L_panic e)\<rparr>
     | _ \<Rightarrow> s)"

inductive lock_step :: "lsys \<Rightarrow> lsys \<Rightarrow> bool" where
  step_enter: "lpcs s c = L_out \<Longrightarrow> lock_step s (enter_acquire c s)"
| step_xchg: "lpcs s c = L_spin \<Longrightarrow> lock_step s (try_xchg c s)"
| step_note: "lpcs s c = L_got \<Longrightarrow> lock_step s (note_owner c pcs s)"
| step_release: "lpcs s c = L_in \<Longrightarrow> lock_step s (enter_release c s)"
| step_free: "lpcs s c = L_reset \<Longrightarrow> lock_step s (free_xchg c s)"
| step_leave: "lpcs s c = L_freed \<Longrightarrow> lock_step s (leave_release c s)"

definition lsys_init :: "spinlock \<Rightarrow> (nat \<Rightarrow> bool) \<Rightarrow> lsys" where
  "lsys_init lk ie = \<lparr>slock = initlock lk, cpus = \<lambda>c. \<lparr>ncli = 0, intena = False, fl_if = ie c\<rparr>, lpcs = \<lambda>_. L_out\<rparr>"

definition has_lock :: "lpc \<Rightarrow> bool" where
  "has_lock p \<longleftrightarrow> p = L_got \<or> p = L_in \<or> p = L_reset"

definition lock_inv :: "lsys \<Rightarrow> bool" where
  "lock_inv s \<longleftrightarrow>
     (\<forall>c. has_lock (lpcs s c) \<longrightarrow> lk_locked (slock s) \<noteq> 0) \<and>
     (\<forall>c d. has_lock (lpcs s c) \<and> has_lock (lpcs s d) \<longrightarrow> c = d) \<and>
     (\<forall>c. lk_cpu (slock s) = Some c \<longrightarrow> lpcs s c = L_in) \<and> (\<forall>c. lpcs s c = L_in \<longrightarrow> lk_cpu (slock s) = Some c) \<and>
     (\<forall>c. (\<forall>e. lpcs s c \<noteq> L_panic e) \<and>
        (if lpcs s c = L_out then ncli (cpus s c) = 0 else ncli (cpus s c) = 1 \<and> \<not> fl_if (cpus s c)))"

lemmas lock_defs = enter_acquire_def try_xchg_def note_owner_def enter_release_def free_xchg_def leave_release_def
  holding_def xchg_def pushcli_def

lemma popcli_one: "ncli c = 1 \<Longrightarrow> \<not> fl_if c \<Longrightarrow> popcli c = Ret ((), c\<lparr>ncli := 0, fl_if := intena c\<rparr>)"
  by (simp add: popcli_def kbind_def kget_def kmod_def kpanic_def)

lemma lock_invD:
  assumes "lock_inv s"
  shows "has_lock (lpcs s c) \<Longrightarrow> lk_locked (slock s) \<noteq> 0"
    "has_lock (lpcs s c) \<Longrightarrow> has_lock (lpcs s d) \<Longrightarrow> c = d"
    "lk_cpu (slock s) = Some c \<Longrightarrow> lpcs s c = L_in" "lpcs s c = L_in \<Longrightarrow> lk_cpu (slock s) = Some c"
    "lpcs s c \<noteq> L_panic e"
    "if lpcs s c = L_out then ncli (cpus s c) = 0 else ncli (cpus s c) = 1 \<and> \<not> fl_if (cpus s c)"
  using assms unfolding lock_inv_def by blast+

text \<open>A step of processor \<open>c\<close> keeps the invariant if the new state is right for \<open>c\<close>, and the lock is right.\<close>

lemma lock_inv_upd:
  assumes inv: "lock_inv s"
    and x: "\<And>e. x \<noteq> L_panic e" "if x = L_out then ncli k = 0 else ncli k = 1 \<and> \<not> fl_if k"
    and own: "lk_cpu lk = (if x = L_in then Some c else if lpcs s c = L_in then None else lk_cpu (slock s))"
    and hl: "has_lock x \<Longrightarrow> lk_locked lk \<noteq> 0 \<and> (\<forall>d. d \<noteq> c \<longrightarrow> \<not> has_lock (lpcs s d))"
    and nhl: "\<And>d. d \<noteq> c \<Longrightarrow> has_lock (lpcs s d) \<Longrightarrow> lk_locked lk \<noteq> 0"
  shows "lock_inv (s\<lparr>slock := lk, cpus := (cpus s)(c := k), lpcs := (lpcs s)(c := x)\<rparr>)" (is "lock_inv ?t")
proof -
  note D = lock_invD[OF inv]
  have inL: "lpcs s d = L_in \<Longrightarrow> has_lock (lpcs s d)" for d by (simp add: has_lock_def)
  have inX: "x = L_in \<Longrightarrow> has_lock x" by (simp add: has_lock_def)
  have a: "has_lock (((lpcs s)(c := x)) d) \<Longrightarrow> lk_locked lk \<noteq> 0" for d using hl nhl by (cases "d = c") auto
  have b: "has_lock (((lpcs s)(c := x)) d) \<Longrightarrow> has_lock (((lpcs s)(c := x)) e) \<Longrightarrow> d = e" for d e
    using hl D(2)[of d e] by (cases "d = c"; cases "e = c") auto
  have f: "lk_cpu lk = Some d \<Longrightarrow> ((lpcs s)(c := x)) d = L_in" for d
    using own D(3)[of d] by (cases "d = c") (auto split: if_splits)
  have only: "x = L_in \<Longrightarrow> d \<noteq> c \<Longrightarrow> lpcs s d \<noteq> L_in" "lpcs s c = L_in \<Longrightarrow> d \<noteq> c \<Longrightarrow> lpcs s d \<noteq> L_in" for d
    using hl inX inL D(2) by metis+
  have g: "((lpcs s)(c := x)) d = L_in \<Longrightarrow> lk_cpu lk = Some d" for d
    using own D(4)[of d] only[of d] by (cases "d = c") auto
  have t: "lpcs ?t = (lpcs s)(c := x)" "slock ?t = lk" "cpus ?t = (cpus s)(c := k)" by simp_all
  show ?thesis
    unfolding lock_inv_def t
  proof (intro conjI allI impI)
    fix d e
    show "has_lock (((lpcs s)(c := x)) d) \<Longrightarrow> lk_locked lk \<noteq> 0" by (rule a)
    show "has_lock (((lpcs s)(c := x)) d) \<and> has_lock (((lpcs s)(c := x)) e) \<Longrightarrow> d = e" using b by blast
    show "lk_cpu lk = Some d \<Longrightarrow> ((lpcs s)(c := x)) d = L_in" by (rule f)
    show "((lpcs s)(c := x)) d = L_in \<Longrightarrow> lk_cpu lk = Some d" by (rule g)
  next
    fix d e
    show "((lpcs s)(c := x)) d \<noteq> L_panic e" using x(1) D(5) by (cases "d = c") simp_all
    show "if ((lpcs s)(c := x)) d = L_out then ncli (((cpus s)(c := k)) d) = 0
      else ncli (((cpus s)(c := k)) d) = 1 \<and> \<not> fl_if (((cpus s)(c := k)) d)" using x(2) D(6)[of d] by (cases "d = c") simp_all
  qed
qed

lemma lock_step_inv: "lock_step s s' \<Longrightarrow> lock_inv s \<Longrightarrow> lock_inv s'"
proof (induction rule: lock_step.induct)
  case (step_enter s c)
  note D = lock_invD[OF step_enter(2)]
  have "\<not> holding c (slock s)" using D(3)[of c] step_enter(1) by (auto simp: holding_def)
  then have "enter_acquire c s = s\<lparr>slock := slock s, cpus := (cpus s)(c := pushcli (cpus s c)), lpcs := (lpcs s)(c := L_spin)\<rparr>"
    by (simp add: enter_acquire_def)
  then show ?case
    using lock_inv_upd[OF step_enter(2), of L_spin "pushcli (cpus s c)" "slock s" c] step_enter(1) D(6)[of c] D(1)
    by (simp add: pushcli_def has_lock_def)
next
  case (step_xchg s c)
  note D = lock_invD[OF step_xchg(2)]
  let ?x = "if lk_locked (slock s) \<noteq> 0 then L_spin else L_got"
  have e: "try_xchg c s = s\<lparr>slock := (slock s)\<lparr>lk_locked := 1\<rparr>, cpus := (cpus s)(c := cpus s c), lpcs := (lpcs s)(c := ?x)\<rparr>"
    by (simp add: try_xchg_def xchg_def)
  have hx: "has_lock ?x \<longleftrightarrow> lk_locked (slock s) = 0" by (simp add: has_lock_def)
  show ?case unfolding e
    by (rule lock_inv_upd[OF step_xchg(2)]) (use step_xchg(1) D(6)[of c] D(1) in \<open>auto simp: hx split: if_splits\<close>)
next
  case (step_note s c pcs)
  note D = lock_invD[OF step_note(2)]
  have e: "note_owner c pcs s = s\<lparr>slock := (slock s)\<lparr>lk_cpu := Some c, lk_pcs := pcs\<rparr>, cpus := (cpus s)(c := cpus s c), lpcs := (lpcs s)(c := L_in)\<rparr>"
    by (simp add: note_owner_def)
  show ?case unfolding e
    by (rule lock_inv_upd[OF step_note(2)]) (use step_note(1) D(6)[of c] D(1,2)[of c] in \<open>auto simp: has_lock_def\<close>)
next
  case (step_release s c)
  note D = lock_invD[OF step_release(2)]
  have "holding c (slock s)" using D(1,4)[of c] step_release(1) by (simp add: holding_def has_lock_def)
  then have e: "enter_release c s = s\<lparr>slock := (slock s)\<lparr>lk_pcs := (lk_pcs (slock s))[0 := 0], lk_cpu := None\<rparr>,
      cpus := (cpus s)(c := cpus s c), lpcs := (lpcs s)(c := L_reset)\<rparr>"
    by (simp add: enter_release_def)
  show ?case unfolding e
    by (rule lock_inv_upd[OF step_release(2)]) (use step_release(1) D(6)[of c] D(1,2)[of c] in \<open>auto simp: has_lock_def\<close>)
next
  case (step_free s c)
  note D = lock_invD[OF step_free(2)]
  have e: "free_xchg c s = s\<lparr>slock := (slock s)\<lparr>lk_locked := 0\<rparr>, cpus := (cpus s)(c := cpus s c), lpcs := (lpcs s)(c := L_freed)\<rparr>"
    by (simp add: free_xchg_def xchg_def)
  have "d = c" if "has_lock (lpcs s d)" for d using D(2)[OF that, of c] step_free(1) by (simp add: has_lock_def)
  then show ?case unfolding e
    by (intro lock_inv_upd[OF step_free(2)]) (use step_free(1) D(6)[of c] in \<open>auto simp: has_lock_def\<close>)
next
  case (step_leave s c)
  note D = lock_invD[OF step_leave(2)]
  have p: "ncli (cpus s c) = 1" "\<not> fl_if (cpus s c)" using D(6)[of c] step_leave(1) by auto
  then have e: "leave_release c s = s\<lparr>slock := slock s, cpus := (cpus s)(c := (cpus s c)\<lparr>ncli := 0, fl_if := intena (cpus s c)\<rparr>),
      lpcs := (lpcs s)(c := L_out)\<rparr>"
    by (simp add: leave_release_def popcli_one)
  show ?case unfolding e
    by (rule lock_inv_upd[OF step_leave(2)]) (use step_leave(1) D(1) in \<open>auto simp: has_lock_def\<close>)
qed

lemma lock_reachable_inv: "lock_step\<^sup>*\<^sup>* (lsys_init lk ie) s \<Longrightarrow> lock_inv s"
proof (induction rule: rtranclp_induct)
  case base
  then show ?case by (simp add: lsys_init_def initlock_def lock_inv_def has_lock_def)
qed (rule lock_step_inv)

text \<open>C21: Mutual exclusion. However the processors interleave, at most one of them is between the \<open>xchg\<close> that takes
  the lock and the one that frees it; it runs with interrupts off; and no processor panics.\<close>

theorem spinlock_mutex:
  assumes "lock_step\<^sup>*\<^sup>* (lsys_init lk ie) s"
  shows "(has_lock (lpcs s c) \<and> has_lock (lpcs s d) \<longrightarrow> c = d) \<and> (has_lock (lpcs s c) \<longrightarrow> \<not> fl_if (cpus s c)) \<and>
    lpcs s c \<noteq> L_panic e"
proof -
  note D = lock_invD[OF lock_reachable_inv[OF assms]]
  have "has_lock (lpcs s c) \<Longrightarrow> lpcs s c \<noteq> L_out" by (auto simp: has_lock_def)
  then show ?thesis using D(2)[of c d] D(5)[of c e] D(6)[of c] by (auto split: if_splits)
qed

theorem spinlock_mutex_witness:
  "let s = try_xchg 1 (enter_acquire 1 (lsys_init \<lparr>lk_locked = 7, lk_cpu = None, lk_pcs = []\<rparr> (\<lambda>_. True)))
   in lpcs s 1 = L_got \<and> \<not> fl_if (cpus s 1) \<and> \<not> has_lock (lpcs s 2)"
proof -
  let ?a = "lsys_init \<lparr>lk_locked = 7, lk_cpu = None, lk_pcs = []\<rparr> (\<lambda>_. True)"
  let ?t = "try_xchg 1 (enter_acquire 1 ?a)"
  have "lock_step ?a (enter_acquire 1 ?a)" by (rule step_enter) (simp add: lsys_init_def)
  moreover have "lock_step (enter_acquire 1 ?a) ?t"
    by (rule step_xchg) (simp add: lsys_init_def enter_acquire_def holding_def initlock_def)
  ultimately have r: "lock_step\<^sup>*\<^sup>* ?a ?t" by (meson r_into_rtranclp rtranclp_trans)
  have g: "lpcs ?t 1 = L_got" by (simp add: lsys_init_def lock_defs initlock_def)
  then show ?thesis
    using spinlock_mutex[OF r, of 1 2] spinlock_mutex[OF r, of 1 1] by (auto simp: Let_def has_lock_def)
qed

text \<open>A processor that acquires a lock it already has does not spin for ever but panics, and so does one
  that releases a lock it has not.\<close>

lemma spinlock_misuse:
  assumes "lock_step\<^sup>*\<^sup>* (lsys_init lk ie) s"
  shows "(lpcs s c = L_in \<longrightarrow> lpcs (enter_acquire c s) c = L_panic ''acquire'') \<and>
    (lpcs s c = L_out \<longrightarrow> lpcs (enter_release c s) c = L_panic ''release'')"
proof -
  note D = lock_invD[OF lock_reachable_inv[OF assms]]
  have "lpcs s c = L_in \<Longrightarrow> holding c (slock s)" "lpcs s c = L_out \<Longrightarrow> \<not> holding c (slock s)"
    using D(1,3,4)[of c] by (auto simp: holding_def has_lock_def)
  then show ?thesis by (simp add: enter_acquire_def enter_release_def)
qed

end
