(* ===== verification/Grep.thy ===== *)
theory Grep
  imports Cstring
begin

text \<open>
  \<^verbatim>\<open>grep.c\<close>: the matcher for patterns with \<open>^ . * $\<close>, and the loop that reads a file. A pattern and a text are the
  characters before their terminating zero, so that \<open>re[1]\<close> of a pattern of one character is 0.

  The matcher is shown to decide the language that a pattern denotes.
\<close>

section \<open>The matcher\<close>

abbreviation (input) CARET :: uchar where "CARET \<equiv> 94"
abbreviation (input) STAR :: uchar where "STAR \<equiv> 42"
abbreviation (input) DOLLAR :: uchar where "DOLLAR \<equiv> 36"
abbreviation (input) DOT :: uchar where "DOT \<equiv> 46"
abbreviation (input) NEWLINE :: uchar where "NEWLINE \<equiv> 10"

definition second :: "uchar list \<Rightarrow> uchar" where
  \<comment> \<open>\<open>re[1]\<close>\<close>
  "second re = (case re of _ # c # _ \<Rightarrow> c | _ \<Rightarrow> 0)"

function matchhere :: "uchar list \<Rightarrow> uchar list \<Rightarrow> bool"
  and matchstar :: "uchar \<Rightarrow> uchar list \<Rightarrow> uchar list \<Rightarrow> bool" where
  "matchhere re text =
     (case re of [] \<Rightarrow> True
      | r # re' \<Rightarrow>
          if second re = STAR then matchstar r (tl re') text
          else if r = DOLLAR \<and> re' = [] then text = []
          else (case text of [] \<Rightarrow> False | t # text' \<Rightarrow> (r = DOT \<or> r = t) \<and> matchhere re' text'))"
| "matchstar c re text =
     (matchhere re text \<or>
      (case text of [] \<Rightarrow> False | t # text' \<Rightarrow> (t = c \<or> c = DOT) \<and> matchstar c re text'))"
  by pat_completeness auto

termination
  by (relation "measures [\<lambda>x. case x of Inl (re, text) \<Rightarrow> length re | Inr (c, re, text) \<Rightarrow> length re,
      \<lambda>x. case x of Inl (re, text) \<Rightarrow> length text | Inr (c, re, text) \<Rightarrow> length text,
      \<lambda>x. case x of Inl _ \<Rightarrow> 0 | Inr _ \<Rightarrow> 1]") auto

declare matchhere.simps [simp del] matchstar.simps [simp del]

fun match_from :: "uchar list \<Rightarrow> uchar list \<Rightarrow> bool" where
  "match_from re text = (matchhere re text \<or> (case text of [] \<Rightarrow> False | _ # text' \<Rightarrow> match_from re text'))"

declare match_from.simps [simp del]

definition match :: "uchar list \<Rightarrow> uchar list \<Rightarrow> bool" where
  "match re text = (case re of r # re' \<Rightarrow> if r = CARET then matchhere re' text else match_from re text
     | [] \<Rightarrow> match_from re text)"

section \<open>What a pattern means\<close>

datatype item = One uchar | Many uchar

definition fits :: "uchar \<Rightarrow> uchar \<Rightarrow> bool" where
  "fits r c \<longleftrightarrow> r = DOT \<or> r = c"

fun items :: "uchar list \<Rightarrow> item list \<times> bool" where
  \<comment> \<open>the items of a pattern, and whether it ends with \<open>$\<close>\<close>
  "items [] = ([], False)"
| "items [r] = (if r = DOLLAR then ([], True) else ([One r], False))"
| "items (r # s # re) =
     (if s = STAR then (let (is, e) = items re in (Many r # is, e))
      else (let (is, e) = items (s # re) in (One r # is, e)))"

primrec lang :: "item list \<Rightarrow> uchar list set" where
  "lang [] = {[]}"
| "lang (i # is) = (case i of
       One r \<Rightarrow> {c # u | c u. fits r c \<and> u \<in> lang is}
     | Many r \<Rightarrow> {w @ u | w u. (\<forall>c\<in>set w. fits r c) \<and> u \<in> lang is})"

definition begins :: "uchar list \<Rightarrow> uchar list \<Rightarrow> bool" where
  "begins re text \<longleftrightarrow> (\<exists>u v. text = u @ v \<and> u \<in> lang (fst (items re)) \<and> (snd (items re) \<longrightarrow> v = []))"

lemma beginsI: "s = u @ v \<Longrightarrow> u \<in> lang (fst (items re)) \<Longrightarrow> (snd (items re) \<longrightarrow> v = []) \<Longrightarrow> begins re s"
  unfolding begins_def by blast

lemma begins_Nil: "begins [] s"
  by (simp add: begins_def)

lemma begins_star: "begins (r # STAR # re) s \<longleftrightarrow> (\<exists>w v. s = w @ v \<and> (\<forall>c\<in>set w. fits r c) \<and> begins re v)"
proof
  assume "begins (r # STAR # re) s"
  then obtain x v where x: "s = x @ v" "x \<in> lang (Many r # fst (items re))" and v: "snd (items re) \<longrightarrow> v = []"
    by (simp add: begins_def case_prod_unfold Let_def) blast
  then obtain w u where "s = (w @ u) @ v" "\<forall>c\<in>set w. fits r c" "u \<in> lang (fst (items re))" by auto
  with v show "\<exists>w v. s = w @ v \<and> (\<forall>c\<in>set w. fits r c) \<and> begins re v"
    using beginsI[of "u @ v" u v re] by (metis append.assoc)
next
  assume "\<exists>w v. s = w @ v \<and> (\<forall>c\<in>set w. fits r c) \<and> begins re v"
  then obtain w u v where "s = (w @ u) @ v" "\<forall>c\<in>set w. fits r c" "u \<in> lang (fst (items re))" "snd (items re) \<longrightarrow> v = []"
    unfolding begins_def by auto
  then show "begins (r # STAR # re) s"
    by (intro beginsI[of s "w @ u" v]) (auto simp: case_prod_unfold Let_def)
qed

lemma star_unfold:
  "(\<exists>w v. s = w @ v \<and> (\<forall>c\<in>set w. fits r c) \<and> P v) \<longleftrightarrow>
   P s \<or> (\<exists>t s'. s = t # s' \<and> fits r t \<and> (\<exists>w v. s' = w @ v \<and> (\<forall>c\<in>set w. fits r c) \<and> P v))" (is "?L \<longleftrightarrow> ?R")
proof
  assume ?L
  then obtain w v where "s = w @ v" "\<forall>c\<in>set w. fits r c" "P v" by blast
  then show ?R by (cases w) auto
next
  assume ?R
  then show ?L by (metis append_Cons append_Nil empty_iff list.set(1) set_ConsD)
qed

lemma items_char: "second (r # re) \<noteq> STAR \<Longrightarrow> \<not> (r = DOLLAR \<and> re = []) \<Longrightarrow>
  items (r # re) = (One r # fst (items re), snd (items re))"
  by (cases re) (auto simp: second_def split: prod.splits)

lemma begins_char:
  assumes "second (r # re) \<noteq> STAR" "\<not> (r = DOLLAR \<and> re = [])"
  shows "begins (r # re) s \<longleftrightarrow> (\<exists>t s'. s = t # s' \<and> fits r t \<and> begins re s')"
proof
  assume "begins (r # re) s"
  then obtain x v where x: "s = x @ v" "x \<in> lang (One r # fst (items re))" and v: "snd (items re) \<longrightarrow> v = []"
    unfolding begins_def items_char[OF assms] fst_conv snd_conv by blast
  then obtain c u where "s = c # (u @ v)" "fits r c" "u \<in> lang (fst (items re))" by auto
  then show "\<exists>t s'. s = t # s' \<and> fits r t \<and> begins re s'"
    using beginsI[of "u @ v" u v re] v by blast
next
  assume "\<exists>t s'. s = t # s' \<and> fits r t \<and> begins re s'"
  then obtain t u v where "s = (t # u) @ v" "fits r t" "u \<in> lang (fst (items re))" "snd (items re) \<longrightarrow> v = []"
    unfolding begins_def by auto
  then show "begins (r # re) s"
    by (intro beginsI[of s "t # u" v]) (auto simp: items_char[OF assms])
qed

lemma matchhere_begins:
  "matchhere re s \<longleftrightarrow> begins re s"
  "matchstar c re s \<longleftrightarrow> (\<exists>w v. s = w @ v \<and> (\<forall>x\<in>set w. fits c x) \<and> begins re v)"
proof (induction re s and c re s rule: matchhere_matchstar.induct)
  case (1 re s)
  show ?case
  proof (cases re)
    case Nil
    then show ?thesis by (simp add: matchhere.simps begins_Nil)
  next
    case (Cons r re')
    consider (star) re'' where "re' = STAR # re''" | (dollar) "r = DOLLAR" "re' = []"
      | (char) "second re \<noteq> STAR" "\<not> (r = DOLLAR \<and> re' = [])"
      by (cases re') (auto simp: Cons second_def split: if_splits)
    then show ?thesis
    proof cases
      case star
      then have "second re = STAR" by (simp add: Cons second_def)
      then show ?thesis
        using 1(1)[OF Cons] star begins_star[of r re'' s] by (subst matchhere.simps) (simp add: Cons)
    next
      case dollar
      then show ?thesis by (subst matchhere.simps) (auto simp: Cons second_def begins_def)
    next
      case char
      then show ?thesis
        using 1(2)[OF Cons char] begins_char[of r re' s]
        by (subst matchhere.simps) (auto simp: Cons fits_def split: list.splits)
    qed
  qed
next
  case (2 c re s)
  have more: "\<And>t s'. s = t # s' \<Longrightarrow> fits c t \<Longrightarrow>
      matchstar c re s' \<longleftrightarrow> (\<exists>w v. s' = w @ v \<and> (\<forall>x\<in>set w. fits c x) \<and> begins re v)"
    using 2(2) by (auto simp: fits_def)
  have "matchstar c re s \<longleftrightarrow> begins re s \<or> (\<exists>t s'. s = t # s' \<and> fits c t \<and> matchstar c re s')"
    unfolding 2(1)[symmetric] by (subst matchstar.simps) (auto simp: fits_def split: list.splits)
  also have "\<dots> \<longleftrightarrow> begins re s \<or>
      (\<exists>t s'. s = t # s' \<and> fits c t \<and> (\<exists>w v. s' = w @ v \<and> (\<forall>x\<in>set w. fits c x) \<and> begins re v))"
    using more by (cases s) (simp_all cong: conj_cong)
  also have "\<dots> \<longleftrightarrow> (\<exists>w v. s = w @ v \<and> (\<forall>x\<in>set w. fits c x) \<and> begins re v)"
    by (rule star_unfold[symmetric])
  finally show ?case .
qed

lemma match_from_begins: "match_from re s \<longleftrightarrow> (\<exists>a b. s = a @ b \<and> begins re b)"
proof (induction re s rule: match_from.induct)
  case (1 re s)
  show ?case
  proof (cases s)
    case Nil
    then show ?thesis by (subst match_from.simps) (simp add: matchhere_begins(1))
  next
    case (Cons c s')
    have "match_from re s \<longleftrightarrow> begins re s \<or> (\<exists>a b. s' = a @ b \<and> begins re b)"
      using 1[OF Cons] by (subst match_from.simps) (simp add: matchhere_begins(1) Cons)
    also have "\<dots> \<longleftrightarrow> (\<exists>a b. s = a @ b \<and> begins re b)"
      unfolding Cons by (auto simp: Cons_eq_append_conv)
    finally show ?thesis .
  qed
qed

definition occurs :: "uchar list \<Rightarrow> uchar list \<Rightarrow> bool" where
  \<comment> \<open>some part of the text, its start under \<open>^\<close> and its end under \<open>$\<close>, is a word of the pattern\<close>
  "occurs re s \<longleftrightarrow> (\<exists>a b. s = a @ b \<and> (if re \<noteq> [] \<and> hd re = CARET then a = [] \<and> begins (tl re) b else begins re b))"

text \<open>C29: \<open>match\<close> decides the language of the pattern: it returns true exactly when the text can be cut into a prefix,
  a word of the regular language that the pattern denotes and a rest, the prefix empty when the pattern starts with
  \<open>^\<close> and the rest empty when it ends with \<open>$\<close>.\<close>

theorem match_correct: "match re s \<longleftrightarrow> occurs re s"
  by (cases re) (auto simp: match_def occurs_def matchhere_begins(1) match_from_begins)

end
