(* ===== verification/Lines.thy ===== *)
theory Lines
  imports Grep
begin

text \<open>
  The programs that print lines of a file: \<open>grep\<close> of \<^verbatim>\<open>grep.c\<close>, \<open>head\<close> of \<^verbatim>\<open>head.c\<close> and \<open>tail\<close> of
  \<^verbatim>\<open>tail.c\<close>. They share the loop that fills \<open>buf\<close>, cuts it into lines with \<open>strchr\<close> and moves the rest to the front.

  The memory of the process is a function of the address, with \<open>buf\<close> at \<open>b\<close>; what lies before and behind \<open>buf\<close> is part
  of it, because the loops leave \<open>buf\<close> on some inputs. \<open>m\<close> is a C \<open>int\<close>, without wrap around. A file descriptor is
  the list of the answers to \<open>read\<close>, each cut to the number of bytes asked for; behind them is the end of the file.
  What is written to file descriptor 1 is a list of bytes.
\<close>

section \<open>Reading into the buffer\<close>

definition BUFSZ :: nat where
  "BUFSZ = 1024"

definition read_at :: "bytes \<Rightarrow> nat \<Rightarrow> int \<Rightarrow> uchar list \<Rightarrow> bytes \<times> nat" where
  \<comment> \<open>\<open>read(fd, buf+m, sizeof(buf)-m)\<close>: the memory and the number of bytes\<close>
  "read_at mem b m chunk =
     (let c = take (nat (int BUFSZ - m)) chunk in (blit mem (nat (int b + m)) (\<lambda>i. c ! i) 0 (length c), length c))"

definition keep_rest :: "bytes \<Rightarrow> nat \<Rightarrow> int \<Rightarrow> nat \<Rightarrow> bytes \<times> int" where
  \<comment> \<open>the end of the loop body: the unfinished line goes to the front\<close>
  "keep_rest mem b m p =
     (let m = (if p = b then 0 else m) in
      if m > 0 then (let m = m - (int p - int b) in (user_memmove mem b p m, m)) else (mem, m))"

definition segment :: "bytes \<Rightarrow> nat \<Rightarrow> nat \<Rightarrow> uchar list" where
  \<comment> \<open>the bytes from \<open>p\<close> up to \<open>q\<close>\<close>
  "segment mem p q = map mem [p..<q]"

section \<open>grep\<close>

partial_function (option) grep_lines :: "uchar list \<Rightarrow> nat \<Rightarrow> bytes \<Rightarrow> uchar list \<Rightarrow> (nat \<times> bytes \<times> uchar list) option" where
  "grep_lines pat p mem out =
     Option.bind (strchr_from mem NEWLINE p) (\<lambda>r. case r of None \<Rightarrow> Some (p, mem, out)
       | Some q \<Rightarrow>
           if match pat (segment mem p q)
           then grep_lines pat (Suc q) mem (out @ segment mem p (Suc q))
           else grep_lines pat (Suc q) (mem(q := 0)) out)"

fun grep :: "uchar list \<Rightarrow> nat \<Rightarrow> uchar list list \<Rightarrow> bytes \<Rightarrow> int \<Rightarrow> uchar list \<Rightarrow> (bytes \<times> uchar list) option" where
  "grep pat b [] mem m out = Some (mem, out)"
| "grep pat b (chunk # reads) mem m out =
     (let (mem, n) = read_at mem b m chunk in
      if n = 0 then Some (mem, out)
      else (let m = m + int n in
        Option.bind (grep_lines pat b mem out) (\<lambda>(p, mem, out).
        let (mem, m) = keep_rest mem b m p in grep pat b reads mem m out)))"

section \<open>head\<close>

partial_function (option) head_lines :: "nat \<Rightarrow> bytes \<Rightarrow> nat \<Rightarrow> uchar list \<Rightarrow> (bool \<times> nat \<times> bytes \<times> nat \<times> uchar list) option" where
  \<comment> \<open>the flag: the function returned after ten lines\<close>
  "head_lines p mem count out =
     Option.bind (strchr_from mem NEWLINE p) (\<lambda>r. case r of None \<Rightarrow> Some (False, p, mem, count, out)
       | Some q \<Rightarrow>
           (let out = out @ segment mem p (Suc q); mem = mem(q := 0); count = Suc count in
            if count = 10 then Some (True, Suc q, mem, count, out)
            else head_lines (Suc q) mem count out))"

fun head_loop :: "nat \<Rightarrow> uchar list list \<Rightarrow> bytes \<Rightarrow> int \<Rightarrow> nat \<Rightarrow> uchar list \<Rightarrow> uchar list option" where
  "head_loop b [] mem m count out = Some out"
| "head_loop b (chunk # reads) mem m count out =
     (let (mem, n) = read_at mem b m chunk in
      if n = 0 then Some out
      else (let m = m + int n in
        Option.bind (head_lines b mem count out) (\<lambda>(ret, p, mem, count, out).
        if ret then Some out
        else (let (mem, m) = keep_rest mem b m p in head_loop b reads mem m count out))))"

definition head :: "nat \<Rightarrow> uchar list list \<Rightarrow> bytes \<Rightarrow> uchar list option" where
  "head b reads mem = head_loop b reads mem 0 0 []"

section \<open>tail\<close>

partial_function (option) count_lines :: "nat \<Rightarrow> bytes \<Rightarrow> nat \<Rightarrow> (nat \<times> bytes \<times> nat) option" where
  "count_lines p mem count =
     Option.bind (strchr_from mem NEWLINE p) (\<lambda>r. case r of None \<Rightarrow> Some (p, mem, count)
       | Some q \<Rightarrow> count_lines (Suc q) (mem(q := 0)) (Suc count))"

fun count_loop :: "nat \<Rightarrow> uchar list list \<Rightarrow> bytes \<Rightarrow> int \<Rightarrow> nat \<Rightarrow> (bytes \<times> nat) option" where
  "count_loop b [] mem m count = Some (mem, count)"
| "count_loop b (chunk # reads) mem m count =
     (let (mem, n) = read_at mem b m chunk in
      if n = 0 then Some (mem, count)
      else (let m = m + int n in
        Option.bind (count_lines b mem count) (\<lambda>(p, mem, count).
        let (mem, m) = keep_rest mem b m p in count_loop b reads mem m count)))"

fun copy_loop :: "nat \<Rightarrow> uchar list list \<Rightarrow> bytes \<Rightarrow> uchar list \<Rightarrow> uchar list" where
  "copy_loop b [] mem out = out"
| "copy_loop b (chunk # reads) mem out =
     (let (mem, n) = read_at mem b 0 chunk in
      if n = 0 then out else copy_loop b reads mem (out @ segment mem b (b + n)))"

partial_function (option) tail_lines :: "nat \<Rightarrow> bytes \<Rightarrow> int \<Rightarrow> uchar list \<Rightarrow> (nat \<times> bytes \<times> int \<times> uchar list) option" where
  "tail_lines p mem count out =
     Option.bind (strchr_from mem NEWLINE p) (\<lambda>r. case r of None \<Rightarrow> Some (p, mem, count, out)
       | Some q \<Rightarrow>
           (let count = count - 1; out = (if count < 10 then out @ segment mem p (Suc q) else out) in
            tail_lines (Suc q) (mem(q := 0)) count out))"

fun tail_loop :: "nat \<Rightarrow> uchar list list \<Rightarrow> bytes \<Rightarrow> int \<Rightarrow> int \<Rightarrow> uchar list \<Rightarrow> uchar list option" where
  "tail_loop b [] mem m count out = Some out"
| "tail_loop b (chunk # reads) mem m count out =
     (let (mem, n) = read_at mem b m chunk in
      if n = 0 then Some out
      else (let m = m + int n in
        Option.bind (tail_lines b mem count out) (\<lambda>(p, mem, count, out).
        let (mem, m) = keep_rest mem b m p in tail_loop b reads mem m count out)))"

definition tail :: "nat \<Rightarrow> uchar list list \<Rightarrow> uchar list list \<Rightarrow> bytes \<Rightarrow> uchar list option" where
  \<comment> \<open>the answers to the reads of the first and of the second pass over the file\<close>
  "tail b reads1 reads2 mem =
     Option.bind (count_loop b reads1 (user_memset mem b 0 BUFSZ) 0 0) (\<lambda>(mem, count).
     if count \<le> 10 then Some (copy_loop b reads2 mem [])
     else tail_loop b reads2 mem 0 (int count) [])"

declare strchr_from.simps [code] grep_lines.simps [code] head_lines.simps [code] count_lines.simps [code] tail_lines.simps [code]

section \<open>Files of lines\<close>

definition unlines :: "uchar list list \<Rightarrow> uchar list" where
  "unlines ls = concat (map (\<lambda>l. l @ [NEWLINE]) ls)"

definition plain :: "uchar list \<Rightarrow> bool" where
  "plain l \<longleftrightarrow> NEWLINE \<notin> set l \<and> 0 \<notin> set l"

definition holds :: "bytes \<Rightarrow> nat \<Rightarrow> uchar list \<Rightarrow> bool" where
  "holds mem p s \<longleftrightarrow> segment mem p (p + length s) = s"

lemma unlines_simps [simp]: "unlines [] = []" "unlines (l # ls) = l @ NEWLINE # unlines ls"
  "unlines (ls @ ls') = unlines ls @ unlines ls'"
  by (simp_all add: unlines_def)

text \<open>The bytes of a string, for the examples.\<close>

definition chars :: "string \<Rightarrow> uchar list" where
  "chars s = map (\<lambda>c. word_of_nat (of_char c)) s"

lemma segment_length [simp]: "length (segment mem p q) = q - p"
  by (simp add: segment_def)

lemma segment_append: "p \<le> q \<Longrightarrow> q \<le> r \<Longrightarrow> segment mem p r = segment mem p q @ segment mem q r"
  unfolding segment_def map_append[symmetric] by (metis le_add_diff_inverse upt_add_eq_append)

lemma segment_Suc: "segment mem p (Suc q) = (if p \<le> q then segment mem p q @ [mem q] else [])"
  by (simp add: segment_def)

lemma holds_append [simp]: "holds mem p (s @ t) \<longleftrightarrow> holds mem p s \<and> holds mem (p + length s) t"
  unfolding holds_def using segment_append[of p "p + length s" "p + length (s @ t)" mem] by (auto simp: add.assoc)

lemma holds_Cons [simp]: "holds mem p (c # s) \<longleftrightarrow> mem p = c \<and> holds mem (Suc p) s"
  using holds_append[of mem p "[c]" s] by (simp add: holds_def segment_def)

lemma holds_Nil [simp]: "holds mem p []"
  by (simp add: holds_def segment_def)

lemma holds_upd [simp]: "q < p \<or> p + length s \<le> q \<Longrightarrow> holds (mem(q := v)) p s = holds mem p s"
  by (auto simp: holds_def segment_def intro!: arg_cong[where f = "\<lambda>x. x = s"] map_cong)

lemma holdsD: "holds mem p s \<Longrightarrow> segment mem p (p + length s) = s"
  by (simp add: holds_def)

lemma strchr_plain:
  assumes "holds mem p l" "plain l"
  shows "mem (p + length l) = NEWLINE \<Longrightarrow> strchr_from mem NEWLINE p = Some (Some (p + length l))"
    "mem (p + length l) = 0 \<Longrightarrow> strchr_from mem NEWLINE p = Some None"
  using assms by (induction l arbitrary: p) (auto simp: plain_def strchr_from.simps)

definition text_at :: "bytes \<Rightarrow> nat \<Rightarrow> uchar list list \<Rightarrow> uchar list \<Rightarrow> bool" where
  \<comment> \<open>the memory has the lines \<open>ls\<close> and the unfinished line \<open>r\<close> at \<open>p\<close>, and behind them a zero\<close>
  "text_at mem p ls r \<longleftrightarrow> list_all plain ls \<and> plain r \<and> holds mem p (unlines ls @ r) \<and> mem (p + length (unlines ls @ r)) = 0"

lemma strchr_no_line: "text_at mem p [] r \<Longrightarrow> strchr_from mem NEWLINE p = Some None"
  using strchr_plain(2)[of mem p r] by (simp add: text_at_def)

lemma text_at_line:
  assumes "text_at mem p (l # ls) r"
  shows "strchr_from mem NEWLINE p = Some (Some (p + length l))" "segment mem p (p + length l) = l"
    "segment mem p (Suc (p + length l)) = l @ [NEWLINE]" "text_at mem (Suc (p + length l)) ls r"
    "text_at (mem(p + length l := 0)) (Suc (p + length l)) ls r"
proof -
  let ?q = "p + length l"
  have l: "plain l" "list_all plain ls" "plain r" and h: "holds mem p l" "mem ?q = NEWLINE" "holds mem (Suc ?q) (unlines ls @ r)"
    "mem (Suc ?q + length (unlines ls @ r)) = 0"
    using assms by (simp_all add: text_at_def ac_simps)
  show "strchr_from mem NEWLINE p = Some (Some ?q)" using strchr_plain(1)[OF h(1) l(1) h(2)] .
  show "segment mem p ?q = l" by (rule holdsD[OF h(1)])
  then show "segment mem p (Suc ?q) = l @ [NEWLINE]" using h(2) by (simp add: segment_Suc)
  show t: "text_at mem (Suc ?q) ls r" using l(2,3) h(3,4) by (simp add: text_at_def)
  have "holds (mem(?q := 0)) (Suc ?q) (unlines ls @ r) = holds mem (Suc ?q) (unlines ls @ r)" by (rule holds_upd) simp
  then show "text_at (mem(?q := 0)) (Suc ?q) ls r" using t by (simp add: text_at_def del: holds_append)
qed

lemma read_file:
  assumes "list_all plain ls" "plain r" "length (unlines ls @ r) \<le> 1024" "mem (b + length (unlines ls @ r)) = 0"
    "read_at mem b 0 (unlines ls @ r) = (mem', n)"
  shows "n = length (unlines ls @ r)" "text_at mem' b ls r"
proof -
  let ?s = "unlines ls @ r"
  have e: "mem' = blit mem b (\<lambda>i. ?s ! i) 0 (length ?s)" and "n = length ?s"
    using assms(3,5) by (auto simp: read_at_def BUFSZ_def)
  then show "n = length ?s" by simp
  have "holds mem' b ?s" unfolding holds_def e segment_def by (auto intro!: nth_equalityI)
  then show "text_at mem' b ls r" using assms(1,2,4) by (simp add: text_at_def e del: holds_append)
qed

section \<open>What the programs print\<close>

lemma grep_lines_spec:
  "text_at mem p ls r \<Longrightarrow>
   \<exists>mem'. grep_lines pat p mem out = Some (p + length (unlines ls), mem', out @ unlines (filter (match pat) ls))"
proof (induction ls arbitrary: p mem out)
  case Nil
  then show ?case using strchr_no_line[of mem p r] by (subst grep_lines.simps) simp
next
  case (Cons l ls)
  note t = text_at_line[OF Cons.prems]
  show ?case
    using Cons.IH[OF t(4), of "out @ l @ [NEWLINE]"] Cons.IH[OF t(5), of out]
    by (subst grep_lines.simps) (simp add: t(1,2,3) add.assoc fun_upd_def)
qed


lemma head_lines_spec:
  "text_at mem p ls r \<Longrightarrow> count < 10 \<Longrightarrow>
   (if 10 \<le> count + length ls
    then \<exists>p' mem'. head_lines p mem count out = Some (True, p', mem', 10, out @ unlines (take (10 - count) ls))
    else \<exists>mem'. head_lines p mem count out = Some (False, p + length (unlines ls), mem', count + length ls, out @ unlines ls))"
proof (induction ls arbitrary: p mem count out)
  case Nil
  then show ?case using strchr_no_line[of mem p r] by (subst head_lines.simps) simp
next
  case (Cons l ls)
  note t = text_at_line[OF Cons.prems(1)]
  show ?case
  proof (cases "count = 9")
    case True
    then show ?thesis by (subst head_lines.simps) (simp add: t(1,3) Let_def)
  next
    case False
    then have "Suc count < 10" using Cons.prems(2) by simp
    moreover obtain k where "10 - count = Suc k" "10 - Suc count = k" using Cons.prems(2) by (metis Suc_diff_Suc)
    ultimately show ?thesis
      using Cons.IH[OF t(5), of "Suc count" "out @ l @ [NEWLINE]"] False
      by (subst (1 2) head_lines.simps) (simp add: t(1,3) Let_def add.assoc fun_upd_def split: if_splits)
  qed
qed

text \<open>For a file that fits into the buffer, \<open>head\<close> prints its first ten lines.\<close>

theorem head_prints:
  assumes "list_all plain ls" "plain r" "length (unlines ls @ r) \<le> 1024" "mem (b + length (unlines ls @ r)) = 0"
  shows "head b [unlines ls @ r] mem = Some (unlines (take 10 ls))"
proof -
  obtain mem' n where r: "read_at mem b 0 (unlines ls @ r) = (mem', n)" by force
  note f = read_file[OF assms r]
  have "ls = []" if "n = 0" using that f(1) by (cases ls) auto
  then show ?thesis
    using head_lines_spec[OF f(2), of 0 "[]"]
    by (auto simp: head_def r Let_def split: prod.splits if_splits)
qed

lemma count_lines_spec:
  "text_at mem p ls r \<Longrightarrow>
   \<exists>mem'. count_lines p mem count = Some (p + length (unlines ls), mem', count + length ls) \<and>
     (\<forall>i. p + length (unlines ls) \<le> i \<longrightarrow> mem' i = mem i)"
proof (induction ls arbitrary: p mem count)
  case Nil
  then show ?case using strchr_no_line[of mem p r] by (subst count_lines.simps) simp
next
  case (Cons l ls)
  note t = text_at_line[OF Cons.prems]
  obtain mem' where "count_lines (Suc (p + length l)) (mem(p + length l := 0)) (Suc count)
      = Some (p + length (unlines (l # ls)), mem', count + length (l # ls))"
    "\<And>i. p + length (unlines (l # ls)) \<le> i \<Longrightarrow> mem' i = mem i"
    using Cons.IH[OF t(5), of "Suc count"] by (auto simp: add.assoc fun_upd_def)
  then show ?case by (intro exI[of _ mem']) (subst count_lines.simps, simp add: t(1))
qed

lemma tail_lines_spec:
  "text_at mem p ls r \<Longrightarrow>
   \<exists>mem'. tail_lines p mem count out =
     Some (p + length (unlines ls), mem', count - int (length ls), out @ unlines (drop (nat (count - 10)) ls))"
proof (induction ls arbitrary: p mem count out)
  case Nil
  then show ?case using strchr_no_line[of mem p r] by (subst tail_lines.simps) simp
next
  case (Cons l ls)
  note t = text_at_line[OF Cons.prems]
  have "nat (count - 10) = Suc (nat (count - 1 - 10))" if "\<not> count - 1 < 10" using that by simp
  then show ?case
    using Cons.IH[OF t(5), of "count - 1" out] Cons.IH[OF t(5), of "count - 1" "out @ l @ [NEWLINE]"]
    by (subst tail_lines.simps) (auto simp: t(1,3) Let_def algebra_simps fun_upd_def)
qed

text \<open>C36: For a file shorter than the buffer, \<open>tail\<close> prints its last ten lines, and all of the file when it has no more
  than ten.\<close>

theorem tail_prints:
  assumes "list_all plain ls" "plain r" "length (unlines ls @ r) < 1024"
  shows "tail b [unlines ls @ r] [unlines ls @ r] mem =
    Some (if length ls \<le> 10 then unlines ls @ r else unlines (drop (length ls - 10) ls))"
proof -
  let ?s = "unlines ls @ r" and ?mem = "user_memset mem b 0 BUFSZ"
  have z: "?mem (b + length ?s) = 0" using assms(3) by (simp add: user_memset_def stosb_eq BUFSZ_def)
  obtain mem1 n where r1: "read_at ?mem b 0 ?s = (mem1, n)" by force
  note f1 = read_file[OF assms(1,2) less_imp_le[OF assms(3)] z r1]
  obtain mem2 where c: "count_lines b mem1 0 = Some (b + length (unlines ls), mem2, length ls)"
    and fr: "\<And>i. b + length (unlines ls) \<le> i \<Longrightarrow> mem2 i = mem1 i"
    using count_lines_spec[OF f1(2), of 0] by auto
  obtain mem3 m where k: "keep_rest mem2 b (int n) (b + length (unlines ls)) = (mem3, m)" by force
  have "mem2 (b + length ?s) = 0" using f1(2) fr by (simp add: text_at_def)
  then have "mem3 (b + length ?s) = 0"
    using k f1(1) by (auto simp: keep_rest_def Let_def user_memmove_def copy_up_eq split: if_splits)
  moreover obtain mem4 n4 where r2: "read_at mem3 b 0 ?s = (mem4, n4)" by force
  ultimately have f2: "n4 = length ?s" "text_at mem4 b ls r" "holds mem4 b ?s"
    using read_file[OF assms(1,2) less_imp_le[OF assms(3)], of mem3] by (auto simp: text_at_def)
  have e: "count_loop b [?s] ?mem 0 0 = (if ?s = [] then Some (mem1, 0) else Some (mem3, length ls))"
    using c k f1(1) by (auto simp: r1)
  show ?thesis
  proof (cases "?s = []")
    case True
    then have "ls = []" "r = []" by (cases ls; auto)+
    then show ?thesis using e by (simp add: tail_def read_at_def)
  next
    case False
    have n: "nat (int (length ls) - 10) = length ls - 10" by arith
    have "copy_loop b [?s] mem3 [] = ?s" using f2 False by (auto simp: r2 holds_def)
    moreover obtain mem5 where "tail_lines b mem4 (int (length ls)) [] =
        Some (b + length (unlines ls), mem5, 0, unlines (drop (length ls - 10) ls))"
      using tail_lines_spec[OF f2(2), of "int (length ls)" "[]"] by (auto simp: n)
    then have "tail_loop b [?s] mem3 0 (int (length ls)) [] = Some (unlines (drop (length ls - 10) ls))"
      using False f2(1) by (auto simp: r2 split: prod.splits)
    ultimately show ?thesis using e False by (auto simp: tail_def simp del: count_loop.simps copy_loop.simps tail_loop.simps)
  qed
qed



theorem head_prints_witness:
  "head 0 [unlines [chars ''x'', chars ''x'', chars ''x'', chars ''x'', chars ''x'', chars ''x'', chars ''x'', chars ''x'', chars ''x'', chars ''x'', chars ''x'']] zero_bytes =
    Some (unlines [chars ''x'', chars ''x'', chars ''x'', chars ''x'', chars ''x'', chars ''x'', chars ''x'', chars ''x'', chars ''x'', chars ''x''])"
  using head_prints[of "[chars ''x'', chars ''x'', chars ''x'', chars ''x'', chars ''x'', chars ''x'', chars ''x'', chars ''x'', chars ''x'', chars ''x'', chars ''x'']" "[]" zero_bytes 0]
  by (simp add: plain_def chars_def zero_bytes_def)

theorem tail_prints_witness:
  "tail 0 [unlines [chars ''y'', chars ''x'', chars ''x'', chars ''x'', chars ''x'', chars ''x'', chars ''x'', chars ''x'', chars ''x'', chars ''x'', chars ''x'']]
      [unlines [chars ''y'', chars ''x'', chars ''x'', chars ''x'', chars ''x'', chars ''x'', chars ''x'', chars ''x'', chars ''x'', chars ''x'', chars ''x'']] zero_bytes =
    Some (unlines [chars ''x'', chars ''x'', chars ''x'', chars ''x'', chars ''x'', chars ''x'', chars ''x'', chars ''x'', chars ''x'', chars ''x''])"
  using tail_prints[of "[chars ''y'', chars ''x'', chars ''x'', chars ''x'', chars ''x'', chars ''x'', chars ''x'', chars ''x'', chars ''x'', chars ''x'', chars ''x'']" "[]" 0 zero_bytes]
  by (simp add: plain_def chars_def zero_bytes_def)

end
