(* ===== verification/Ring.thy ===== *)
theory Ring
  imports Xv6_Prelude
begin

text \<open>
  Bounded queues of bytes. The locale \<open>fifo\<close> is the contract of a queue of at most \<open>cap\<close> bytes with
  the operations the pipe and the console buffer have, and what a sequence of operations
  does under it. \<open>ring_queue\<close> is the queue in a circular buffer addressed by two
  32-bit counters that wrap around, the way both are implemented.
\<close>

section \<open>The contract\<close>

locale fifo =
  fixes ok :: "'s \<Rightarrow> bool"
    and queue :: "'s \<Rightarrow> uchar list"
    and cap :: nat
    and full :: "'s \<Rightarrow> bool"
    and empty :: "'s \<Rightarrow> bool"
    and put :: "uchar \<Rightarrow> 's \<Rightarrow> 's"
    and get :: "'s \<Rightarrow> uchar \<times> 's"
  assumes full_iff: "ok s \<Longrightarrow> full s \<longleftrightarrow> length (queue s) = cap"
    and empty_iff: "ok s \<Longrightarrow> empty s \<longleftrightarrow> queue s = []"
    and put_law: "ok s \<Longrightarrow> \<not> full s \<Longrightarrow> ok (put c s) \<and> queue (put c s) = queue s @ [c]"
    and get_law: "ok s \<Longrightarrow> \<not> empty s \<Longrightarrow> ok (snd (get s)) \<and> queue s = fst (get s) # queue (snd (get s))"
    and bounded: "ok s \<Longrightarrow> length (queue s) \<le> cap"
begin

text \<open>Put bytes until the queue is full; the bytes that did not fit are returned.\<close>

fun puts :: "uchar list \<Rightarrow> 's \<Rightarrow> uchar list \<times> 's" where
  "puts [] s = ([], s)"
| "puts (c # cs) s = (if full s then (c # cs, s) else puts cs (put c s))"

text \<open>Get at most \<open>n\<close> bytes.\<close>

primrec gets :: "nat \<Rightarrow> 's \<Rightarrow> uchar list \<times> 's" where
  "gets 0 s = ([], s)"
| "gets (Suc n) s = (if empty s then ([], s) else
     let (c, s1) = get s; (cs, s2) = gets n s1 in (c # cs, s2))"

lemma puts_queue:
  "ok s \<Longrightarrow> puts cs s = (rest, s') \<Longrightarrow>
     ok s' \<and> (\<exists>done. cs = done @ rest \<and> queue s' = queue s @ done) \<and> (rest \<noteq> [] \<longrightarrow> full s')"
proof (induction cs arbitrary: s)
  case (Cons c cs)
  show ?case
  proof (cases "full s")
    case False
    then have p: "ok (put c s)" "queue (put c s) = queue s @ [c]" using put_law[OF Cons.prems(1)] by auto
    from Cons.IH[OF p(1)] Cons.prems(2) False obtain d where
      "ok s'" "cs = d @ rest" "queue s' = queue s @ c # d" "rest \<noteq> [] \<longrightarrow> full s'" using p by auto
    then show ?thesis by (intro conjI exI[of _ "c # d"]) auto
  qed (use Cons.prems in auto)
qed simp

lemma puts_fits:
  "ok s \<Longrightarrow> length (queue s) + length cs \<le> cap \<Longrightarrow> fst (puts cs s) = [] \<and> queue (snd (puts cs s)) = queue s @ cs"
proof (induction cs arbitrary: s)
  case (Cons c cs)
  then have nf: "\<not> full s" using full_iff[OF Cons.prems(1)] by simp
  then have "ok (put c s)" "queue (put c s) = queue s @ [c]" using put_law[OF Cons.prems(1)] by auto
  then show ?case using Cons.IH[of "put c s"] Cons.prems nf by simp
qed simp

lemma gets_queue:
  "ok s \<Longrightarrow> ok (snd (gets n s)) \<and> fst (gets n s) = take n (queue s) \<and> queue (snd (gets n s)) = drop n (queue s)"
proof (induction n arbitrary: s)
  case (Suc n)
  show ?case
  proof (cases "empty s")
    case True
    then show ?thesis using Suc.prems empty_iff by simp
  next
    case False
    obtain c s1 where g: "get s = (c, s1)" by fastforce
    then have s1: "ok s1" "queue s = c # queue s1" using get_law[OF Suc.prems False] by auto
    then show ?thesis using False g Suc.IH[of s1] by (auto simp: Let_def split: prod.splits)
  qed
qed simp

text \<open>Bytes come out in the order they went in, and none is lost.\<close>

lemma puts_gets:
  assumes "ok s" "queue s = []" "length cs \<le> cap"
  shows "fst (gets (length cs) (snd (puts cs s))) = cs"
proof -
  have "ok (snd (puts cs s))" using puts_queue[OF assms(1), of cs "fst (puts cs s)" "snd (puts cs s)"] by simp
  moreover have "queue (snd (puts cs s)) = cs" using puts_fits[OF assms(1), of cs] assms(2,3) by simp
  ultimately show ?thesis using gets_queue[of "snd (puts cs s)" "length cs"] by simp
qed

end

section \<open>Circular buffers\<close>

definition ring_queue :: "nat \<Rightarrow> bytes \<Rightarrow> uint \<Rightarrow> uint \<Rightarrow> uchar list" where
  "ring_queue n d r w = map (\<lambda>k. d (unat (r + of_nat k) mod n)) [0..<unat (w - r)]"

lemma unat_mod_dvd:
  assumes "n dvd 2 ^ 32"
  shows "unat (r + of_nat k :: uint) mod n = (unat r + k) mod n"
proof -
  have "unat (r + of_nat k :: uint) = (unat r + k) mod 2 ^ 32"
    by (simp add: unat_word_ariths unsigned_of_nat take_bit_eq_mod mod_add_right_eq)
  then show ?thesis using assms by (simp add: mod_mod_cancel)
qed

lemma ring_slots_distinct:
  assumes "n dvd 2 ^ 32" "k < unat (w - r)" "unat (w - r) < n"
  shows "unat (r + of_nat k) mod n \<noteq> unat (w :: uint) mod n"
proof
  let ?l = "unat (w - r)"
  assume "unat (r + of_nat k) mod n = unat w mod n"
  moreover have "w = r + of_nat ?l" by simp
  then have "unat w mod n = (unat r + ?l) mod n" using unat_mod_dvd[OF assms(1), of r ?l] by metis
  ultimately have "(unat r + ?l) mod n = (unat r + k) mod n" using unat_mod_dvd[OF assms(1), of r k] by simp
  then have "n dvd (unat r + ?l) - (unat r + k)" using mod_eq_dvd_iff_nat[of "unat r + k" "unat r + ?l" n] assms(2) by simp
  then have "n dvd ?l - k" by simp
  then show False using assms(2,3) by (simp add: nat_dvd_not_less)
qed

lemma ring_put:
  assumes n: "n dvd 2 ^ 32" "n < 2 ^ 32" and room: "unat (w - r) < n"
  shows "ring_queue n (d(unat w mod n := c)) r (w + 1) = ring_queue n d r w @ [c]"
proof -
  have e: "w + 1 - r = (w - r) + 1" by simp
  have l: "unat (w + 1 - r) = Suc (unat (w - r))" unfolding e using unat_add32[of "w - r" 1] room n(2) by simp
  have "unat (r + of_nat k) mod n \<noteq> unat w mod n" if "k < unat (w - r)" for k
    using ring_slots_distinct[OF n(1) that room] .
  then show ?thesis by (simp add: ring_queue_def l)
qed

lemma ring_get:
  assumes "w \<noteq> r"
  shows "ring_queue n d r w = d (unat r mod n) # ring_queue n d (r + 1) w"
proof -
  have e: "w - (r + 1) = (w - r) - 1" by simp
  have "w - r \<noteq> 0" using assms by simp
  then have l: "unat (w - r) = Suc (unat (w - (r + 1)))" unfolding e by (simp add: unat_minus_one unat_gt_0)
  have u: "[0..<Suc m] = 0 # map Suc [0..<m]" for m by (simp add: upt_conv_Cons map_Suc_upt del: upt_Suc)
  have "(\<lambda>k. d (unat (r + of_nat (Suc k)) mod n)) = (\<lambda>k. d (unat (r + 1 + of_nat k) mod n))" by (simp add: ac_simps)
  then show ?thesis unfolding ring_queue_def l u by (simp add: comp_def ac_simps)
qed

lemma ring_length: "length (ring_queue n d r w) = unat (w - r)"
  by (simp add: ring_queue_def)

lemma ring_empty: "ring_queue n d r w = [] \<longleftrightarrow> r = w"
proof
  assume "ring_queue n d r w = []"
  then have "unat (w - r) = 0" by (simp add: ring_queue_def)
  then have "w - r = 0" by (rule unsigned_eq_0_iff[THEN iffD1])
  then show "r = w" by simp
qed (simp add: ring_queue_def)

lemma ring_full: "n < 2 ^ 32 \<Longrightarrow> w = r + of_nat n \<longleftrightarrow> length (ring_queue n d r w) = n"
proof -
  assume n: "n < 2 ^ 32"
  have "w = r + of_nat n \<longleftrightarrow> w - r = of_nat n" by (auto simp: algebra_simps)
  also have "\<dots> \<longleftrightarrow> unat (w - r) = n" using unat_of_nat32[OF n] by (auto simp: word_unat_eq_iff)
  finally show ?thesis by (simp add: ring_length)
qed

lemma ring_snoc:
  assumes "w \<noteq> r"
  shows "ring_queue n d r w = ring_queue n d r (w - 1) @ [d (unat (w - 1) mod n)]"
proof -
  have e: "w - 1 - r = (w - r) - 1" by simp
  have "w - r \<noteq> 0" using assms by simp
  then have l: "unat (w - r) = Suc (unat (w - 1 - r))" unfolding e by (simp add: unat_minus_one unat_gt_0)
  have "r + of_nat (unat (w - 1 - r)) = w - 1" by simp
  then show ?thesis unfolding ring_queue_def l by simp
qed

end
