(* ===== verification/Printf.thy ===== *)
theory Printf
  imports Cstring
begin

text \<open>
  Formatted output of user programs (\<^verbatim>\<open>printf.c\<close>). Output is the list of the bytes given to \<open>putc\<close>. The array \<open>buf\<close> of
  \<open>printint\<close> is the list of the bytes stored so far; a store behind its sixteen bytes is the result \<open>None\<close>. The
  arguments of \<open>printf\<close> are the words above \<open>fmt\<close> on the stack, and its format the characters before the zero.
\<close>

section \<open>Numbers\<close>

definition PBUF :: nat where
  \<comment> \<open>the size of \<open>buf\<close>\<close>
  "PBUF = 16"

definition store_digit :: "uchar \<Rightarrow> uchar list \<Rightarrow> uchar list option" where
  \<comment> \<open>\<open>buf[i++] = c\<close>\<close>
  "store_digit c buf = (if length buf < PBUF then Some (buf @ [c]) else None)"

function digit_loop :: "uchar list \<Rightarrow> uint \<Rightarrow> uint \<Rightarrow> uchar list \<Rightarrow> uchar list option" where
  "digit_loop digits base x buf =
     (case store_digit (digits ! unat (x mod base)) buf of None \<Rightarrow> None
      | Some buf \<Rightarrow> if x div base \<noteq> 0 then digit_loop digits base (x div base) buf else Some buf)"
  by pat_completeness auto

termination
  by (relation "measure (\<lambda>(digits, base, x, buf). PBUF - length buf)") (auto simp: store_digit_def split: if_splits)

declare digit_loop.simps [simp del]

definition DIGITS :: "uchar list" where
  "DIGITS = map (\<lambda>c. word_of_nat (of_char c)) ''0123456789ABCDEF''"

definition printint :: "uint \<Rightarrow> uint \<Rightarrow> bool \<Rightarrow> uchar list option" where
  "printint xx base sign =
     (let neg = (sign \<and> sint xx < 0); x = (if neg then - xx else xx) in
      Option.bind (digit_loop DIGITS base x []) (\<lambda>buf.
      map_option rev (if neg then store_digit 45 buf else Some buf)))"

section \<open>Formats\<close>

partial_function (option) string_at :: "bytes \<Rightarrow> nat \<Rightarrow> uchar list option" where
  \<comment> \<open>the bytes the loop of \<open>%s\<close> prints\<close>
  "string_at mem s = (if mem s \<noteq> 0 then Option.bind (string_at mem (Suc s)) (\<lambda>t. Some (mem s # t)) else Some [])"

definition NULL_NAME :: "uchar list" where
  "NULL_NAME = map (\<lambda>c. word_of_nat (of_char c)) ''(null)''"

definition directive :: "bytes \<Rightarrow> uchar \<Rightarrow> uint \<Rightarrow> (uchar list \<times> nat) option" where
  \<comment> \<open>a character after \<open>%\<close>: what is printed for it and how many arguments it takes\<close>
  "directive mem c arg =
     (if c = 100 then map_option (\<lambda>t. (t, 1)) (printint arg 10 True)
      else if c = 120 \<or> c = 112 then map_option (\<lambda>t. (t, 1)) (printint arg 16 False)
      else if c = 115 then map_option (\<lambda>t. (t, 1)) (if arg = 0 then Some NULL_NAME else string_at mem (unat arg))
      else if c = 99 then Some ([ucast arg], 1)
      else if c = 37 then Some ([c], 0)
      else Some ([37, c], 0))"

fun printf_from :: "bytes \<Rightarrow> uchar list \<Rightarrow> bool \<Rightarrow> (nat \<Rightarrow> uint) \<Rightarrow> nat \<Rightarrow> uchar list \<Rightarrow> uchar list option" where
  \<comment> \<open>the flag is \<open>state == '%'\<close>\<close>
  "printf_from mem [] state args ap out = Some out"
| "printf_from mem (c # fmt) state args ap out =
     (if \<not> state then
        if c = 37 then printf_from mem fmt True args ap out
        else printf_from mem fmt False args ap (out @ [c])
      else Option.bind (directive mem c (args ap)) (\<lambda>(t, k).
        printf_from mem fmt False args (ap + k) (out @ t)))"

definition printf :: "bytes \<Rightarrow> uchar list \<Rightarrow> (nat \<Rightarrow> uint) \<Rightarrow> uchar list option" where
  "printf mem fmt args = printf_from mem fmt False args 0 []"

section \<open>The digits of a number\<close>

function digs :: "nat \<Rightarrow> nat \<Rightarrow> nat list" where
  \<comment> \<open>lowest first\<close>
  "digs base n = n mod base # (if 2 \<le> base \<and> n div base \<noteq> 0 then digs base (n div base) else [])"
  by pat_completeness auto

termination
proof (relation "measure snd")
  fix base n :: nat
  assume "2 \<le> base \<and> n div base \<noteq> 0"
  then show "((base, n div base), base, n) \<in> measure snd" by (cases "n = 0") auto
qed simp

declare digs.simps [simp del]

primrec digits_value :: "nat \<Rightarrow> nat list \<Rightarrow> nat" where
  "digits_value base [] = 0"
| "digits_value base (d # ds) = digits_value base ds * base + d"

lemma digs_value: "2 \<le> base \<Longrightarrow> digits_value base (digs base n) = n"
proof (induction base n rule: digs.induct)
  case (1 base n)
  moreover have "n mod base = n" if "n div base = 0" using that by (metis div_mult_mod_eq mult_0 add_0)
  ultimately show ?case by (subst digs.simps) (simp add: mult.commute)
qed

lemma digs_range: "2 \<le> base \<Longrightarrow> d \<in> set (digs base n) \<Longrightarrow> d < base"
proof (induction base n rule: digs.induct)
  case (1 base n)
  from 1(3) show ?case
    by (subst (asm) digs.simps) (use 1 in \<open>auto split: if_splits\<close>)
qed

lemma digs_length: "2 \<le> base \<Longrightarrow> n < base ^ Suc k \<Longrightarrow> length (digs base n) \<le> Suc k"
proof (induction k arbitrary: n)
  case 0
  then show ?case by (subst digs.simps) simp
next
  case (Suc k)
  have "n div base < base ^ Suc k" using Suc.prems by (simp add: div_less_iff_less_mult mult.commute)
  then show ?case using Suc.IH[of "n div base"] Suc.prems(1) by (subst digs.simps) simp
qed

lemma digit_loop_digs:
  assumes "2 \<le> unat base" "length buf + length (digs (unat base) (unat x)) \<le> PBUF"
  shows "digit_loop digits base x buf = Some (buf @ map ((!) digits) (digs (unat base) (unat x)))"
  using assms
proof (induction digits base x buf rule: digit_loop.induct)
  case (1 digits base x buf)
  have u: "unat (x mod base) = unat x mod unat base" "unat (x div base) = unat x div unat base"
    by (simp_all add: unat_mod unat_div)
  have z: "x div base \<noteq> 0 \<longleftrightarrow> unat x div unat base \<noteq> 0" by (metis u(2) unat_eq_zero)
  have s: "store_digit (digits ! unat (x mod base)) buf = Some (buf @ [digits ! unat (x mod base)])"
    using 1(3) by (subst (asm) digs.simps) (auto simp: store_digit_def split: if_splits)
  show ?case
  proof (cases "x div base \<noteq> 0")
    case True
    then have d: "digs (unat base) (unat x) = unat x mod unat base # digs (unat base) (unat (x div base))"
      using 1(2) z u by (subst digs.simps) simp
    have "digit_loop digits base (x div base) (buf @ [digits ! unat (x mod base)]) =
        Some ((buf @ [digits ! unat (x mod base)]) @ map ((!) digits) (digs (unat base) (unat (x div base))))"
      by (rule 1(1)[OF s True 1(2)]) (use 1(3) d in simp)
    then show ?thesis using True d s u(1) by (subst digit_loop.simps) simp
  next
    case False
    then have "digs (unat base) (unat x) = [unat x mod unat base]" using z by (subst digs.simps) simp
    then show ?thesis using False by (subst digit_loop.simps) (simp add: s[unfolded u(1)] u(1))
  qed
qed

text \<open>A number of 32 bits has at most ten decimal and at most eight hexadecimal digits.\<close>

lemma digs_fit: "length (digs 10 (unat (x :: uint))) \<le> 10" "length (digs 16 (unat (x :: uint))) \<le> 8"
proof -
  have "unat x < 10 ^ Suc 9" "unat x < 16 ^ Suc 7" using unat_lt32[of x] by simp_all
  then show "length (digs 10 (unat x)) \<le> 10" "length (digs 16 (unat x)) \<le> 8"
    using digs_length[of 10 "unat x" 9] digs_length[of 16 "unat x" 7] by simp_all
qed

lemma DIGITS_nth: "d < 10 \<Longrightarrow> DIGITS ! d = 48 + of_nat d"
proof -
  have "\<forall>d\<in>set [0..<10]. DIGITS ! d = 48 + of_nat d" by code_simp
  then show "d < 10 \<Longrightarrow> DIGITS ! d = 48 + of_nat d" by simp
qed

section \<open>Printing and reading back\<close>

lemma atoi_digits:
  "\<forall>d\<in>set ds. d < 10 \<Longrightarrow>
   atoi_from (cview (a @ map (\<lambda>d. 48 + of_nat d) ds)) (length a) n = Some (foldl (\<lambda>n d. n * 10 + of_nat d) n ds)"
proof (induction ds arbitrary: a n)
  case Nil
  then show ?case by (subst atoi_from.simps) (simp add: cview_def)
next
  case (Cons d ds)
  let ?c = "48 + of_nat d :: uchar"
  have u: "unat (of_nat d :: uchar) = d" using Cons.prems by (simp add: unsigned_of_nat take_bit_eq_mod)
  then have c: "unat ?c = 48 + d" using Cons.prems by (simp add: unat_word_ariths)
  then have r: "48 \<le> ?c" "?c \<le> 57" using Cons.prems by (simp_all add: word_le_nat_alt)
  have "ucast ?c = (of_nat (unat ?c) :: uint)" by (simp add: unsigned_ucast_eq)
  then have v: "n * 10 + ucast ?c - 48 = n * 10 + of_nat d" using c by simp
  let ?p = "cview (a @ map (\<lambda>d. 48 + of_nat d) (d # ds))"
  have p: "?p (length a) = ?c" by (simp add: cview_def nth_append)
  have "atoi_from ?p (length a) n = atoi_from ?p (Suc (length a)) (n * 10 + of_nat d)"
    unfolding v[symmetric] by (subst atoi_from.simps) (simp only: p r simp_thms if_True)
  then show ?case using Cons.IH[of "a @ [?c]" "n * 10 + of_nat d"] Cons.prems by simp
qed

lemma foldl_digits: "foldl (\<lambda>n d. n * 10 + of_nat d) 0 (rev ds) = (of_nat (digits_value 10 ds) :: uint)"
  by (induction ds) simp_all

lemma printint_decimal:
  "printint xx 10 sign = Some ((if sign \<and> sint xx < 0 then [45] else []) @
     map (\<lambda>d. 48 + of_nat d) (rev (digs 10 (unat (if sign \<and> sint xx < 0 then - xx else xx)))))"
proof -
  let ?x = "if sign \<and> sint xx < 0 then - xx else xx"
  have "digit_loop DIGITS 10 ?x [] = Some (map ((!) DIGITS) (digs 10 (unat ?x)))"
    using digit_loop_digs[of 10 "[]" ?x DIGITS] digs_fit(1)[of ?x] by (simp add: PBUF_def)
  moreover have "map ((!) DIGITS) (digs 10 (unat ?x)) = map (\<lambda>d. 48 + of_nat d) (digs 10 (unat ?x))"
    by (rule map_cong[OF refl], rule DIGITS_nth, erule digs_range[rotated]) simp
  ultimately show ?thesis
    using digs_fit(1)[of "- xx"] by (simp add: printint_def store_digit_def PBUF_def rev_map Let_def)
qed

lemma printint_hex: "printint xx 16 False = Some (map ((!) DIGITS) (rev (digs 16 (unat xx))))"
  using digit_loop_digs[of 16 "[]" xx DIGITS] digs_fit(2)[of xx] by (simp add: printint_def PBUF_def rev_map)

text \<open>C35: \<open>printint\<close> never writes behind its buffer of sixteen bytes, whatever the number, in either base; with base 10 it prints an
  optional minus sign and digits that \<open>atoi\<close> reads back as the magnitude of the number.\<close>

theorem printint_atoi:
  "(\<exists>s. printint xx 10 sign = Some ((if sign \<and> sint xx < 0 then [45] else []) @ s) \<and> length s \<le> 10 \<and>
     atoi (cview s) = Some (if sign \<and> sint xx < 0 then - xx else xx)) \<and>
   (\<exists>t. printint xx 16 False = Some t \<and> length t \<le> 8)"
proof -
  let ?x = "if sign \<and> sint xx < 0 then - xx else xx"
  let ?ds = "digs 10 (unat ?x)" and ?s = "map (\<lambda>d. 48 + of_nat d) (rev (digs 10 (unat ?x))) :: uchar list"
  have "atoi (cview ?s) = Some (foldl (\<lambda>n d. n * 10 + of_nat d) 0 (rev ?ds))"
    using atoi_digits[of "rev ?ds" "[]" 0] digs_range[of 10 _ "unat ?x"] by (simp add: atoi_def)
  also have "\<dots> = Some ?x" unfolding foldl_digits by (simp add: digs_value)
  finally show ?thesis
    using printint_decimal[of xx sign] printint_hex[of xx] digs_fit(1)[of ?x] digs_fit(2)[of xx]
    by (intro conjI exI[of _ ?s] exI[of _ "map ((!) DIGITS) (rev (digs 16 (unat xx)))"]) simp_all
qed

end
