(* ===== verification/Console.thy ===== *)
theory Console
  imports Ring Printf
begin

text \<open>
  The console (\<^verbatim>\<open>console.c\<close>): the screen, \<open>cprintf\<close>, the line editor that the keyboard interrupt runs, and reading and
  writing the console. \<open>uartputc\<close> (\<^verbatim>\<open>uart.c\<close>) is what leaves the serial port.

  \<open>crt\<close> is the memory from the start of the screen on, in words of 16 bits, and \<open>cursor\<close> the position the video controller
  keeps. The console locks make each call one step; \<open>consoleread\<close> gives up the input lock only in \<open>sleep\<close>, so that a call
  is a sequence of runs that each end in a return or in \<open>sleep\<close>. \<open>woken\<close> counts the calls of \<open>wakeup(&input.r)\<close>.
  The process listing that a control character asks for is an argument of \<open>consoleintr\<close>.
\<close>

section \<open>State\<close>

definition INPUT_BUF :: nat where
  "INPUT_BUF = 128"

record console =
  panicked :: bool
  locking :: bool
  uart :: bool
  uart_out :: "uchar list"
  crt :: "nat \<Rightarrow> ushort"
  cursor :: ushort
  in_buf :: bytes
  in_r :: uint
  in_w :: uint
  in_e :: uint
  woken :: nat

abbreviation (input) BACKSPACE :: int where "BACKSPACE \<equiv> 256"
abbreviation (input) NL :: uchar where "NL \<equiv> 10"
abbreviation (input) EOT :: uchar where "EOT \<equiv> 4"

section \<open>Output\<close>

definition uartputc :: "int \<Rightarrow> ('a console_scheme, unit) prog" where
  "uartputc c = kmod (\<lambda>s. if uart s then s\<lparr>uart_out := uart_out s @ [word_of_int c]\<rparr> else s)"

definition crt_scroll :: "(nat \<Rightarrow> ushort) \<Rightarrow> nat \<Rightarrow> nat \<Rightarrow> ushort" where
  \<comment> \<open>the \<open>memmove\<close> and, with the new position, the \<open>memset\<close>\<close>
  "crt_scroll m pos = (\<lambda>i. if pos \<le> i \<and> i < 24 * 80 then 0 else if i < 23 * 80 then m (i + 80) else m i)"

definition cgaputc :: "int \<Rightarrow> ('a console_scheme, unit) prog" where
  "cgaputc c = (\<lambda>s.
     let pos = unat (cursor s);
         (m, pos) = (if c = 10 then (crt s, pos + (80 - pos mod 80))
                     else if c = BACKSPACE then (crt s, if pos > 0 then pos - 1 else pos)
                     else ((crt s)(pos := ucast (word_of_int c :: uchar) OR 0x0700), pos + 1)) in
     if pos div 80 \<ge> 24 then
       if 24 * 80 < pos - 80 then Panic ''trap''
       else let pos = pos - 80 in Ret ((), s\<lparr>crt := (crt_scroll m pos)(pos := 0x0720), cursor := of_nat pos\<rparr>)
     else Ret ((), s\<lparr>crt := m(pos := 0x0720), cursor := of_nat pos\<rparr>))"

definition consputc :: "int \<Rightarrow> ('a console_scheme, unit) prog" where
  "consputc c = kbind (kget panicked) (\<lambda>p. if p then kdiverge else
     kbind (if c = BACKSPACE then kbind (uartputc 8) (\<lambda>_. kbind (uartputc 32) (\<lambda>_. uartputc 8)) else uartputc c) (\<lambda>_.
     cgaputc c))"

primrec consputs :: "int list \<Rightarrow> ('a console_scheme, unit) prog" where
  "consputs [] = kret ()"
| "consputs (c # cs) = kbind (consputc c) (\<lambda>_. consputs cs)"

definition CDIGITS :: "uchar list" where
  "CDIGITS = map (\<lambda>c. word_of_nat (of_char c)) ''0123456789abcdef''"

definition cprintint :: "uint \<Rightarrow> uint \<Rightarrow> bool \<Rightarrow> ('a console_scheme, unit) prog" where
  "cprintint xx base sign =
     (let neg = (sign \<and> sint xx < 0); x = (if neg then - xx else xx) in
      case Option.bind (digit_loop CDIGITS base x []) (\<lambda>buf. if neg then store_digit 45 buf else Some buf) of
        None \<Rightarrow> kpanic ''trap''
      | Some buf \<Rightarrow> consputs (map uint (rev buf)))"

definition cprints :: "bytes \<Rightarrow> uint \<Rightarrow> ('a console_scheme, unit) prog" where
  \<comment> \<open>the loop of \<open>%s\<close>; a \<open>char\<close> is signed\<close>
  "cprints mem s = (if s = 0 then consputs (map sint NULL_NAME)
     else case string_at mem (unat s) of None \<Rightarrow> kdiverge | Some cs \<Rightarrow> consputs (map sint cs))"

fun cprintf_from :: "bytes \<Rightarrow> uchar list \<Rightarrow> (nat \<Rightarrow> uint) \<Rightarrow> nat \<Rightarrow> ('a console_scheme, unit) prog" where
  "cprintf_from mem [] args argp = kret ()"
| "cprintf_from mem [c] args argp = (if c \<noteq> 37 then consputc (uint c) else kret ())"
| "cprintf_from mem (c # d # fmt) args argp =
     (if c \<noteq> 37 then kbind (consputc (uint c)) (\<lambda>_. cprintf_from mem (d # fmt) args argp)
      else if d = 100 then kbind (cprintint (args argp) 10 True) (\<lambda>_. cprintf_from mem fmt args (Suc argp))
      else if d = 120 \<or> d = 112 then kbind (cprintint (args argp) 16 False) (\<lambda>_. cprintf_from mem fmt args (Suc argp))
      else if d = 115 then kbind (cprints mem (args argp)) (\<lambda>_. cprintf_from mem fmt args (Suc argp))
      else if d = 37 then kbind (consputc 37) (\<lambda>_. cprintf_from mem fmt args argp)
      else kbind (consputc 37) (\<lambda>_. kbind (consputc (uint d)) (\<lambda>_. cprintf_from mem fmt args argp)))"

definition cprintf :: "bytes \<Rightarrow> uchar list option \<Rightarrow> (nat \<Rightarrow> uint) \<Rightarrow> ('a console_scheme, unit) prog" where
  \<comment> \<open>\<open>None\<close> is the null pointer\<close>
  "cprintf mem fmt args = (case fmt of None \<Rightarrow> kpanic ''null fmt'' | Some f \<Rightarrow> cprintf_from mem f args 0)"

definition consolewrite :: "uchar list \<Rightarrow> ('a console_scheme, int) prog" where
  "consolewrite buf = kbind (consputs (map uint buf)) (\<lambda>_. kret (int (length buf)))"

section \<open>Input\<close>

definition in_put :: "uchar \<Rightarrow> 'a console_scheme \<Rightarrow> 'a console_scheme" where
  \<comment> \<open>\<open>input.buf[input.e++ % INPUT_BUF] = c\<close>\<close>
  "in_put c s = s\<lparr>in_buf := (in_buf s)(unat (in_e s) mod INPUT_BUF := c), in_e := in_e s + 1\<rparr>"

definition in_get :: "'a console_scheme \<Rightarrow> uchar \<times> 'a console_scheme" where
  \<comment> \<open>\<open>input.buf[input.r++ % INPUT_BUF]\<close>\<close>
  "in_get s = (in_buf s (unat (in_r s) mod INPUT_BUF), s\<lparr>in_r := in_r s + 1\<rparr>)"

definition in_full :: "'a console_scheme \<Rightarrow> bool" where
  "in_full s \<longleftrightarrow> \<not> in_e s - in_r s < of_nat INPUT_BUF"

definition in_commit :: "'a console_scheme \<Rightarrow> 'a console_scheme" where
  \<comment> \<open>\<open>input.w = input.e; wakeup(&input.r)\<close>\<close>
  "in_commit s = s\<lparr>in_w := in_e s, woken := Suc (woken s)\<rparr>"

definition erase :: "('a console_scheme, unit) prog" where
  "erase = kbind (kmod (\<lambda>s. s\<lparr>in_e := in_e s - 1\<rparr>)) (\<lambda>_. consputc BACKSPACE)"

text \<open>The loop that kills a line takes at most \<open>input.e - input.w\<close> rounds.\<close>

primrec kill_line :: "nat \<Rightarrow> ('a console_scheme, unit) prog" where
  "kill_line 0 = kret ()"
| "kill_line (Suc n) = kbind (kget (\<lambda>s. in_e s \<noteq> in_w s \<and> in_buf s (unat (in_e s - 1) mod INPUT_BUF) \<noteq> NL)) (\<lambda>b.
     if b then kbind erase (\<lambda>_. kill_line n) else kret ())"

definition force_char :: "uchar \<Rightarrow> ('a console_scheme, unit) prog" where
  \<comment> \<open>the cases \<open>'C'\<close> and \<open>'Q'\<close>\<close>
  "force_char c = kmod (\<lambda>s. in_commit (in_put c (s\<lparr>in_w := in_e s\<rparr>)))"

definition consolekey :: "('a console_scheme, unit) prog \<Rightarrow> int \<Rightarrow> ('a console_scheme, unit) prog" where
  \<comment> \<open>the \<open>switch\<close> of \<open>consoleintr\<close>\<close>
  "consolekey procdump c =
     (if c = 16 then procdump
      else if c = 21 then kbind (kget (\<lambda>s. unat (in_e s - in_w s))) kill_line
      else if c = 8 \<or> c = 127 then kbind (kget (\<lambda>s. in_e s \<noteq> in_w s)) (\<lambda>b. kwhen b erase)
      else if c = 67 then force_char 99
      else if c = 81 then force_char 113
      else kbind (kget in_full) (\<lambda>full. kwhen (c \<noteq> 0 \<and> \<not> full)
        (let c = (if c = 13 then 10 else c) in
         kbind (kmod (in_put (word_of_int c))) (\<lambda>_.
         kbind (consputc c) (\<lambda>_.
         kbind (kget (\<lambda>s. c = 10 \<or> c = 4 \<or> in_e s = in_r s + of_nat INPUT_BUF)) (\<lambda>b. kwhen b (kmod in_commit)))))))"

primrec consoleintr :: "('a console_scheme, unit) prog \<Rightarrow> int list \<Rightarrow> ('a console_scheme, unit) prog" where
  \<comment> \<open>the results of \<open>getc\<close> up to the first negative one\<close>
  "consoleintr procdump [] = kret ()"
| "consoleintr procdump (c # cs) = kbind (consolekey procdump c) (\<lambda>_. consoleintr procdump cs)"

datatype cread = Read_ret int "uchar list" | Read_sleep nat "uchar list"

text \<open>\<open>consoleread_run killed target n got\<close>: the loop with \<open>n\<close> bytes to go and \<open>got\<close> stored at the destination.\<close>

fun consoleread_run :: "bool \<Rightarrow> nat \<Rightarrow> nat \<Rightarrow> uchar list \<Rightarrow> 'a console_scheme \<Rightarrow> cread \<times> 'a console_scheme" where
  "consoleread_run killed target 0 got s = (Read_ret (int target) got, s)"
| "consoleread_run killed target (Suc n) got s =
     (if in_r s = in_w s then (if killed then Read_ret (-1) got else Read_sleep (Suc n) got, s)
      else let (c, s) = in_get s in
        if c = EOT then (Read_ret (int target - int (Suc n)) got, if Suc n < target then s\<lparr>in_r := in_r s - 1\<rparr> else s)
        else if c = NL then (Read_ret (int target - int n) (got @ [c]), s)
        else consoleread_run killed target n (got @ [c]) s)"

definition consoleread :: "bool \<Rightarrow> int \<Rightarrow> 'a console_scheme \<Rightarrow> cread \<times> 'a console_scheme" where
  \<comment> \<open>the first run of a call\<close>
  "consoleread killed n = consoleread_run killed (nat n) (nat n) []"

section \<open>The screen\<close>

definition screen_ok :: "'a console_scheme \<Rightarrow> bool" where
  "screen_ok s \<longleftrightarrow> unat (cursor s) < 24 * 80 \<and> \<not> panicked s"

definition drawn :: "'a console_scheme \<Rightarrow> 'a console_scheme \<Rightarrow> bool" where
  \<comment> \<open>only the 24 lines, the cursor and the serial port differ\<close>
  "drawn s t \<longleftrightarrow> (\<exists>u m p. t = s\<lparr>uart_out := u, crt := m, cursor := p\<rparr> \<and> (\<forall>i\<ge>24 * 80. m i = crt s i))"

lemma drawn_refl [simp]: "drawn s s"
  unfolding drawn_def by (rule exI[of _ "uart_out s"], rule exI[of _ "crt s"], rule exI[of _ "cursor s"]) simp

lemma drawn_trans: "drawn s t \<Longrightarrow> drawn t u \<Longrightarrow> drawn s u"
  unfolding drawn_def by fastforce

lemma drawnD:
  assumes "drawn s t"
  shows "in_buf t = in_buf s" "in_r t = in_r s" "in_w t = in_w s" "in_e t = in_e s" "woken t = woken s"
    "panicked t = panicked s" "\<And>i. 24 * 80 \<le> i \<Longrightarrow> crt t i = crt s i"
  using assms by (auto simp: drawn_def)

lemma drawnI: "(\<And>i. 24 * 80 \<le> i \<Longrightarrow> m i = crt s i) \<Longrightarrow> drawn s (s\<lparr>crt := m, cursor := p\<rparr>)"
  unfolding drawn_def by (rule exI[of _ "uart_out s"], rule exI[of _ m], rule exI[of _ p]) simp

lemma drawn_uart [simp]: "drawn s (s\<lparr>uart_out := u\<rparr>)"
  unfolding drawn_def by (rule exI[of _ u], rule exI[of _ "crt s"], rule exI[of _ "cursor s"]) simp

lemma wp_uartputc: "screen_ok s \<Longrightarrow> wp (uartputc c) (\<lambda>_ t. drawn s t \<and> screen_ok t) s"
  by (simp add: uartputc_def wp_kmod screen_ok_def)

lemma unat_of_nat16: "n < 65536 \<Longrightarrow> unat (of_nat n :: ushort) = n"
  by (simp add: unsigned_of_nat take_bit_eq_mod)

lemma next_row: "q * 80 + r = p \<Longrightarrow> r < 80 \<Longrightarrow> p + (80 - r) = 80 * (q + 1)" for p q r :: nat
  by arith

lemma wp_cgaputc:
  assumes "screen_ok s"
  shows "wp (cgaputc c) (\<lambda>_ t. drawn s t \<and> screen_ok t) s"
proof -
  let ?p = "unat (cursor s)"
  have p: "?p < 1920" "\<not> panicked s" using assms by (auto simp: screen_ok_def)
  let ?r = "if c = 10 then (crt s, ?p + (80 - ?p mod 80)) else if c = BACKSPACE then (crt s, if ?p > 0 then ?p - 1 else ?p)
      else ((crt s)(?p := ucast (word_of_int c :: uchar) OR 0x0700), ?p + 1)"
  obtain m pos where r: "?r = (m, pos)" by force
  have "?p + (80 - ?p mod 80) = 80 * (?p div 80 + 1)" by (rule next_row) simp_all
  moreover have "?p div 80 < 24" using p(1) by (simp add: div_less_iff_less_mult)
  ultimately have "?p + (80 - ?p mod 80) \<le> 1920" by simp
  then have pos: "pos \<le> 1920" and m: "\<And>i. 1920 \<le> i \<Longrightarrow> m i = crt s i" using r p(1) by (auto split: if_splits)
  show ?thesis
  proof (cases "24 \<le> pos div 80")
    case True
    then have "pos = 1920" using pos by simp
    then show ?thesis using m p(2)
      by (auto simp: wp_def cgaputc_def Let_def r screen_ok_def crt_scroll_def unat_of_nat16 intro!: drawnI)
  next
    case False
    then have "pos < 1920" using pos by (cases "pos = 1920") auto
    then show ?thesis using m p(2) False
      by (auto simp: wp_def cgaputc_def Let_def r screen_ok_def unat_of_nat16 intro!: drawnI)
  qed
qed

text \<open>Both devices keep \<open>drawn\<close> and \<open>screen_ok\<close>; sequences of such programs do.\<close>

lemma draws_seq:
  assumes "\<And>s. screen_ok s \<Longrightarrow> wp m (\<lambda>_ t. drawn s t \<and> screen_ok t) s"
    and "\<And>s x. screen_ok s \<Longrightarrow> wp (f x) (\<lambda>_ t. drawn s t \<and> screen_ok t) s"
    and "screen_ok s"
  shows "wp (kbind m f) (\<lambda>_ t. drawn s t \<and> screen_ok t) s"
  unfolding wp_kbind
  by (rule wp_mono[OF assms(1)[OF assms(3)]]) (auto elim!: wp_mono[OF assms(2)] intro: drawn_trans)

lemma wp_consputc:
  assumes "screen_ok s"
  shows "wp (consputc c) (\<lambda>_ t. drawn s t \<and> screen_ok t) s"
proof -
  have "\<not> panicked s" using assms by (simp add: screen_ok_def)
  then have e: "wp (consputc c) Q s = wp (kbind (if c = BACKSPACE then kbind (uartputc 8) (\<lambda>_. kbind (uartputc 32) (\<lambda>_. uartputc 8))
      else uartputc c) (\<lambda>_. cgaputc c)) Q s" for Q
    unfolding consputc_def by (simp add: wp_def kbind_def kget_def)
  show ?thesis unfolding e
    by (rule draws_seq[OF _ wp_cgaputc assms]) (auto intro!: draws_seq wp_uartputc)
qed

lemma wp_consputs: "screen_ok s \<Longrightarrow> wp (consputs cs) (\<lambda>_ t. drawn s t \<and> screen_ok t) s"
  by (induction cs arbitrary: s) (auto simp: wp_kret intro!: draws_seq wp_consputc)

section \<open>The input buffer is a queue\<close>

definition in_queue :: "'a console_scheme \<Rightarrow> uchar list" where
  \<comment> \<open>what has been typed and not been read\<close>
  "in_queue s = ring_queue INPUT_BUF (in_buf s) (in_r s) (in_e s)"

definition in_ok :: "'a console_scheme \<Rightarrow> bool" where
  "in_ok s \<longleftrightarrow> unat (in_e s - in_r s) \<le> INPUT_BUF"

definition in_empty :: "'a console_scheme \<Rightarrow> bool" where
  "in_empty s \<longleftrightarrow> in_r s = in_e s"

lemma INPUT_BUF_ring: "INPUT_BUF dvd 2 ^ 32" "INPUT_BUF < 2 ^ 32"
proof -
  have "(2 :: nat) ^ 32 = 128 * 33554432" by simp
  then show "INPUT_BUF dvd 2 ^ 32" unfolding INPUT_BUF_def by (metis dvd_triv_left)
qed (simp add: INPUT_BUF_def)

lemma in_full_iff: "in_full s \<longleftrightarrow> INPUT_BUF \<le> length (in_queue s)"
  by (simp add: in_full_def in_queue_def ring_length word_less_nat_alt unat_of_nat32[OF INPUT_BUF_ring(2)] not_less)

interpretation cq: fifo in_ok in_queue INPUT_BUF in_full in_empty in_put in_get
proof
  fix s :: "'a console_scheme" and c
  assume ok: "in_ok s"
  then have l: "length (in_queue s) \<le> INPUT_BUF" by (simp add: in_ok_def in_queue_def ring_length)
  then show "length (in_queue s) \<le> INPUT_BUF" .
  show "in_full s \<longleftrightarrow> length (in_queue s) = INPUT_BUF" using l by (auto simp: in_full_iff)
  show "in_empty s \<longleftrightarrow> in_queue s = []" by (auto simp: in_empty_def in_queue_def ring_empty)
  show "in_ok (in_put c s) \<and> in_queue (in_put c s) = in_queue s @ [c]" if "\<not> in_full s"
  proof -
    have "unat (in_e s - in_r s) < INPUT_BUF" using that by (simp add: in_full_iff in_queue_def ring_length)
    then have q: "in_queue (in_put c s) = in_queue s @ [c]"
      unfolding in_queue_def in_put_def by (simp add: ring_put[OF INPUT_BUF_ring])
    then have "length (in_queue (in_put c s)) = Suc (length (in_queue s))" by simp
    then have "unat (in_e (in_put c s) - in_r (in_put c s)) = Suc (unat (in_e s - in_r s))"
      by (simp add: in_queue_def ring_length)
    then show ?thesis using q \<open>unat (in_e s - in_r s) < INPUT_BUF\<close> by (simp add: in_ok_def)
  qed
  show "in_ok (snd (in_get s)) \<and> in_queue s = fst (in_get s) # in_queue (snd (in_get s))" if "\<not> in_empty s"
  proof -
    have q: "in_queue s = fst (in_get s) # in_queue (snd (in_get s))"
      using that ring_get[of "in_e s" "in_r s"] by (simp add: in_empty_def in_get_def in_queue_def)
    then have "length (in_queue s) = Suc (length (in_queue (snd (in_get s))))" by simp
    then show ?thesis using q l by (simp add: in_ok_def in_queue_def ring_length)
  qed
qed

section \<open>The line editor\<close>

definition committed :: "'a console_scheme \<Rightarrow> uchar list" where
  \<comment> \<open>what a reader can have\<close>
  "committed s = take (unat (in_w s - in_r s)) (in_queue s)"

definition line :: "'a console_scheme \<Rightarrow> uchar list" where
  \<comment> \<open>what can still be edited\<close>
  "line s = drop (unat (in_w s - in_r s)) (in_queue s)"

definition in_inv :: "'a console_scheme \<Rightarrow> bool" where
  "in_inv s \<longleftrightarrow> in_ok s \<and> unat (in_w s - in_r s) \<le> length (in_queue s)"

fun edit_key :: "int \<Rightarrow> uchar list \<times> uchar list \<Rightarrow> uchar list \<times> uchar list" where
  \<comment> \<open>the specification: a key acts on the committed input and on the current line\<close>
  "edit_key c (q, l) =
     (if c = 0 \<or> c = 16 then (q, l)
      else if c = 21 then (q, [])
      else if c = 8 \<or> c = 127 then (q, butlast l)
      else if length q + length l < 128 then
        (let c = (if c = 13 then 10 else c); l = l @ [word_of_int c] in
         if c = 10 \<or> c = 4 \<or> length q + length l = 128 then (q @ l, []) else (q, l))
      else (q, l))"

lemma queue_split: "in_queue s = committed s @ line s"
  by (simp add: committed_def line_def)

lemma in_inv_lengths:
  assumes "in_inv s"
  shows "length (committed s) = unat (in_w s - in_r s)" "length (committed s) + length (line s) = unat (in_e s - in_r s)"
    "length (committed s) + length (line s) \<le> 128"
  using assms by (auto simp: in_inv_def committed_def line_def in_ok_def in_queue_def ring_length INPUT_BUF_def)

lemma line_empty: "in_inv s \<Longrightarrow> line s = [] \<longleftrightarrow> in_e s = in_w s"
proof
  assume i: "in_inv s"
  note l = in_inv_lengths[OF i]
  show "line s = []" if "in_e s = in_w s" using l that by simp
  assume "line s = []"
  then have "unat (in_w s - in_r s) = unat (in_e s - in_r s)" using l by simp
  then have "in_w s - in_r s = in_e s - in_r s" by (simp add: word_unat_eq_iff)
  then show "in_e s = in_w s" by simp
qed

lemma drawn_input:
  assumes "drawn s t"
  shows "committed t = committed s" "line t = line s" "in_inv t = in_inv s"
  using drawnD[OF assms] by (simp_all add: committed_def line_def in_inv_def in_queue_def in_ok_def)

lemma edit_back:
  assumes "in_inv s" "line s \<noteq> []"
  shows "in_inv (s\<lparr>in_e := in_e s - 1\<rparr>)" "committed (s\<lparr>in_e := in_e s - 1\<rparr>) = committed s"
    "line s = line (s\<lparr>in_e := in_e s - 1\<rparr>) @ [in_buf s (unat (in_e s - 1) mod INPUT_BUF)]"
proof -
  let ?t = "s\<lparr>in_e := in_e s - 1\<rparr>" and ?k = "unat (in_w s - in_r s)"
  have "in_e s \<noteq> in_r s" using assms in_inv_lengths[OF assms(1)] by (auto simp: line_def in_queue_def ring_length)
  then have q: "in_queue s = in_queue ?t @ [in_buf s (unat (in_e s - 1) mod INPUT_BUF)]"
    unfolding in_queue_def by (simp add: ring_snoc)
  then have n: "length (in_queue s) = Suc (length (in_queue ?t))" by simp
  have k: "?k \<le> length (in_queue ?t)" using assms(2) n by (simp add: line_def)
  show "in_inv ?t" using assms(1) n k by (simp add: in_inv_def in_ok_def in_queue_def ring_length)
  show "committed ?t = committed s" using k q by (simp add: committed_def)
  show "line s = line ?t @ [in_buf s (unat (in_e s - 1) mod INPUT_BUF)]" using k by (simp add: line_def q)
qed

lemma edit_put:
  assumes "in_inv s" "\<not> in_full s"
  shows "in_inv (in_put c s)" "committed (in_put c s) = committed s" "line (in_put c s) = line s @ [c]"
proof -
  have p: "in_ok (in_put c s)" "in_queue (in_put c s) = in_queue s @ [c]" using assms cq.put_law[of s c] by (auto simp: in_inv_def)
  have k: "unat (in_w s - in_r s) \<le> length (in_queue s)" "in_w (in_put c s) = in_w s" "in_r (in_put c s) = in_r s"
    using assms(1) by (auto simp: in_inv_def in_put_def)
  show "in_inv (in_put c s)" "committed (in_put c s) = committed s" "line (in_put c s) = line s @ [c]"
    using p k by (simp_all add: in_inv_def committed_def line_def)
qed

lemma edit_commit:
  assumes "in_inv s"
  shows "in_inv (in_commit s)" "committed (in_commit s) = committed s @ line s" "line (in_commit s) = []"
proof -
  have q: "in_queue (in_commit s) = in_queue s" "in_ok (in_commit s) = in_ok s" by (simp_all add: in_commit_def in_queue_def in_ok_def)
  have "unat (in_w (in_commit s) - in_r (in_commit s)) = length (in_queue s)" by (simp add: in_commit_def in_queue_def ring_length)
  then show "in_inv (in_commit s)" "committed (in_commit s) = committed s @ line s" "line (in_commit s) = []"
    using assms q unfolding queue_split[symmetric] by (simp_all add: in_inv_def committed_def[of "in_commit s"] line_def[of "in_commit s"])
qed

lemma wp_erase:
  assumes "in_inv s" "screen_ok s" "line s \<noteq> []"
  shows "wp erase (\<lambda>_ t. in_inv t \<and> screen_ok t \<and> committed t = committed s \<and> line t = butlast (line s)) s"
proof -
  let ?t = "s\<lparr>in_e := in_e s - 1\<rparr>"
  have "screen_ok ?t" using assms(2) by (simp add: screen_ok_def)
  note w = wp_consputc[OF this, of BACKSPACE]
  have "line ?t = butlast (line s)" using edit_back(3)[OF assms(1,3)] by simp
  then show ?thesis unfolding erase_def wp_kbind wp_kmod
    by (rule_tac wp_mono[OF w]) (use edit_back(1,2)[OF assms(1,3)] in \<open>auto simp: drawn_input\<close>)
qed

lemma wp_kill_line:
  assumes "in_inv s" "screen_ok s" "NL \<notin> set (line s)" "length (line s) = n"
  shows "wp (kill_line n) (\<lambda>_ t. in_inv t \<and> screen_ok t \<and> committed t = committed s \<and> line t = []) s"
  using assms
proof (induction n arbitrary: s)
  case 0
  then show ?case by (simp add: wp_kret)
next
  case (Suc n)
  then have l: "line s \<noteq> []" by auto
  then have e: "in_e s \<noteq> in_w s" using line_empty[OF Suc.prems(1)] by simp
  have "in_buf s (unat (in_e s - 1) mod INPUT_BUF) \<in> set (line s)" using edit_back(3)[OF Suc.prems(1) l] by (metis in_set_conv_decomp)
  then have b: "in_e s \<noteq> in_w s \<and> in_buf s (unat (in_e s - 1) mod INPUT_BUF) \<noteq> NL" using e Suc.prems(3) by metis
  show ?case unfolding kill_line.simps wp_kbind wp_kget using b
    by (simp only: simp_thms if_True wp_kbind)
      (rule wp_mono[OF wp_erase[OF Suc.prems(1,2) l]], use Suc in \<open>auto intro!: Suc.IH[THEN wp_mono] dest: in_set_butlastD\<close>)
qed

definition typed :: "'a console_scheme \<Rightarrow> uchar list \<times> uchar list" where
  "typed s = (committed s, line s)"

definition console_ok :: "'a console_scheme \<Rightarrow> bool" where
  "console_ok s \<longleftrightarrow> in_inv s \<and> screen_ok s \<and> NL \<notin> set (line s)"

definition editing_key :: "int \<Rightarrow> bool" where
  \<comment> \<open>the keys but for the process listing and the two letters that are forced into the buffer\<close>
  "editing_key c \<longleftrightarrow> 0 \<le> c \<and> c < 256 \<and> c \<notin> {16, 67, 81}"

lemma line_length:
  assumes "in_inv s"
  shows "unat (in_e s - in_w s) = length (line s)"
proof -
  note l = in_inv_lengths[OF assms]
  have e: "in_e s - in_w s = (in_e s - in_r s) - (in_w s - in_r s)" by simp
  have "in_w s - in_r s \<le> in_e s - in_r s" using l by (simp add: word_le_nat_alt)
  then have "unat ((in_e s - in_r s) - (in_w s - in_r s)) = unat (in_e s - in_r s) - unat (in_w s - in_r s)" by (rule unat_sub)
  then show ?thesis unfolding e using l by linarith
qed

lemma char_of_key: "0 \<le> c \<Longrightarrow> c < 256 \<Longrightarrow> word_of_int c = NL \<longleftrightarrow> c = 10"
proof
  assume c: "0 \<le> c" "c < 256" and "word_of_int c = NL"
  then have "uint (word_of_int c :: uchar) = 10" by simp
  then show "c = 10" using c by (simp add: uint_word_of_int)
qed simp

lemma full_lengths:
  assumes "in_inv s"
  shows "in_full s \<longleftrightarrow> length (committed s) + length (line s) = 128"
    "in_e s = in_r s + of_nat INPUT_BUF \<longleftrightarrow> length (committed s) + length (line s) = 128"
proof -
  have q: "length (in_queue s) = length (committed s) + length (line s)" by (simp add: queue_split)
  show "in_full s \<longleftrightarrow> length (committed s) + length (line s) = 128"
    using cq.full_iff[of s] assms unfolding in_inv_def q by (simp add: INPUT_BUF_def)
  have "in_e s = in_r s + of_nat INPUT_BUF \<longleftrightarrow> length (in_queue s) = INPUT_BUF"
    unfolding in_queue_def by (rule ring_full[OF INPUT_BUF_ring(2)])
  then show "in_e s = in_r s + of_nat INPUT_BUF \<longleftrightarrow> length (committed s) + length (line s) = 128"
    unfolding q by (simp add: INPUT_BUF_def)
qed

lemma wp_type_char:
  assumes "in_inv s" "screen_ok s" "\<not> in_full s"
  shows "wp (kbind (kmod (in_put (word_of_int c))) (\<lambda>_. kbind (consputc c) (\<lambda>_.
      kbind (kget (\<lambda>s. c = 10 \<or> c = 4 \<or> in_e s = in_r s + of_nat INPUT_BUF)) (\<lambda>b. kwhen b (kmod in_commit)))))
    (\<lambda>_ t. in_inv t \<and> screen_ok t \<and> typed t = (let l = line s @ [word_of_int c] in
       if c = 10 \<or> c = 4 \<or> length (committed s) + length l = 128 then (committed s @ l, []) else (committed s, l))) s"
proof -
  let ?s = "in_put (word_of_int c) s"
  have ok: "screen_ok ?s" using assms(2) by (simp add: screen_ok_def in_put_def)
  note p = edit_put[OF assms(1,3), of "word_of_int c"]
  show ?thesis unfolding wp_kbind wp_kmod
  proof (rule wp_mono[OF wp_consputc[OF ok, of c]])
    fix x :: unit and t
    assume t: "drawn ?s t \<and> screen_ok t"
    note d = drawn_input[OF conjunct1[OF t]]
    have i: "in_inv t" "committed t = committed s" "line t = line s @ [word_of_int c]" unfolding d using p by simp_all
    have sc: "screen_ok (in_commit t)" using t by (simp add: screen_ok_def in_commit_def)
    show "wp (kget (\<lambda>s. c = 10 \<or> c = 4 \<or> in_e s = in_r s + of_nat INPUT_BUF))
        (\<lambda>b. wp (kwhen b (kmod in_commit)) (\<lambda>_ t. in_inv t \<and> screen_ok t \<and> typed t = (let l = line s @ [word_of_int c] in
         if c = 10 \<or> c = 4 \<or> length (committed s) + length l = 128 then (committed s @ l, []) else (committed s, l)))) t"
      unfolding wp_kget wp_kwhen wp_kmod full_lengths(2)[OF i(1)]
      using i t sc edit_commit[OF i(1)] by (simp add: typed_def Let_def)
  qed
qed

lemma wp_consolekey:
  assumes "console_ok s" "editing_key c"
  shows "wp (consolekey pd c) (\<lambda>_ t. console_ok t \<and> typed t = edit_key c (typed s)) s"
proof -
  have a: "in_inv s" "screen_ok s" "NL \<notin> set (line s)" using assms(1) by (auto simp: console_ok_def)
  have k: "0 \<le> c" "c < 256" "c \<noteq> 16" "c \<noteq> 67" "c \<noteq> 81" using assms(2) by (auto simp: editing_key_def)
  consider (kill) "c = 21" | (bs) "c = 8 \<or> c = 127" | (char) "c \<noteq> 21" "c \<noteq> 8" "c \<noteq> 127" by blast
  then show ?thesis
  proof cases
    case kill
    show ?thesis unfolding consolekey_def wp_kbind wp_kget using kill
      by (simp add: wp_kbind wp_kget line_length[OF a(1)])
        (rule wp_mono[OF wp_kill_line[OF a refl]], auto simp: console_ok_def typed_def)
  next
    case bs
    then have e: "wp (consolekey pd c) Q s = (if line s \<noteq> [] then wp erase Q s else Q () s)" for Q
      using line_empty[OF a(1)] by (auto simp: consolekey_def wp_simps)
    show ?thesis unfolding e using bs a
      by (auto simp: console_ok_def typed_def intro!: wp_mono[OF wp_erase] dest: in_set_butlastD)
  next
    case char
    define d where "d = (if c = 13 then 10 else c)"
    have e: "consolekey pd c = kbind (kget in_full) (\<lambda>full. kwhen (c \<noteq> 0 \<and> \<not> full)
        (kbind (kmod (in_put (word_of_int d))) (\<lambda>_. kbind (consputc d) (\<lambda>_.
         kbind (kget (\<lambda>s. d = 10 \<or> d = 4 \<or> in_e s = in_r s + of_nat INPUT_BUF)) (\<lambda>b. kwhen b (kmod in_commit))))))"
      unfolding consolekey_def Let_def d_def using char k by simp
    have n: "word_of_int d = NL \<longleftrightarrow> d = 10" using char_of_key[of d] k by (simp add: d_def)
    show ?thesis
    proof (cases "c = 0 \<or> in_full s")
      case True
      then show ?thesis unfolding e wp_kbind wp_kget wp_kwhen
        using assms(1) char k full_lengths(1)[OF a(1)] by (auto simp: typed_def)
    next
      case False
      then have f: "\<not> in_full s" "length (committed s) + length (line s) < 128"
        using full_lengths(1)[OF a(1)] in_inv_lengths(3)[OF a(1)] by auto
      then have "edit_key c (typed s) = (let l = line s @ [word_of_int d] in
          if d = 10 \<or> d = 4 \<or> length (committed s) + length l = 128 then (committed s @ l, []) else (committed s, l))"
        using False char k by (simp add: typed_def d_def Let_def)
      then show ?thesis unfolding e wp_kbind[of "kget in_full"] wp_kget wp_kwhen using False
        by simp (rule wp_mono[OF wp_type_char[OF a(1,2) f(1), of d]], use a(3) n in \<open>auto simp: console_ok_def typed_def Let_def split: if_splits\<close>)
    qed
  qed
qed

lemma keys_edit:
  fixes s :: "'a console_scheme"
  assumes "console_ok s" "list_all editing_key cs"
  shows "wp (consoleintr pd cs) (\<lambda>_ t. console_ok t \<and> typed t = fold edit_key cs (typed s)) s"
  using assms
proof (induction cs arbitrary: s)
  case Nil
  then show ?case by (simp add: wp_kret)
next
  case (Cons c cs)
  have "wp (consolekey pd c) (\<lambda>_. wp (consoleintr pd cs) (\<lambda>_ t. console_ok t \<and> typed t = fold edit_key cs (edit_key c (typed s)))) s"
  proof (rule wp_mono[OF wp_consolekey[of s c]])
    fix x :: unit and t :: "'a console_scheme"
    assume t: "console_ok t \<and> typed t = edit_key c (typed s)"
    show "wp (consoleintr pd cs) (\<lambda>_ t. console_ok t \<and> typed t = fold edit_key cs (edit_key c (typed s))) t"
      using Cons.IH[of t] Cons.prems(2) t by simp
  qed (use Cons.prems in auto)
  then show ?case by (simp add: wp_kbind)
qed


section \<open>Reading what was typed\<close>

lemma read_char:
  assumes "in_inv s" "committed s = c # q"
  shows "in_r s \<noteq> in_w s" "fst (in_get s) = c" "in_inv (snd (in_get s))" "committed (snd (in_get s)) = q" "line (snd (in_get s)) = line s"
proof -
  let ?t = "snd (in_get s)"
  note l = in_inv_lengths[OF assms(1)]
  show n: "in_r s \<noteq> in_w s" using l(1) assms(2) by auto
  have ok: "in_ok s" "\<not> in_empty s" using assms l(2) by (auto simp: in_inv_def in_empty_def)
  have g: "in_ok ?t" "in_queue s = fst (in_get s) # in_queue ?t" using cq.get_law[OF ok] by auto
  have r: "in_w ?t = in_w s" "in_r ?t = in_r s + 1" by (simp_all add: in_get_def)
  have e: "in_w s - (in_r s + 1) = (in_w s - in_r s) - 1" by simp
  have k: "unat (in_w s - in_r s) = Suc (unat (in_w ?t - in_r ?t))"
    unfolding r e using n by (simp add: unat_minus_one unat_gt_0)
  show "fst (in_get s) = c" "committed ?t = q" "line ?t = line s"
    using assms(2) g(2) k by (simp_all add: committed_def line_def)
  show "in_inv ?t" using assms(1) g k by (simp add: in_inv_def)
qed

lemma consoleread_line:
  assumes "in_inv s" "committed s = l @ NL # rest" "NL \<notin> set l" "EOT \<notin> set l" "length l < n"
  shows "\<exists>t. consoleread_run killed target n got s = (Read_ret (int target - int (n - Suc (length l))) (got @ l @ [NL]), t) \<and>
    in_inv t \<and> committed t = rest \<and> line t = line s"
  using assms
proof (induction l arbitrary: n got s)
  case Nil
  then obtain m where "n = Suc m" by (cases n) auto
  then show ?case using Nil read_char[of s NL rest] by (auto simp: Let_def split: prod.splits)
next
  case (Cons c l)
  then obtain m where m: "n = Suc m" by (cases n) auto
  have "committed s = c # (l @ NL # rest)" using Cons.prems(2) by simp
  note r = read_char[OF Cons.prems(1) this]
  obtain s' where g: "in_get s = (c, s')" using r(2) by (cases "in_get s") auto
  have "c \<noteq> NL" "c \<noteq> EOT" using Cons.prems(3,4) by auto
  then have "consoleread_run killed target n got s = consoleread_run killed target m (got @ [c]) s'"
    unfolding m using r(1) g by simp
  then show ?case using Cons.IH[of s' m "got @ [c]"] Cons.prems(3-5) r(3-5) g m by simp
qed

definition ordinary :: "uchar \<Rightarrow> bool" where
  \<comment> \<open>characters with no function for the console\<close>
  "ordinary c \<longleftrightarrow> uint c \<notin> {0, 4, 8, 10, 13, 16, 21, 67, 81, 127}"

lemma uchar_less: "uint (c :: uchar) < 256"
  using unsigned_less[of c, where ?'a = int] by simp

lemma fold_ordinary:
  "list_all ordinary cs \<Longrightarrow> length q + length l + length cs < 128 \<Longrightarrow> fold edit_key (map uint cs) (q, l) = (q, l @ cs)"
  by (induction cs arbitrary: l) (auto simp: ordinary_def Let_def)



section \<open>Examples\<close>

definition idle_console :: console where
  "idle_console = \<lparr>panicked = False, locking = True, uart = False, uart_out = [], crt = (\<lambda>_. 0), cursor = 0,
     in_buf = zero_bytes, in_r = 0, in_w = 0, in_e = 0, woken = 0\<rparr>"

lemma idle_console_ok: "console_ok idle_console" "typed idle_console = ([], [])"
  by (simp_all add: idle_console_def console_ok_def in_inv_def in_ok_def screen_ok_def line_def committed_def typed_def in_queue_def ring_queue_def)




end
