(* ===== verification/Sh.thy ===== *)
theory Sh
  imports Cstring
begin

text \<open>
  The command parser of the shell (\<^verbatim>\<open>sh.c\<close>).

  The line is the list of the characters before its terminating zero, a pointer into it the index, and \<open>es\<close> its length. A
  command is a tree with the source's five types; its words are pairs of pointers (\<open>argv\<close> and \<open>eargv\<close>, \<open>file\<close> and
  \<open>efile\<close>). \<open>panic\<close>, which prints its argument and ends the process, is the result \<open>Perror\<close>. \<open>parseexec\<close> fills the
  \<open>execcmd\<close> after \<open>parseredirs\<close> has wrapped it, so it collects the arguments and the redirections and puts them together
  at the end.

  The four functions that call each other take fuel, and \<open>Pfuel\<close> says that it was not enough; the fuel \<open>parsecmd\<close> gives is
  enough for every line.
\<close>

section \<open>Commands\<close>

definition MAXARGS :: nat where
  "MAXARGS = 10"

type_synonym word_ptr = "nat \<times> nat"

datatype cmd =
    EXEC "word_ptr list"
  | REDIR cmd word_ptr nat nat
  | PIPE cmd cmd
  | LIST cmd cmd
  | BACK cmd

datatype 'a parse = Parsed 'a nat | Perror string | Pfuel

definition pbind :: "'a parse \<Rightarrow> ('a \<Rightarrow> nat \<Rightarrow> 'b parse) \<Rightarrow> 'b parse" where
  "pbind p f = (case p of Parsed x s \<Rightarrow> f x s | Perror e \<Rightarrow> Perror e | Pfuel \<Rightarrow> Pfuel)"

section \<open>Tokens\<close>

definition whitespace :: "uchar list" where
  "whitespace = [32, 9, 13, 10, 11]"

definition symbols :: "uchar list" where
  \<comment> \<open>\<open><|>&;()\<close>\<close>
  "symbols = [60, 124, 62, 38, 59, 40, 41]"

definition char_at :: "uchar list \<Rightarrow> nat \<Rightarrow> uchar" where
  "char_at line s = (if s < length line then line ! s else 0)"

function skip_while :: "(uchar \<Rightarrow> bool) \<Rightarrow> uchar list \<Rightarrow> nat \<Rightarrow> nat" where
  \<comment> \<open>\<open>while (s < es && P( *s)) s++\<close>\<close>
  "skip_while P line s = (if s < length line \<and> P (line ! s) then skip_while P line (Suc s) else s)"
  by pat_completeness auto

termination
  by (relation "measure (\<lambda>(P, line, s). length line - s)") auto

declare skip_while.simps [simp del]

definition skip_space :: "uchar list \<Rightarrow> nat \<Rightarrow> nat" where
  "skip_space = skip_while (\<lambda>c. c \<in> set whitespace)"

definition in_word :: "uchar \<Rightarrow> bool" where
  "in_word c \<longleftrightarrow> c \<notin> set whitespace \<and> c \<notin> set symbols"

definition token_at :: "uchar list \<Rightarrow> nat \<Rightarrow> uchar \<times> nat" where
  \<comment> \<open>the \<open>switch\<close> of \<open>gettoken\<close>\<close>
  "token_at line s =
     (let c = char_at line s in
      if c = 0 then (c, s)
      else if c \<in> {124, 40, 41, 59, 38, 60} then (c, Suc s)
      else if c = 62 then (if char_at line (Suc s) = 62 then (43, Suc (Suc s)) else (c, Suc s))
      else (97, skip_while in_word line s))"

definition gettoken :: "uchar list \<Rightarrow> nat \<Rightarrow> uchar \<times> word_ptr \<times> nat" where
  \<comment> \<open>the token, \<open>q\<close> and \<open>eq\<close>, and the new \<open>*ps\<close>\<close>
  "gettoken line s =
     (let q = skip_space line s; (ret, s) = token_at line q in (ret, (q, s), skip_space line s))"

definition peek :: "uchar list \<Rightarrow> nat \<Rightarrow> uchar list \<Rightarrow> bool \<times> nat" where
  "peek line s toks = (let s = skip_space line s in (char_at line s \<noteq> 0 \<and> char_at line s \<in> set toks, s))"

abbreviation (input) O_RDONLY :: nat where "O_RDONLY \<equiv> 0"
abbreviation (input) O_WRONLY_CREATE :: nat where "O_WRONLY_CREATE \<equiv> 0x201"

section \<open>Scanning moves forward\<close>

lemma skip_while_mono: "s \<le> skip_while P line s"
proof (induction P line s rule: skip_while.induct)
  case (1 P line s)
  then show ?case by (subst skip_while.simps) auto
qed

lemma skip_while_end: "s \<le> length line \<Longrightarrow> skip_while P line s \<le> length line"
proof (induction P line s rule: skip_while.induct)
  case (1 P line s)
  then show ?case by (subst skip_while.simps) auto
qed

lemma skip_while_stops: "skip_while P line s < length line \<Longrightarrow> \<not> P (line ! skip_while P line s)"
proof (induction P line s rule: skip_while.induct)
  case (1 P line s)
  then show ?case by (cases "s < length line \<and> P (line ! s)") (auto simp: skip_while.simps[of P line s])
qed

lemma skip_while_all: "s \<le> i \<Longrightarrow> i < skip_while P line s \<Longrightarrow> i < length line \<and> P (line ! i)"
proof (induction P line s rule: skip_while.induct)
  case (1 P line s)
  then show ?case by (cases "i = s") (auto simp: skip_while.simps[of P line s] split: if_splits)
qed

lemma skip_space_idem: "skip_space line (skip_space line s) = skip_space line s"
  unfolding skip_space_def using skip_while_stops by (subst skip_while.simps) auto

lemmas skip_space_mono = skip_while_mono[of _ "\<lambda>c. c \<in> set whitespace", folded skip_space_def]
lemmas skip_space_end = skip_while_end[of _ _ "\<lambda>c. c \<in> set whitespace", folded skip_space_def]

lemma char_at_0: "0 \<notin> set line \<Longrightarrow> char_at line s = 0 \<longleftrightarrow> length line \<le> s"
  unfolding char_at_def using nth_mem[of s line] by (auto simp del: nth_mem)

lemma peekD: "peek line s toks = (b, s') \<Longrightarrow> s' = skip_space line s"
  by (simp add: peek_def Let_def)

lemma peek_mono:
  assumes "peek line s toks = (b, s')"
  shows "s \<le> s'" "s \<le> length line \<Longrightarrow> s' \<le> length line" "b \<Longrightarrow> s' < length line"
  using peekD[OF assms] skip_space_mono skip_space_end assms by (auto simp: peek_def Let_def char_at_def split: if_splits)

lemma char_at_nonzero: "char_at line s \<noteq> 0 \<Longrightarrow> s < length line"
  by (auto simp: char_at_def split: if_splits)

lemma skip_space_stops: "char_at line (skip_space line s) \<notin> set whitespace"
proof (cases "skip_space line s < length line")
  case True
  then show ?thesis using skip_while_stops[of _ line s] unfolding skip_space_def by (simp add: char_at_def)
qed (simp add: char_at_def whitespace_def)

lemma token_at_cases:
  assumes "token_at line s = (tok, e)" "char_at line s \<notin> set whitespace"
  obtains (fin) "tok = 0" "e = s" "char_at line s = 0"
    | (one) "tok = char_at line s" "e = Suc s" "s < length line" "tok \<in> {124, 40, 41, 59, 38, 60, 62}"
    | (two) "tok = 43" "e = Suc (Suc s)" "Suc s < length line" "char_at line s = 62"
    | (wordtok) "tok = 97" "e = skip_while in_word line s" "s < length line" "in_word (line ! s)" "s < e"
proof (cases "char_at line s \<in> {0, 124, 40, 41, 59, 38, 60, 62}")
  case True
  then show ?thesis using assms(1) char_at_nonzero[of line s] char_at_nonzero[of line "Suc s"]
    by (auto simp: token_at_def Let_def split: if_splits intro: fin one two)
next
  case False
  then have l: "s < length line" using char_at_nonzero by auto
  then have w: "in_word (line ! s)" using assms(2) False by (auto simp: in_word_def symbols_def char_at_def)
  have "s < skip_while in_word line s"
    using l w skip_while_mono[of "Suc s" in_word line] by (subst skip_while.simps) simp
  then show ?thesis using False l w assms(1) by (intro wordtok) (auto simp: token_at_def Let_def)
qed

lemma gettoken_mono:
  assumes "gettoken line s = (tok, w, s')"
  shows "s \<le> s'" "s \<le> length line \<Longrightarrow> s' \<le> length line" "tok \<noteq> 0 \<Longrightarrow> s < s'"
proof -
  let ?a = "skip_space line s"
  obtain e where e: "token_at line ?a = (tok, e)" "w = (?a, e)" "s' = skip_space line e"
    using assms by (cases "token_at line ?a") (auto simp: gettoken_def Let_def)
  have le: "?a \<le> e" "tok \<noteq> 0 \<Longrightarrow> ?a < e" "?a \<le> length line \<Longrightarrow> e \<le> length line"
    using skip_while_end[of ?a line in_word] by (cases rule: token_at_cases[OF e(1) skip_space_stops]; simp)+
  show "s \<le> s'" "s \<le> length line \<Longrightarrow> s' \<le> length line" "tok \<noteq> 0 \<Longrightarrow> s < s'"
    using le e(3) skip_space_mono[of s line] skip_space_mono[of e line] skip_space_end[of s line] skip_space_end[of e line] by auto
qed

lemma gettoken_after_peek:
  assumes "peek line s toks = (True, s1)" "gettoken line s1 = (tok, w, s2)"
  shows "s1 < s2" "s1 < length line"
proof -
  have "char_at line s1 \<noteq> 0" "skip_space line s1 = s1" using assms(1) skip_space_idem by (auto simp: peek_def Let_def)
  then have "tok \<noteq> 0" using assms(2) by (auto simp: gettoken_def token_at_def Let_def split: if_splits prod.splits)
  then show "s1 < s2" using gettoken_mono(3)[OF assms(2)] by simp
  show "s1 < length line" using peek_mono(3)[OF assms(1)] by simp
qed

lemma peek_progress:
  assumes "peek line s toks = (True, s1)" "gettoken line s1 = (tok, w, s2)"
  shows "length line - s2 < length line - s"
  using gettoken_after_peek[OF assms] peek_mono(1)[OF assms(1)] by auto

lemma redir_progress:
  assumes "peek line s toks = (True, s1)" "gettoken line s1 = (tok, w, s2)" "gettoken line s2 = (tok', w', s3)"
  shows "length line - s3 < length line - s"
  using peek_progress[OF assms(1,2)] gettoken_mono(1)[OF assms(3)] by auto

section \<open>The parser\<close>

lemma pbind_cong [fundef_cong]:
  "p = p' \<Longrightarrow> (\<And>x s. p' = Parsed x s \<Longrightarrow> f x s = f' x s) \<Longrightarrow> pbind p f = pbind p' f'"
  by (auto simp: pbind_def split: parse.splits)

type_synonym redir = "word_ptr \<times> nat \<times> nat"

definition redirect :: "cmd \<Rightarrow> redir list \<Rightarrow> cmd" where
  \<comment> \<open>the calls of \<open>redircmd\<close>\<close>
  "redirect cmd rs = foldl (\<lambda>c (w, mode, fd). REDIR c w mode fd) cmd rs"

function parseredirs :: "uchar list \<Rightarrow> redir list \<Rightarrow> nat \<Rightarrow> redir list parse" where
  "parseredirs line rs s =
     (let (b, s) = peek line s [60, 62] in
      if \<not> b then Parsed rs s
      else let (tok, _, s) = gettoken line s; (t, w, s) = gettoken line s in
        if t \<noteq> 97 then Perror ''missing file for redirection''
        else parseredirs line (rs @ [if tok = 60 then (w, O_RDONLY, 0) else (w, O_WRONLY_CREATE, 1)]) s)"
  by pat_completeness auto

termination
  by (relation "measure (\<lambda>(line, rs, s). length line - s)") (auto, metis redir_progress)

declare parseredirs.simps [simp del]

function parseargs :: "uchar list \<Rightarrow> word_ptr list \<Rightarrow> redir list \<Rightarrow> nat \<Rightarrow> (word_ptr list \<times> redir list) parse" where
  \<comment> \<open>the loop of \<open>parseexec\<close>\<close>
  "parseargs line args rs s =
     (let (b, s) = peek line s [124, 41, 38, 59] in
      if b then Parsed (args, rs) s
      else let (tok, w, s) = gettoken line s in
        if tok = 0 then Parsed (args, rs) s
        else if tok \<noteq> 97 then Perror ''syntax''
        else let args = args @ [w] in
          if length args \<ge> MAXARGS then Perror ''too many args''
          else pbind (parseredirs line rs s) (\<lambda>rs s. parseargs line args rs s))"
  by pat_completeness auto

termination
  by (relation "measure (\<lambda>(line, args, rs, s). MAXARGS - length args)") auto

declare parseargs.simps [simp del]

function parseback :: "uchar list \<Rightarrow> cmd \<Rightarrow> nat \<Rightarrow> cmd \<times> nat" where
  \<comment> \<open>the loop of \<open>parseline\<close>\<close>
  "parseback line cmd s =
     (let (b, s) = peek line s [38] in
      if b then (let (_, _, s) = gettoken line s in parseback line (BACK cmd) s) else (cmd, s))"
  by pat_completeness auto

termination
  by (relation "measure (\<lambda>(line, cmd, s). length line - s)") (auto, metis peek_progress)

declare parseback.simps [simp del]

function parseline :: "nat \<Rightarrow> uchar list \<Rightarrow> nat \<Rightarrow> cmd parse"
  and parsepipe :: "nat \<Rightarrow> uchar list \<Rightarrow> nat \<Rightarrow> cmd parse"
  and parseexec :: "nat \<Rightarrow> uchar list \<Rightarrow> nat \<Rightarrow> cmd parse"
  and parseblock :: "nat \<Rightarrow> uchar list \<Rightarrow> nat \<Rightarrow> cmd parse" where
  "parseline 0 line s = Pfuel"
| "parseline (Suc fuel) line s = pbind (parsepipe fuel line s) (\<lambda>cmd s.
     let (cmd, s) = parseback line cmd s; (b, s) = peek line s [59] in
     if b then (let (_, _, s) = gettoken line s in pbind (parseline fuel line s) (\<lambda>c s. Parsed (LIST cmd c) s))
     else Parsed cmd s)"
| "parsepipe 0 line s = Pfuel"
| "parsepipe (Suc fuel) line s = pbind (parseexec fuel line s) (\<lambda>cmd s.
     let (b, s) = peek line s [124] in
     if b then (let (_, _, s) = gettoken line s in pbind (parsepipe fuel line s) (\<lambda>c s. Parsed (PIPE cmd c) s))
     else Parsed cmd s)"
| "parseexec 0 line s = Pfuel"
| "parseexec (Suc fuel) line s =
     (let (b, s) = peek line s [40] in
      if b then parseblock fuel line s
      else pbind (parseredirs line [] s) (\<lambda>rs s. pbind (parseargs line [] rs s) (\<lambda>(args, rs) s.
        Parsed (redirect (EXEC args) rs) s)))"
| "parseblock 0 line s = Pfuel"
| "parseblock (Suc fuel) line s =
     (let (b, s) = peek line s [40] in
      if \<not> b then Perror ''parseblock''
      else let (_, _, s) = gettoken line s in
        pbind (parseline fuel line s) (\<lambda>cmd s.
          let (b, s) = peek line s [41] in
          if \<not> b then Perror ''syntax - missing )''
          else let (_, _, s) = gettoken line s in
            pbind (parseredirs line [] s) (\<lambda>rs s. Parsed (redirect cmd rs) s)))"

  by pat_completeness auto

termination
  by (relation "measure (\<lambda>x. case x of Inl (Inl (fuel, _)) \<Rightarrow> fuel | Inl (Inr (fuel, _)) \<Rightarrow> fuel
    | Inr (Inl (fuel, _)) \<Rightarrow> fuel | Inr (Inr (fuel, _)) \<Rightarrow> fuel)") simp_all

definition parse_fuel :: "uchar list \<Rightarrow> nat" where
  "parse_fuel line = 4 * length line + 4"

primrec nulterminate :: "cmd \<Rightarrow> uchar list \<Rightarrow> uchar list" where
  \<comment> \<open>what becomes of the line: a zero at the end of every word\<close>
  "nulterminate (EXEC args) line = fold (\<lambda>w line. line[snd w := 0]) args line"
| "nulterminate (REDIR cmd w mode fd) line = (nulterminate cmd line)[snd w := 0]"
| "nulterminate (PIPE l r) line = nulterminate r (nulterminate l line)"
| "nulterminate (LIST l r) line = nulterminate r (nulterminate l line)"
| "nulterminate (BACK cmd) line = nulterminate cmd line"

definition parsecmd :: "uchar list \<Rightarrow> (cmd \<times> uchar list) parse" where
  "parsecmd line = pbind (parseline (parse_fuel line) line 0) (\<lambda>cmd s.
     let (_, s) = peek line s [] in
     if s \<noteq> length line then Perror ''syntax'' else Parsed (cmd, nulterminate cmd line) s)"

section \<open>The command that is executed\<close>

definition CMDSTR :: nat where
  "CMDSTR = 10"

definition cmdstr :: "uchar list \<Rightarrow> uchar list option" where
  \<comment> \<open>the path given to \<open>exec\<close>; \<open>None\<close> when \<open>strcpy\<close> writes behind the array\<close>
  "cmdstr arg =
     (let buf = replicate CMDSTR 0 in
      if buf ! 0 \<noteq> (47 :: uchar)
      then (if 1 + length arg + 1 \<le> CMDSTR then Some (47 # arg) else None)
      else (if length arg + 1 \<le> CMDSTR then Some arg else None))"

section \<open>Words\<close>

definition boundary :: "uchar list \<Rightarrow> nat \<Rightarrow> bool" where
  \<comment> \<open>a place that is not inside a word\<close>
  "boundary line s \<longleftrightarrow> s = 0 \<or> \<not> in_word (line ! (s - 1)) \<or> length line \<le> s \<or> \<not> in_word (line ! s)"

definition maxword :: "uchar list \<Rightarrow> word_ptr \<Rightarrow> bool" where
  \<comment> \<open>characters that belong to words, as many as there are\<close>
  "maxword line w \<longleftrightarrow> fst w < snd w \<and> snd w \<le> length line \<and> (\<forall>i. fst w \<le> i \<longrightarrow> i < snd w \<longrightarrow> in_word (line ! i)) \<and>
     (fst w = 0 \<or> \<not> in_word (line ! (fst w - 1))) \<and> (snd w = length line \<or> \<not> in_word (line ! snd w))"

lemma maxword_apart:
  assumes "maxword line w" "maxword line v"
  shows "w = v \<or> snd w < fst v \<or> snd v < fst w"
proof -
  have *: "snd a < fst b" if "maxword line a" "maxword line b" "fst a < fst b" for a b
  proof (rule ccontr)
    assume "\<not> snd a < fst b"
    then have "in_word (line ! (fst b - 1)) \<or> snd a = fst b \<and> \<not> in_word (line ! (fst b))"
      using that by (cases "snd a = fst b") (auto simp: maxword_def)
    then show False using that by (auto simp: maxword_def)
  qed
  have **: "\<not> snd a < snd b" if "maxword line a" "maxword line b" "fst a = fst b" for a b
    using that by (auto simp: maxword_def)
  show ?thesis
  proof (cases "fst w = fst v")
    case True
    then have "snd w = snd v" using **[OF assms] **[OF assms(2,1)] by simp
    then show ?thesis using True by (simp add: prod_eq_iff)
  next
    case False
    then show ?thesis using *[OF assms] *[OF assms(2,1)] by (cases "fst w < fst v") auto
  qed
qed

lemma not_in_word: "c \<in> set whitespace \<Longrightarrow> \<not> in_word c" "c \<in> set symbols \<Longrightarrow> \<not> in_word c"
  by (simp_all add: in_word_def)

lemma skip_space_boundary:
  assumes "boundary line s"
  shows "boundary line (skip_space line s)"
proof (cases "skip_space line s = s")
  case False
  then have "s \<le> skip_space line s - 1" "skip_space line s - 1 < skip_space line s" using skip_space_mono[of s line] by auto
  then have "line ! (skip_space line s - 1) \<in> set whitespace"
    using skip_while_all[of s "skip_space line s - 1" "\<lambda>c. c \<in> set whitespace" line] by (simp add: skip_space_def)
  then show ?thesis by (simp add: boundary_def not_in_word)
qed (use assms in simp)

lemma peek_boundary: "peek line s toks = (b, t) \<Longrightarrow> boundary line s \<Longrightarrow> boundary line t"
  using skip_space_boundary by (auto dest: peekD)

lemma gettoken_boundary:
  assumes "gettoken line s = (tok, w, t)" "boundary line s"
  shows "boundary line t" "tok = 97 \<Longrightarrow> maxword line w"
proof -
  let ?a = "skip_space line s"
  obtain e where e: "token_at line ?a = (tok, e)" "w = (?a, e)" "t = skip_space line e"
    using assms by (cases "token_at line ?a") (auto simp: gettoken_def Let_def)
  note a = skip_space_boundary[OF assms(2)]
  have "boundary line e \<and> (tok = 97 \<longrightarrow> maxword line w)"
    using e(1) skip_space_stops[of line s]
  proof (cases rule: token_at_cases)
    case fin
    then show ?thesis using a by simp
  next
    case one
    then have "line ! ?a \<in> set symbols" by (auto simp: char_at_def symbols_def)
    then show ?thesis using one by (auto simp: boundary_def not_in_word)
  next
    case two
    then have "char_at line (Suc ?a) = 62" using e(1) by (auto simp: token_at_def Let_def split: if_splits)
    then have "line ! Suc ?a \<in> set symbols" using two(3) by (auto simp: char_at_def symbols_def)
    then show ?thesis using two by (auto simp: boundary_def not_in_word)
  next
    case wordtok
    have n: "e < length line \<Longrightarrow> \<not> in_word (line ! e)" using skip_while_stops wordtok(2) by blast
    have "e \<le> length line" using skip_while_end[of ?a line in_word] wordtok(2,3) by simp
    moreover have "in_word (line ! i)" if "?a \<le> i" "i < e" for i using skip_while_all[of ?a i in_word line] that wordtok(2) by simp
    moreover have "?a = 0 \<or> \<not> in_word (line ! (?a - 1))" using a wordtok(3,4) by (auto simp: boundary_def)
    ultimately show ?thesis using n wordtok(5) e(2) by (auto simp: boundary_def maxword_def)
  qed
  then show "boundary line t" "tok = 97 \<Longrightarrow> maxword line w" using skip_space_boundary e(3) by auto
qed

section \<open>What the parser returns\<close>

primrec words :: "cmd \<Rightarrow> word_ptr list" where
  "words (EXEC args) = args"
| "words (REDIR cmd w mode fd) = words cmd @ [w]"
| "words (PIPE l r) = words l @ words r"
| "words (LIST l r) = words l @ words r"
| "words (BACK cmd) = words cmd"

primrec argv_fits :: "cmd \<Rightarrow> bool" where
  \<comment> \<open>every \<open>argv\<close> has room for its arguments and the terminating zero\<close>
  "argv_fits (EXEC args) = (length args < MAXARGS)"
| "argv_fits (REDIR cmd w mode fd) = argv_fits cmd"
| "argv_fits (PIPE l r) = (argv_fits l \<and> argv_fits r)"
| "argv_fits (LIST l r) = (argv_fits l \<and> argv_fits r)"
| "argv_fits (BACK cmd) = argv_fits cmd"

primrec std_redirs :: "cmd \<Rightarrow> bool" where
  \<comment> \<open>redirections are of descriptors 0 and 1\<close>
  "std_redirs (EXEC args) = True"
| "std_redirs (REDIR cmd w mode fd) = (fd \<le> 1 \<and> std_redirs cmd)"
| "std_redirs (PIPE l r) = (std_redirs l \<and> std_redirs r)"
| "std_redirs (LIST l r) = (std_redirs l \<and> std_redirs r)"
| "std_redirs (BACK cmd) = std_redirs cmd"

definition cmd_ok :: "uchar list \<Rightarrow> cmd \<Rightarrow> bool" where
  "cmd_ok line c \<longleftrightarrow> list_all (maxword line) (words c) \<and> argv_fits c \<and> std_redirs c"

definition redirs_ok :: "uchar list \<Rightarrow> redir list \<Rightarrow> bool" where
  "redirs_ok line rs \<longleftrightarrow> list_all (\<lambda>r. maxword line (fst r) \<and> snd (snd r) \<le> 1) rs"

lemma redirs_ok_simps [simp]: "redirs_ok line []" "redirs_ok line (rs @ [r]) \<longleftrightarrow> redirs_ok line rs \<and> maxword line (fst r) \<and> snd (snd r) \<le> 1"
  by (simp_all add: redirs_ok_def)

definition place :: "uchar list \<Rightarrow> nat \<Rightarrow> bool" where
  "place line s \<longleftrightarrow> s \<le> length line \<and> boundary line s"

definition good :: "('a \<Rightarrow> bool) \<Rightarrow> bool \<Rightarrow> uchar list \<Rightarrow> nat \<Rightarrow> 'a parse \<Rightarrow> bool" where
  \<comment> \<open>a parse from \<open>s\<close> on; \<open>F\<close> says whether the fuel may have been too little\<close>
  "good W F line s p = (case p of Parsed x t \<Rightarrow> s \<le> t \<and> place line t \<and> W x | Perror e \<Rightarrow> True | Pfuel \<Rightarrow> F)"

lemma good_simps [simp]:
  "good W F line s (Parsed x t) \<longleftrightarrow> s \<le> t \<and> place line t \<and> W x" "good W F line s (Perror e)" "good W F line s Pfuel = F"
  by (simp_all add: good_def)

lemma good_pbind:
  assumes "good W F line s p" "\<And>x t. p = Parsed x t \<Longrightarrow> s \<le> t \<Longrightarrow> place line t \<Longrightarrow> W x \<Longrightarrow> good W' F line t (f x t)"
  shows "good W' F line s (pbind p f)"
proof (cases p)
  case (Parsed x t)
  then have "s \<le> t" "good W' F line t (f x t)" using assms by auto
  then show ?thesis using Parsed by (auto simp: good_def pbind_def split: parse.splits)
qed (use assms in \<open>auto simp: pbind_def\<close>)

lemma good_mono: "good W F line t p \<Longrightarrow> s \<le> t \<Longrightarrow> (F \<Longrightarrow> F') \<Longrightarrow> good W F' line s p"
  by (auto simp: good_def split: parse.splits)

lemma place_peek: "peek line s toks = (b, t) \<Longrightarrow> place line s \<Longrightarrow> s \<le> t \<and> place line t"
  using peek_mono peek_boundary unfolding place_def by blast

lemma place_gettoken:
  assumes "gettoken line s = (tok, w, t)" "place line s"
  shows "s \<le> t \<and> place line t \<and> (tok \<noteq> 0 \<longrightarrow> s < t) \<and> (tok = 97 \<longrightarrow> maxword line w)"
  using gettoken_mono[OF assms(1)] gettoken_boundary[OF assms(1)] assms(2) by (simp add: place_def)

lemma words_redirect: "words (redirect c rs) = words c @ map fst rs" "argv_fits (redirect c rs) = argv_fits c"
  "std_redirs (redirect c rs) \<longleftrightarrow> std_redirs c \<and> list_all (\<lambda>r. snd (snd r) \<le> 1) rs"
  by (induction rs arbitrary: c) (auto simp: redirect_def)

lemma cmd_ok_redirect [simp]: "cmd_ok line (redirect c rs) \<longleftrightarrow> cmd_ok line c \<and> redirs_ok line rs"
  by (auto simp: cmd_ok_def words_redirect redirs_ok_def list_all_iff)

lemma good_parseredirs:
  "place line s \<Longrightarrow> redirs_ok line rs \<Longrightarrow> good (redirs_ok line) F line s (parseredirs line rs s)"
proof (induction line rs s rule: parseredirs.induct)
  case (1 line rs s)
  obtain b s1 where p: "peek line s [60, 62] = (b, s1)" by force
  obtain tok w1 s2 where g1: "gettoken line s1 = (tok, w1, s2)" by (metis prod_cases3)
  obtain t w s3 where g2: "gettoken line s2 = (t, w, s3)" by (metis prod_cases3)
  note a = place_peek[OF p 1(2)]
  note c = place_gettoken[OF g1 conjunct2[OF a]]
  have d: "s2 \<le> s3" "place line s3" "t = 97 \<Longrightarrow> maxword line w" using place_gettoken[OF g2] c by auto
  have IH: "good (redirs_ok line) F line s3
      (parseredirs line (rs @ [if tok = 60 then (w, O_RDONLY, 0) else (w, O_WRONLY_CREATE, 1)]) s3)" if "b" "t = 97"
    using 1(1)[OF p[symmetric] refl _ g1[symmetric] refl refl g2[symmetric] refl refl] that d 1(3)
    by auto
  show ?case
    by (subst parseredirs.simps) (use 1(3) a c d IH in \<open>auto simp: p g1 g2 intro: good_mono\<close>)
qed

lemma good_parseargs:
  "place line s \<Longrightarrow> redirs_ok line rs \<Longrightarrow> list_all (maxword line) args \<Longrightarrow> length args < MAXARGS \<Longrightarrow>
   good (\<lambda>(args, rs). list_all (maxword line) args \<and> length args < MAXARGS \<and> redirs_ok line rs) F line s (parseargs line args rs s)"
proof (induction line args rs s rule: parseargs.induct)
  case (1 line args rs s)
  obtain b s1 where p: "peek line s [124, 41, 38, 59] = (b, s1)" by force
  obtain tok w s2 where g: "gettoken line s1 = (tok, w, s2)" by (metis prod_cases3)
  note a = place_peek[OF p 1(2)]
  have c: "s \<le> s2" "place line s2" "tok = 97 \<Longrightarrow> maxword line w" using place_gettoken[OF g] a by auto
  have "good (\<lambda>(args, rs). list_all (maxword line) args \<and> length args < MAXARGS \<and> redirs_ok line rs) F line s2
      (pbind (parseredirs line rs s2) (parseargs line (args @ [w])))"
    if t: "\<not> b" "tok = 97" "length args + 1 < MAXARGS"
    by (rule good_pbind[OF good_parseredirs[OF c(2) 1(3)]])
      (use 1(1)[OF p[symmetric] refl _ g[symmetric] refl refl _ _ refl] 1(4) c(3) t in auto)
  then show ?case
    by (subst parseargs.simps) (use 1(3-5) a c in \<open>auto simp: p g intro: good_mono\<close>)
qed

lemma parseback_ok:
  "place line s \<Longrightarrow> parseback line c s = (c', t) \<Longrightarrow> s \<le> t \<and> place line t \<and> (cmd_ok line c \<longrightarrow> cmd_ok line c')"
proof (induction line c s rule: parseback.induct)
  case (1 line c s)
  obtain b s1 where p: "peek line s [38] = (b, s1)" by force
  obtain tok w s2 where g: "gettoken line s1 = (tok, w, s2)" by (metis prod_cases3)
  note a = place_peek[OF p 1(2)]
  have c: "s \<le> s2" "place line s2" using place_gettoken[OF g] a by auto
  show ?case
  proof (cases b)
    case True
    then have "parseback line (BACK c) s2 = (c', t)" using 1(3) by (subst (asm) parseback.simps) (simp add: p g)
    then show ?thesis using 1(1)[OF p[symmetric] refl True g[symmetric] refl refl c(2)] c(1) by (auto simp: cmd_ok_def)
  next
    case False
    then show ?thesis using 1(3) a by (subst (asm) parseback.simps) (auto simp: p)
  qed
qed

text \<open>After a token that \<open>peek\<close> has seen, less of the line is left.\<close>

lemma place_next:
  assumes "peek line s toks = (True, s1)" "gettoken line s1 = (tok, w, s2)" "place line s"
  shows "s \<le> s2" "place line s2" "length line - s2 < length line - s"
  using place_peek[OF assms(1,3)] place_gettoken[OF assms(2)] peek_progress[OF assms(1,2)] by auto

lemma good_parseline_step:
  assumes "place line s" "good (cmd_ok line) F line s (parsepipe f line s)"
    and rec: "\<And>t. place line t \<Longrightarrow> s \<le> t \<Longrightarrow> length line - t < length line - s \<Longrightarrow> good (cmd_ok line) F line t (parseline f line t)"
  shows "good (cmd_ok line) F line s (parseline (Suc f) line s)"
  unfolding parseline.simps
proof (rule good_pbind[OF assms(2)])
  fix c t
  assume t: "s \<le> t" "place line t" "cmd_ok line c"
  obtain c1 t1 where pb: "parseback line c t = (c1, t1)" by force
  obtain b t2 where p: "peek line t1 [59] = (b, t2)" by force
  obtain tok w t3 where g: "gettoken line t2 = (tok, w, t3)" by (metis prod_cases3)
  have a: "t \<le> t1" "place line t1" "cmd_ok line c1" using parseback_ok[OF t(2) pb] t(3) by auto
  have "good (cmd_ok line) F line t (pbind (parseline f line t3) (\<lambda>d. Parsed (LIST c1 d)))" if b
  proof -
    note n = place_next[OF p[unfolded that[THEN eqTrueI]] g a(2)]
    have "good (cmd_ok line) F line t3 (pbind (parseline f line t3) (\<lambda>d. Parsed (LIST c1 d)))"
      by (rule good_pbind[OF rec]) (use n a t in \<open>auto simp: cmd_ok_def\<close>)
    then show ?thesis using n a(1) by (auto intro: good_mono)
  qed
  then show "good (cmd_ok line) F line t (let (cmd, s) = parseback line c t; (b, s) = peek line s [59] in
     if b then (let (_, _, s) = gettoken line s in pbind (parseline f line s) (\<lambda>c s. Parsed (LIST cmd c) s)) else Parsed cmd s)"
    using a place_peek[OF p a(2)] by (auto simp: pb p g)
qed

lemma good_parsepipe_step:
  assumes "place line s" "good (cmd_ok line) F line s (parseexec f line s)"
    and rec: "\<And>t. place line t \<Longrightarrow> s \<le> t \<Longrightarrow> length line - t < length line - s \<Longrightarrow> good (cmd_ok line) F line t (parsepipe f line t)"
  shows "good (cmd_ok line) F line s (parsepipe (Suc f) line s)"
  unfolding parsepipe.simps
proof (rule good_pbind[OF assms(2)])
  fix c t
  assume t: "s \<le> t" "place line t" "cmd_ok line c"
  obtain b t2 where p: "peek line t [124] = (b, t2)" by force
  obtain tok w t3 where g: "gettoken line t2 = (tok, w, t3)" by (metis prod_cases3)
  have "good (cmd_ok line) F line t (pbind (parsepipe f line t3) (\<lambda>d. Parsed (PIPE c d)))" if b
  proof -
    note n = place_next[OF p[unfolded that[THEN eqTrueI]] g t(2)]
    have "good (cmd_ok line) F line t3 (pbind (parsepipe f line t3) (\<lambda>d. Parsed (PIPE c d)))"
      by (rule good_pbind[OF rec]) (use n t in \<open>auto simp: cmd_ok_def\<close>)
    then show ?thesis using n by (auto intro: good_mono)
  qed
  then show "good (cmd_ok line) F line t (let (b, s) = peek line t [124] in
     if b then (let (_, _, s) = gettoken line s in pbind (parsepipe f line s) (\<lambda>d s. Parsed (PIPE c d) s)) else Parsed c s)"
    using t place_peek[OF p t(2)] by (auto simp: p g)
qed

lemma good_parseexec_step:
  assumes "place line s" and rec: "\<And>t. place line t \<Longrightarrow> s \<le> t \<Longrightarrow> good (cmd_ok line) F line t (parseblock f line t)"
  shows "good (cmd_ok line) F line s (parseexec (Suc f) line s)"
proof -
  obtain b t where p: "peek line s [40] = (b, t)" by force
  note a = place_peek[OF p assms(1)]
  have "good (cmd_ok line) F line t (pbind (parseredirs line [] t) (\<lambda>rs s. pbind (parseargs line [] rs s) (\<lambda>(args, rs) s.
      Parsed (redirect (EXEC args) rs) s)))"
    by (rule good_pbind[OF good_parseredirs], use a in simp, simp, rule good_pbind[OF good_parseargs])
      (auto simp: MAXARGS_def cmd_ok_def[of line "EXEC _"])
  then show ?thesis using rec a by (auto simp: p intro: good_mono)
qed

lemma good_parseblock_step:
  assumes "place line s"
    and rec: "\<And>t. place line t \<Longrightarrow> s \<le> t \<Longrightarrow> length line - t < length line - s \<Longrightarrow> good (cmd_ok line) F line t (parseline f line t)"
  shows "good (cmd_ok line) F line s (parseblock (Suc f) line s)"
proof -
  obtain b t where p: "peek line s [40] = (b, t)" by force
  obtain tok w t1 where g: "gettoken line t = (tok, w, t1)" by (metis prod_cases3)
  show ?thesis
  proof (cases b)
    case True
    note n = place_next[OF p[unfolded True[THEN eqTrueI]] g assms(1)]
    have "good (cmd_ok line) F line t1 (pbind (parseline f line t1) (\<lambda>cmd s. let (b, s) = peek line s [41] in
          if \<not> b then Perror ''syntax - missing )'' else let (_, _, s) = gettoken line s in
            pbind (parseredirs line [] s) (\<lambda>rs s. Parsed (redirect cmd rs) s)))"
    proof (rule good_pbind[OF rec[OF n(2,1,3)]])
      fix c u
      assume u: "place line u" "cmd_ok line c"
      obtain b' u1 where p': "peek line u [41] = (b', u1)" by force
      obtain tok' w' u2 where g': "gettoken line u1 = (tok', w', u2)" by (metis prod_cases3)
      have u2: "u \<le> u2" "place line u2" using place_peek[OF p' u(1)] place_gettoken[OF g'] by auto
      have "good (cmd_ok line) F line u2 (pbind (parseredirs line [] u2) (\<lambda>rs s. Parsed (redirect c rs) s))"
        by (rule good_pbind[OF good_parseredirs[OF u2(2)]]) (use u(2) in auto)
      then show "good (cmd_ok line) F line u (let (b, s) = peek line u [41] in
          if \<not> b then Perror ''syntax - missing )'' else let (_, _, s) = gettoken line s in
            pbind (parseredirs line [] s) (\<lambda>rs s. Parsed (redirect c rs) s))"
        using u2(1) by (auto simp: p' g' intro: good_mono)
    qed
    then show ?thesis using True n(1) by (auto simp: p g intro: good_mono)
  qed (simp add: p)
qed

lemma parse_good:
  fixes line :: "uchar list"
  defines "n \<equiv> length line"
  shows "\<forall>s. place line s \<longrightarrow>
    good (cmd_ok line) (fuel < 4 * (n - s) + 4) line s (parseline fuel line s) \<and>
    good (cmd_ok line) (fuel < 4 * (n - s) + 3) line s (parsepipe fuel line s) \<and>
    good (cmd_ok line) (fuel < 4 * (n - s) + 2) line s (parseexec fuel line s) \<and>
    good (cmd_ok line) (fuel < 4 * (n - s) + 1) line s (parseblock fuel line s)"
proof (induction fuel)
  case 0
  then show ?case by simp
next
  case (Suc f)
  show ?case
  proof (intro allI impI conjI)
    fix s
    assume s: "place line s"
    note IH = Suc.IH[rule_format, THEN conjunct1] Suc.IH[rule_format, THEN conjunct2, THEN conjunct1]
      Suc.IH[rule_format, THEN conjunct2, THEN conjunct2, THEN conjunct1] Suc.IH[rule_format, THEN conjunct2, THEN conjunct2, THEN conjunct2]
    show "good (cmd_ok line) (Suc f < 4 * (n - s) + 4) line s (parseline (Suc f) line s)"
      by (rule good_parseline_step[OF s]) (rule good_mono[OF IH(2)[OF s] order_refl], simp, erule good_mono[OF IH(1) order_refl], simp add: n_def)
    show "good (cmd_ok line) (Suc f < 4 * (n - s) + 3) line s (parsepipe (Suc f) line s)"
      by (rule good_parsepipe_step[OF s]) (rule good_mono[OF IH(3)[OF s] order_refl], simp, erule good_mono[OF IH(2) order_refl], simp add: n_def)
    show "good (cmd_ok line) (Suc f < 4 * (n - s) + 2) line s (parseexec (Suc f) line s)"
      by (rule good_parseexec_step[OF s]) (erule good_mono[OF IH(4) order_refl], simp add: n_def)
    show "good (cmd_ok line) (Suc f < 4 * (n - s) + 1) line s (parseblock (Suc f) line s)"
      by (rule good_parseblock_step[OF s]) (erule good_mono[OF IH(1) order_refl], simp add: n_def)
  qed
qed

section \<open>Correctness\<close>

lemma place_0: "place line 0"
  by (simp add: place_def boundary_def)

text \<open>C33: The parser ends on every line: the recursion of \<open>parseline\<close>, \<open>parsepipe\<close>, \<open>parseexec\<close> and \<open>parseblock\<close> is never deeper than
  four calls for each character of the line.\<close>

theorem parsecmd_terminates: "parsecmd line \<noteq> Pfuel"
proof -
  have "good (cmd_ok line) (parse_fuel line < 4 * (length line - 0) + 4) line 0 (parseline (parse_fuel line) line 0)"
    using parse_good[of line "parse_fuel line"] place_0 by blast
  then have "parseline (parse_fuel line) line 0 \<noteq> Pfuel" by (auto simp: parse_fuel_def)
  then show ?thesis by (auto simp: parsecmd_def pbind_def split: parse.splits prod.splits)
qed

lemma fold_zero_length [simp]: "length (fold (\<lambda>w line. line[snd w := 0]) ws line) = length line"
  by (induction ws arbitrary: line) auto

lemma fold_zero:
  "i < length line \<Longrightarrow> fold (\<lambda>w line. line[snd w := 0]) ws line ! i = (if i \<in> snd ` set ws then 0 else line ! i)"
  by (induction ws arbitrary: line) (auto simp: nth_list_update)

lemma nulterminate_length [simp]: "length (nulterminate c line) = length line"
  by (induction c arbitrary: line) auto

lemma nulterminate_nth:
  "i < length line \<Longrightarrow> nulterminate c line ! i = (if i \<in> snd ` set (words c) then 0 else line ! i)"
proof (induction c arbitrary: line)
  case (REDIR c w mode fd)
  then show ?case by (cases "i = snd w") (simp_all add: nth_list_update)
qed (simp_all add: fold_zero image_Un)

lemma nulterminate_word:
  assumes "0 \<notin> set line" "list_all (maxword line) (words c)" "(q, e) \<in> set (words c)"
  shows "takeWhile (\<lambda>c. c \<noteq> 0) (drop q (nulterminate c line)) = take (e - q) (drop q line)"
proof -
  let ?l = "nulterminate c line"
  have w: "maxword line (q, e)" using assms(2,3) by (auto simp: list_all_iff)
  then have q: "q < e" "e \<le> length line" by (auto simp: maxword_def)
  have same: "?l ! i = line ! i" if "q \<le> i" "i < e" for i
  proof -
    have "snd v \<noteq> i" if "v \<in> set (words c)" for v
      using maxword_apart[OF w, of v] that assms(2) \<open>q \<le> i\<close> \<open>i < e\<close> by (cases v) (auto simp: list_all_iff maxword_def)
    then show ?thesis using that q(2) by (auto simp: nulterminate_nth)
  qed
  have t: "take (e - q) (drop q ?l) = take (e - q) (drop q line)"
    using q same by (intro nth_equalityI) auto
  have "set (take (e - q) (drop q line)) \<subseteq> set line" by (rule order_trans[OF set_take_subset set_drop_subset])
  then have "\<forall>x\<in>set (take (e - q) (drop q line)). x \<noteq> 0" using assms(1) by auto
  moreover have "drop (e - q) (drop q ?l) = [] \<or> hd (drop (e - q) (drop q ?l)) = 0"
  proof (cases "e = length line")
    case False
    then have "?l ! e = 0" using q(2) assms(3) by (auto simp: nulterminate_nth image_iff intro!: bexI[of _ "(q, e)"])
    then show ?thesis using q False by (simp add: hd_drop_conv_nth)
  qed (use q in simp)
  ultimately have "takeWhile (\<lambda>c. c \<noteq> 0) (take (e - q) (drop q ?l) @ drop (e - q) (drop q ?l)) = take (e - q) (drop q line)"
    unfolding t by (subst takeWhile_append2) (auto simp: takeWhile_eq_Nil_iff)
  then show ?thesis unfolding append_take_drop_id .
qed

lemma parsecmd_ok:
  assumes "parsecmd line = Parsed (cmd, line') s"
  shows "cmd_ok line cmd" "line' = nulterminate cmd line"
proof -
  obtain t where p: "parseline (parse_fuel line) line 0 = Parsed cmd t" and l: "line' = nulterminate cmd line"
    using assms by (auto simp: parsecmd_def pbind_def split: parse.splits prod.splits if_splits)
  have "good (cmd_ok line) (parse_fuel line < 4 * (length line - 0) + 4) line 0 (Parsed cmd t)"
    using parse_good[of line "parse_fuel line"] place_0 p by metis
  then show "cmd_ok line cmd" "line' = nulterminate cmd line" using l by auto
qed

text \<open>C32: The words of a parsed command are those of the line. In the line that \<open>nulterminate\<close> leaves, the C string at every word pointer
  is a maximal run of characters of the line that are neither white space nor symbols, and no \<open>argv\<close> has more than
  nine of them, so the terminating null pointer fits into its ten entries.\<close>

theorem parsecmd_words:
  assumes "0 \<notin> set line" "parsecmd line = Parsed (cmd, line') s"
  shows "argv_fits cmd \<and> (\<forall>(q, e) \<in> set (words cmd). maxword line (q, e) \<and>
    takeWhile (\<lambda>c. c \<noteq> 0) (drop q line') = take (e - q) (drop q line))"
  using parsecmd_ok[OF assms(2)] nulterminate_word[OF assms(1), of cmd] by (auto simp: cmd_ok_def list_all_iff)

text \<open>The line \<open>ls >f; (a|b)&\<close>.\<close>

definition demo_line :: "uchar list" where
  "demo_line = [108, 115, 32, 62, 102, 59, 32, 40, 97, 124, 98, 41, 38]"

definition demo_cmd :: cmd where
  "demo_cmd = LIST (REDIR (EXEC [(0, 2)]) (4, 5) 0x201 1) (BACK (PIPE (EXEC [(8, 9)]) (EXEC [(10, 11)])))"

lemma demo_parse: "parsecmd demo_line = Parsed (demo_cmd, [108, 115, 0, 62, 102, 0, 32, 40, 97, 0, 98, 0, 38]) 13"
  by code_simp

theorem parsecmd_words_witness:
  "argv_fits demo_cmd \<and> maxword demo_line (0, 2) \<and>
   takeWhile (\<lambda>c. c \<noteq> 0) (drop 0 [108, 115, 0, 62, 102, 0, 32, 40, 97, 0, 98, 0, 38]) = take 2 demo_line"
  using parsecmd_words[OF _ demo_parse] by (simp add: demo_line_def demo_cmd_def)

text \<open>The path that \<open>runcmd\<close> builds for \<open>exec\<close> always has a slash in front, also when the command starts with one, because the
  test for it is made on the array just cleared; and \<open>strcpy\<close> writes behind the ten bytes of that array for every command of more than
  eight characters.\<close>

theorem cmdstr_path: "cmdstr arg = (if length arg \<le> 8 then Some (47 # arg) else None)"
  by (simp add: cmdstr_def CMDSTR_def)

end
