(* ===== verification/Sh_Run.thy ===== *)
theory Sh_Run
  imports Sh
begin

text \<open>
  Running a command (\<open>runcmd\<close> of \<^verbatim>\<open>sh.c\<close>). \<open>runcmd\<close> is translated to the system calls it makes, as a tree: where a call
  may fail, the tree has what happens then; a \<open>fork\<close> has the child's and the parent's continuation.

  \<open>execute\<close> follows the tree with the descriptor table of the process, when every call succeeds: \<open>open\<close>, \<open>dup\<close> and
  \<open>pipe\<close> take the lowest free descriptors, as \<open>fdalloc\<close> of the kernel does. It collects the programs that are executed, each
  with the descriptors it starts with.
\<close>

section \<open>The system calls\<close>

datatype proc =
    Exit
  | Print string proc
  | Exec "word_ptr list" proc
  | Close nat proc
  | Dup nat proc
  | Open word_ptr nat proc proc
  | Pipe "nat \<times> nat \<Rightarrow> proc" proc
  | Fork proc proc proc
  | Wait proc

definition sh_panic :: "string \<Rightarrow> proc" where
  "sh_panic msg = Print msg Exit"

definition fork1 :: "proc \<Rightarrow> proc \<Rightarrow> proc" where
  \<comment> \<open>the child, the parent\<close>
  "fork1 child parent = Fork child parent (sh_panic ''fork'')"

primrec runcmd :: "cmd \<Rightarrow> proc" where
  "runcmd (EXEC args) = (if args = [] then Exit else Exec args (Print ''exec failed'' Exit))"
| "runcmd (REDIR cmd w mode fd) = Close fd (Open w mode (runcmd cmd) (Print ''open failed'' Exit))"
| "runcmd (PIPE left right) =
     Pipe (\<lambda>p.
       fork1 (Close 1 (Dup (snd p) (Close (fst p) (Close (snd p) (runcmd left)))))
       (fork1 (Close 0 (Dup (fst p) (Close (fst p) (Close (snd p) (runcmd right)))))
       (Close (fst p) (Close (snd p) (Wait (Wait Exit))))))
     (sh_panic ''pipe'')"
| "runcmd (LIST left right) = fork1 (runcmd left) (Wait (runcmd right))"
| "runcmd (BACK cmd) = fork1 (runcmd cmd) Exit"

section \<open>Descriptor tables\<close>

datatype channel = Inherited nat | File word_ptr nat | Read_end nat | Write_end nat

type_synonym fdtab = "nat \<Rightarrow> channel option"

definition NOFILE :: nat where
  "NOFILE = 16"

definition fd_free :: "fdtab \<Rightarrow> nat" where
  "fd_free T = (case find (\<lambda>i. T i = None) [0..<NOFILE] of Some i \<Rightarrow> i | None \<Rightarrow> NOFILE)"

type_synonym started = "(word_ptr list \<times> fdtab) list"

text \<open>\<open>execute p T n\<close>: the programs started, and the number of pipes made so far (\<open>n\<close> at the start).\<close>

primrec execute :: "proc \<Rightarrow> fdtab \<Rightarrow> nat \<Rightarrow> started \<times> nat" where
  "execute Exit = (\<lambda>T n. ([], n))"
| "execute (Print msg p) = execute p"
| "execute (Exec args p) = (\<lambda>T n. ([(args, T)], n))"
| "execute (Close fd p) = (\<lambda>T n. execute p (T(fd := None)) n)"
| "execute (Dup fd p) = (\<lambda>T n. execute p (T(fd_free T := T fd)) n)"
| "execute (Open w mode p q) = (\<lambda>T n. execute p (T(fd_free T := Some (File w mode))) n)"
| "execute (Pipe p q) = (\<lambda>T n.
     let r = fd_free T; T1 = T(r := Some (Read_end n)); w = fd_free T1; T2 = T1(w := Some (Write_end n)) in
     execute (p (r, w)) T2 (Suc n))"
| "execute (Fork c p q) = (\<lambda>T n. let (a, n) = execute c T n; (b, n) = execute p T n in (a @ b, n))"
| "execute (Wait p) = execute p"

section \<open>What a command means\<close>

primrec meaning :: "cmd \<Rightarrow> fdtab \<Rightarrow> nat \<Rightarrow> started \<times> nat" where
  "meaning (EXEC args) = (\<lambda>T n. (if args = [] then [] else [(args, T)], n))"
| "meaning (REDIR cmd w mode fd) = (\<lambda>T. meaning cmd (T(fd := Some (File w mode))))"
| "meaning (PIPE l r) = (\<lambda>T n.
     let (a, m) = meaning l (T(1 := Some (Write_end n))) (Suc n); (b, m) = meaning r (T(0 := Some (Read_end n))) m in (a @ b, m))"
| "meaning (LIST l r) = (\<lambda>T n. let (a, m) = meaning l T n; (b, m) = meaning r T m in (a @ b, m))"
| "meaning (BACK cmd) = meaning cmd"

definition std_fds :: "fdtab \<Rightarrow> bool" where
  "std_fds T \<longleftrightarrow> (\<forall>i. T i = None \<longleftrightarrow> 3 \<le> i)"

lemma upt_NOFILE: "[0..<NOFILE] = [0, 1, 2, 3, 4, 5, 6, 7, 8, 9, 10, 11, 12, 13, 14, 15]"
  by (simp add: NOFILE_def upt_conv_Cons)

lemma fd_free_std:
  assumes "std_fds T"
  shows "fd_free T = 3" "fd_free (T(3 := Some x)) = 4" "fd \<le> 2 \<Longrightarrow> fd_free (T(fd := None)) = fd"
    "fd \<le> 2 \<Longrightarrow> fd_free (T(3 := Some x, 4 := Some y, fd := None)) = fd"
proof -
  have "\<exists>c. T i = Some c" if "i \<le> 2" for i using assms that by (metis not_None_eq not_less_eq_eq numeral_2_eq_2 numeral_3_eq_3 std_fds_def)
  then obtain a b c where s: "T 0 = Some a" "T 1 = Some b" "T 2 = Some c" by (metis le0 one_le_numeral order_refl)
  have n: "T 3 = None" "T 4 = None" using assms by (simp_all add: std_fds_def)
  show "fd_free T = 3" "fd_free (T(3 := Some x)) = 4" using s n by (simp_all add: fd_free_def upt_NOFILE)
  have "fd \<le> 2 \<Longrightarrow> fd = 0 \<or> fd = 1 \<or> fd = 2" by auto
  then show "fd \<le> 2 \<Longrightarrow> fd_free (T(fd := None)) = fd" "fd \<le> 2 \<Longrightarrow> fd_free (T(3 := Some x, 4 := Some y, fd := None)) = fd"
    using s n by (auto simp: fd_free_def upt_NOFILE)
qed

lemma std_fds_upd [simp]: "std_fds T \<Longrightarrow> fd \<le> 2 \<Longrightarrow> std_fds (T(fd := Some x))"
  by (auto simp: std_fds_def)

lemma pipe_ends:
  assumes "std_fds T" "fd \<le> 1"
  shows "T(fd := c, 3 := None, 4 := None) = T(fd := c)"
proof -
  have "T 3 = None" "T 4 = None" using assms(1) by (simp_all add: std_fds_def)
  then show ?thesis using assms(2) by (auto simp: fun_eq_iff)
qed

lemma runcmd_meaning:
  assumes "std_fds T" "std_redirs cmd"
  shows "execute (runcmd cmd) T n = meaning cmd T n"
  using assms
proof (induction cmd arbitrary: T n)
  case (EXEC args)
  then show ?case by simp
next
  case (REDIR cmd w mode fd)
  then have fd: "fd \<le> 2" by simp
  have "execute (runcmd cmd) (T(fd := Some (File w mode))) n = meaning cmd (T(fd := Some (File w mode))) n"
    by (rule REDIR.IH[OF std_fds_upd[OF REDIR.prems(1) fd]]) (use REDIR.prems(2) in simp)
  then show ?case using fd_free_std(3)[OF REDIR.prems(1) fd] by simp
next
  case (PIPE l r)
  note f = fd_free_std[OF PIPE.prems(1)]
  have l: "execute (runcmd l) (T(1 := Some (Write_end n))) m = meaning l (T(1 := Some (Write_end n))) m" for m
    by (rule PIPE.IH(1)[OF std_fds_upd[OF PIPE.prems(1)]]) (use PIPE.prems(2) in simp_all)
  have r: "execute (runcmd r) (T(0 := Some (Read_end n))) m = meaning r (T(0 := Some (Read_end n))) m" for m
    by (rule PIPE.IH(2)[OF std_fds_upd[OF PIPE.prems(1)]]) (use PIPE.prems(2) in simp_all)
  note e = pipe_ends[OF PIPE.prems(1), of 1] pipe_ends[OF PIPE.prems(1), of 0]
  show ?case using l r e by (simp add: f fork1_def Let_def case_prod_unfold)
next
  case (LIST l r)
  then show ?case by (simp add: fork1_def Let_def case_prod_unfold)
next
  case (BACK cmd)
  then show ?case by (simp add: fork1_def Let_def case_prod_unfold)
qed



end
