(* ===== verification/Fat.thy ===== *)
theory Fat
  imports Sfs
begin

text \<open>
  The FAT32 file system, \<^verbatim>\<open>fs/fat32/fat_inode.c\<close>, \<^verbatim>\<open>fat_inode.h\<close> and \<^verbatim>\<open>fat_fs.c\<close>, in the
  order of the source. Conventions are those of the theory \<open>Sfs\<close>; this file system writes
  through the cache with \<open>bwrite\<close>, without the log.

  A directory sector is read at fixed offsets: entry \<open>k\<close> starts at byte \<open>32 * k\<close>, as a
  \<open>struct DIR\<close> or a \<open>struct LDIR\<close>. The loops \<open>do { ... } while (!isEOF(cno))\<close> over the clusters
  of a chain are \<open>fat_walk\<close>; they keep the FAT sector of the last entry they looked at in a
  buffer (\<open>fp\<close>, \<open>lastFatsect\<close>). A walk that does not end in \<open>2 ^ 32\<close> rounds meets a cluster
  twice and never ends: it is the outcome \<open>Diverge\<close>. Following a null buffer pointer traps,
  which the kernel turns into \<open>panic("trap")\<close>.
\<close>

section \<open>On-disk structures\<close>

definition SECTSIZE :: nat where "SECTSIZE = 512"
definition FAT_DIRSIZ :: nat where "FAT_DIRSIZ = 260"
definition LAST_FAT_ENTRY :: uint where "LAST_FAT_ENTRY = 0x0FFFFFFF"
definition CHAIN_FUEL :: nat where "CHAIN_FUEL = 2 ^ 32"

definition isEOF :: "uint \<Rightarrow> bool" where
  "isEOF n \<longleftrightarrow> n \<ge> 0x0FFFFFF8"

record BPB =
  BytsPerSec :: ushort
  SecPerClus :: uchar
  ResvdSecCnt :: ushort
  NumFATs :: uchar
  TotSec32 :: uint
  FATSz32 :: uint
  FSInfo :: ushort

definition bpb_of :: "bytes \<Rightarrow> BPB" where
  "bpb_of d = \<lparr>BytsPerSec = ld16 d 11, SecPerClus = d 13, ResvdSecCnt = ld16 d 14, NumFATs = d 16,
     TotSec32 = ld32 d 32, FATSz32 = ld32 d 36, FSInfo = ld16 d 48\<rparr>"

text \<open>\<open>struct FSI\<close>: the free count at 488, the next free cluster at 492.\<close>

definition fsi_nxt :: "bytes \<Rightarrow> uint" where "fsi_nxt d = ld32 d 492"
definition fsi_free :: "bytes \<Rightarrow> uint" where "fsi_free d = ld32 d 488"

text \<open>\<open>struct DIR\<close> at offset \<open>p\<close>.\<close>

definition dir_clus :: "bytes \<Rightarrow> nat \<Rightarrow> uint" where
  "dir_clus d p = push_bit 16 (ucast (ld16 d (p + 20))) OR ucast (ld16 d (p + 26))"

definition dir_attr :: "bytes \<Rightarrow> nat \<Rightarrow> uchar" where "dir_attr d p = d (p + 11)"

text \<open>\<open>DIR_TYPE\<close>\<close>

datatype dirtype = FAT_TYPE_EMPTY | FAT_TYPE_LNAME | FAT_TYPE_FILE | FAT_TYPE_DIR | FAT_TYPE_VOLLBL | FAT_TYPE_ERROR

section \<open>Small functions\<close>

definition fat_get_ops :: "16 word \<Rightarrow> ('a fsys_scheme, inode_ops) prog" where
  "fat_get_ops type =
     (if type = T_DIR then kret fat_node_dirops
      else if type = T_FILE then kret fat_node_fileops
      else if type = T_DEV then kret fat_node_fileops
      else kpanic ''invalid file type in fat_get_ops(uint type), please check fat_inode.c'')"

definition fat_mapAttr :: "uchar \<Rightarrow> 16 word" where
  "fat_mapAttr attr = (if attr = 0x10 then T_DIR else if attr = 0x20 then T_FILE
     else if attr = 0x04 then T_DEV else ucast attr)"

definition fat_mapType :: "16 word \<Rightarrow> uchar" where
  "fat_mapType type = (if type = T_DIR then 0x10 else if type = T_FILE then 0x20
     else if type = T_DEV then 0x04 else ucast type)"

primrec copyshortname_loop :: "nat \<Rightarrow> nat \<Rightarrow> bytes \<Rightarrow> nat \<Rightarrow> uchar list \<Rightarrow> uchar list" where
  \<comment> \<open>rounds to go, the round \<open>i\<close>, the source, the position of \<open>src\<close>, what \<open>dst\<close> has received\<close>
  "copyshortname_loop 0 i src p dst = dst"
| "copyshortname_loop (Suc n) i src p dst =
     (if src p = 0x20 then copyshortname_loop n (Suc i) src p dst
      else copyshortname_loop n (Suc i) src (Suc p) (dst @ [src p] @ (if i = 7 then [46] else [])))"

definition copyshortname :: "bytes \<Rightarrow> uchar list" where
  \<comment> \<open>the bytes stored at \<open>dst\<close>, the terminating zero included\<close>
  "copyshortname src = copyshortname_loop 11 0 src 0 [] @ [0]"

definition bcd :: "uchar \<Rightarrow> uchar" where
  "bcd data = drop_bit 4 data * 10 + (data AND 0xF)"

definition fat_getBIOSsecond :: "('a fsys_scheme, uchar) prog" where
  "fat_getBIOSsecond = kget (\<lambda>s. bcd (rtc s 0x00))"

definition fat_getBIOSminute :: "('a fsys_scheme, uchar) prog" where
  "fat_getBIOSminute = kget (\<lambda>s. bcd (rtc s 0x02))"

definition fat_getBIOShour :: "('a fsys_scheme, uchar) prog" where
  "fat_getBIOShour = kget (\<lambda>s. ucast ((ucast (drop_bit 4 (rtc s 0x04)) * 10 + ucast (rtc s 0x04 AND 0xF) + 8 :: uint) mod 24))"

definition fat_getBIOSday :: "('a fsys_scheme, uchar) prog" where
  "fat_getBIOSday = kget (\<lambda>s. bcd (rtc s 0x07))"

definition fat_getBIOSmonth :: "('a fsys_scheme, uchar) prog" where
  "fat_getBIOSmonth = kget (\<lambda>s. bcd (rtc s 0x08))"

definition fat_getBIOSyear :: "('a fsys_scheme, uchar) prog" where
  "fat_getBIOSyear = kget (\<lambda>s. bcd (rtc s 0x09))"

definition fat_getFirstSectorofCluster :: "BPB \<Rightarrow> uint \<Rightarrow> uint" where
  "fat_getFirstSectorofCluster bpb n =
     (n - 2) * ucast (SecPerClus bpb) + ucast (ResvdSecCnt bpb) + ucast (NumFATs bpb) * FATSz32 bpb"

definition fat_getFATEntry :: "BPB \<Rightarrow> uint \<Rightarrow> uint \<times> uint" where
  \<comment> \<open>the sector, and the offset stored through the pointer\<close>
  "fat_getFATEntry bpb n =
     (let off = n * 4 in
      (ucast (ResvdSecCnt bpb) + off div ucast (BytsPerSec bpb), off mod ucast (BytsPerSec bpb)))"

primrec chksum_loop :: "nat \<Rightarrow> bytes \<Rightarrow> nat \<Rightarrow> uchar \<Rightarrow> uchar" where
  "chksum_loop 0 nm p acc = acc"
| "chksum_loop (Suc n) nm p acc =
     chksum_loop n nm (Suc p) ((if acc AND 1 \<noteq> 0 then 0x80 else 0) + drop_bit 1 acc + nm p)"

definition fat_getChkSum :: "bytes \<Rightarrow> uchar" where
  "fat_getChkSum pFcbName = chksum_loop 11 pFcbName 0 0"

definition fat_getDIRType :: "bytes \<Rightarrow> nat \<Rightarrow> dirtype" where
  "fat_getDIRType d p =
     (if d p = 0xE5 \<or> d p = 0 then FAT_TYPE_EMPTY
      else if dir_attr d p AND 0x3F = 0x0F then FAT_TYPE_LNAME
      else if dir_attr d p AND 0x18 = 0x00 then FAT_TYPE_FILE
      else if dir_attr d p AND 0x18 = 0x10 then FAT_TYPE_DIR
      else if dir_attr d p AND 0x18 = 0x08 then FAT_TYPE_VOLLBL
      else FAT_TYPE_ERROR)"

definition fat_readbpb :: "uint \<Rightarrow> ('a bio_scheme, BPB) prog" where
  "fat_readbpb dev =
     kbind (bread dev 0) (\<lambda>bp.
     kbind (bdata bp) (\<lambda>d.
     kbind (brelse bp) (\<lambda>_.
     kret (bpb_of d))))"

definition fat_updateFATs :: "nat \<Rightarrow> ('a bio_scheme, unit) prog" where
  "fat_updateFATs sp =
     kbind (kget (\<lambda>s. (b_dev (bufs s sp), b_sector (bufs s sp)))) (\<lambda>(dev, sec).
     kbind (fat_readbpb dev) (\<lambda>bpb.
     kfor 1 (unat (NumFATs bpb) - 1) (\<lambda>i.
       kbind (bread dev (sec + of_nat i * FATSz32 bpb)) (\<lambda>tp.
       kbind (bdata sp) (\<lambda>d.
       kbind (bput tp d) (\<lambda>_.
       kbind (bwrite tp) (\<lambda>_.
       brelse tp)))))))"

section \<open>Walking a chain of clusters\<close>

definition fat_release :: "nat option \<Rightarrow> ('a bio_scheme, unit) prog" where
  \<comment> \<open>\<open>if (fp) brelse(fp)\<close>\<close>
  "fat_release fp = (case fp of None \<Rightarrow> kret () | Some f \<Rightarrow> brelse f)"

definition fat_flush :: "nat option \<Rightarrow> ('a bio_scheme, unit) prog" where
  \<comment> \<open>\<open>if (fp) { fat_updateFATs(fp); bwrite(fp); brelse(fp); }\<close>\<close>
  "fat_flush fp = (case fp of None \<Rightarrow> kret () | Some f \<Rightarrow>
     kbind (fat_updateFATs f) (\<lambda>_. kbind (bwrite f) (\<lambda>_. brelse f)))"

definition fat_locate :: "(nat option \<Rightarrow> ('a bio_scheme, unit) prog) \<Rightarrow> uint \<Rightarrow> BPB \<Rightarrow> uint \<Rightarrow> nat option \<times> uint \<Rightarrow>
    ('a bio_scheme, nat option \<times> uint \<times> uint) prog" where
  \<comment> \<open>\<open>fp\<close>, \<open>lastFatsect\<close> and \<open>secOff\<close> after ``Find FAT entry''; \<open>dropf\<close> is what is done to the old \<open>fp\<close>\<close>
  "fat_locate dropf dev bpb cno fpl =
     (let (cur, off) = fat_getFATEntry bpb cno in
      if cur \<noteq> snd fpl then
        kbind (dropf (fst fpl)) (\<lambda>_.
        kbind (bread dev cur) (\<lambda>fp.
        kret (Some fp, cur, off)))
      else kret (fst fpl, snd fpl, off))"

definition fat_entry :: "nat option \<Rightarrow> uint \<Rightarrow> ('a bio_scheme, uint) prog" where
  \<comment> \<open>\<open>*(uint*)(fp->data + secOff)\<close>\<close>
  "fat_entry fp off = (case fp of
     None \<Rightarrow> kpanic ''trap''
   | Some f \<Rightarrow> kbind (bdata f) (\<lambda>d. kret (ld32 d (unat off))))"

definition fat_put_entry :: "nat option \<Rightarrow> uint \<Rightarrow> uint \<Rightarrow> ('a bio_scheme, unit) prog" where
  \<comment> \<open>\<open>*(uint*)(fp->data + secOff) = v\<close>\<close>
  "fat_put_entry fp off v = (case fp of
     None \<Rightarrow> kpanic ''trap''
   | Some f \<Rightarrow> kbind (bdata f) (\<lambda>d. bput f (st32 d (unat off) v)))"

primrec fat_walk :: "nat \<Rightarrow> (nat option \<Rightarrow> ('a bio_scheme, unit) prog) \<Rightarrow> uint \<Rightarrow> BPB \<Rightarrow>
    (uint \<Rightarrow> nat \<Rightarrow> nat option \<times> uint \<Rightarrow> 'st \<Rightarrow> ('a bio_scheme, 'r + 'st) prog) \<Rightarrow> nat \<Rightarrow> uint \<Rightarrow> nat option \<times> uint \<Rightarrow> 'st \<Rightarrow>
    ('a bio_scheme, 'r + (nat option \<times> uint \<times> 'st)) prog" where
  \<comment> \<open>\<open>body cno si (fp, lastFatsect) st\<close> handles sector \<open>si\<close> of cluster \<open>cno\<close>, from sector \<open>si0\<close> in the first\<close>
  "fat_walk 0 dropf dev bpb body si0 cno fpl st = kdiverge"
| "fat_walk (Suc f) dropf dev bpb body si0 cno fpl st =
     kbind (kscan si0 (unat (SecPerClus bpb) - si0) (\<lambda>si st. body cno si fpl st) st) (\<lambda>r.
     case r of
       Inl x \<Rightarrow> kret (Inl x)
     | Inr st \<Rightarrow>
         kbind (fat_locate dropf dev bpb cno fpl) (\<lambda>(fp, lastf, off).
         kbind (fat_entry fp off) (\<lambda>cno.
         if isEOF cno then kret (Inr (fp, lastf, st))
         else fat_walk f dropf dev bpb body 0 cno (fp, lastf) st)))"

definition dir_find :: "bytes \<Rightarrow> uint \<Rightarrow> nat option" where
  \<comment> \<open>the first entry of a sector whose first cluster is \<open>inum\<close>\<close>
  "dir_find d inum = find (\<lambda>k. dir_clus d (32 * k) = inum) [0..<16]"

section \<open>Clusters\<close>

definition calloc_scan :: "uint \<Rightarrow> BPB \<Rightarrow> nat \<Rightarrow> nat option \<times> uint \<Rightarrow>
    ('a bio_scheme, (uint \<times> nat option \<times> uint) + (nat option \<times> uint)) prog" where
  \<comment> \<open>one round of the search loops of \<open>fat_calloc\<close>: leave with the cluster, \<open>bp\<close> and \<open>secOff\<close> if it is free\<close>
  "calloc_scan dev bpb c bpl =
     kbind (fat_locate fat_release dev bpb (of_nat c) bpl) (\<lambda>(bp, lastf, off).
     kbind (fat_entry bp off) (\<lambda>e.
     kret (if e = 0 then Inl (of_nat c, bp, off) else Inr (bp, lastf))))"

definition calloc_take :: "nat \<Rightarrow> (bytes \<Rightarrow> uint) \<Rightarrow> uint \<times> nat option \<times> uint \<Rightarrow> ('a bio_scheme, uint) prog" where
  \<comment> \<open>mark the cluster in use, update FSInfo with the new \<open>Nxt_Free\<close>\<close>
  "calloc_take bfsi nxt = (\<lambda>(c, bp, off).
     kbind (fat_put_entry bp off LAST_FAT_ENTRY) (\<lambda>_.
     kbind (fat_flush bp) (\<lambda>_.
     kbind (bdata bfsi) (\<lambda>d.
     kbind (bput bfsi (st32 (st32 d 492 (nxt d)) 488 (fsi_free d - 1))) (\<lambda>_.
     kbind (bwrite bfsi) (\<lambda>_.
     kbind (brelse bfsi) (\<lambda>_.
     kret c)))))))"

definition fat_calloc :: "uint \<Rightarrow> ('a bio_scheme, uint) prog" where
  "fat_calloc dev =
     kbind (fat_readbpb dev) (\<lambda>bpb.
     kbind (bread dev (ucast (FSInfo bpb))) (\<lambda>bfsi.
     kbind (bdata bfsi) (\<lambda>fsi.
     let n0 = unat (fsi_nxt fsi) in
     kbind (kscan n0 (unat (TotSec32 bpb div ucast (SecPerClus bpb)) - n0) (calloc_scan dev bpb) (None, 0)) (\<lambda>r.
     case r of
       Inl found \<Rightarrow> calloc_take bfsi (\<lambda>d. fsi_nxt d + 1) found
     | Inr bpl \<Rightarrow>
         kbind (kscan 2 (n0 - 2) (calloc_scan dev bpb) bpl) (\<lambda>r.
         case r of
           Inl found \<Rightarrow> calloc_take bfsi (\<lambda>d. fst found + 1) found
         | Inr _ \<Rightarrow> kpanic ''balloc: out of clusters'')))))"

definition fat_cclear :: "uint \<Rightarrow> uint \<Rightarrow> ('a bio_scheme, unit) prog" where
  "fat_cclear dev cluster =
     kbind (fat_readbpb dev) (\<lambda>bpb.
     let sec = fat_getFirstSectorofCluster bpb cluster in
     kfor 0 (unat (SecPerClus bpb)) (\<lambda>i.
       kbind (bread dev (sec + of_nat i)) (\<lambda>cp.
       kbind (bput cp zero_bytes) (\<lambda>_.
       kbind (bwrite cp) (\<lambda>_.
       brelse cp)))))"


section \<open>Inodes\<close>

definition fat_sector :: "BPB \<Rightarrow> uint \<Rightarrow> nat \<Rightarrow> uint" where
  "fat_sector bpb cno si = fat_getFirstSectorofCluster bpb cno + of_nat si"

definition fat_brelse :: "nat option \<Rightarrow> ('a bio_scheme, unit) prog" where
  \<comment> \<open>\<open>brelse(fp)\<close> without a test\<close>
  "fat_brelse fp = (case fp of None \<Rightarrow> kpanic ''trap'' | Some f \<Rightarrow> brelse f)"

definition fat_find_body :: "uint \<Rightarrow> BPB \<Rightarrow> uint \<Rightarrow> (nat \<Rightarrow> bytes \<Rightarrow> nat \<Rightarrow> uint \<Rightarrow> nat \<Rightarrow> nat option \<times> uint \<Rightarrow> ('a bio_scheme, 'r) prog) \<Rightarrow>
    uint \<Rightarrow> nat \<Rightarrow> nat option \<times> uint \<Rightarrow> unit \<Rightarrow> ('a bio_scheme, 'r + unit) prog" where
  \<comment> \<open>one sector of the loops that look for the entry of \<open>inum\<close>: \<open>found sp d k cno si fpl\<close> for entry \<open>k\<close>\<close>
  "fat_find_body dev bpb inum found cno si fpl st =
     kbind (bread dev (fat_sector bpb cno si)) (\<lambda>sp.
     kbind (bdata sp) (\<lambda>d.
     case dir_find d inum of
       Some k \<Rightarrow> kbind (found sp d k cno si fpl) (\<lambda>r. kret (Inl r))
     | None \<Rightarrow> kbind (brelse sp) (\<lambda>_. kret (Inr ()))))"

definition store_dir :: "inode \<Rightarrow> nat \<Rightarrow> bytes \<Rightarrow> bytes" where
  \<comment> \<open>the assignments of \<open>fat_iupdate\<close> to the entry at \<open>p\<close>\<close>
  "store_dir sin p d =
     (let d = st16 (st16 (d(p + 11 := fat_mapType (i_type sin))) (p + 16) (i_major sin)) (p + 14) (i_minor sin) in
      if i_size sin = 0 \<and> i_type sin \<noteq> T_DIR then (st32 d (p + 28) 1)(p + 13 := 0x5A)
      else st32 d (p + 28) (i_size sin))"

definition fat_iupdate :: "nat \<Rightarrow> ('a fsys_scheme, unit) prog" where
  "fat_iupdate ip =
     kbind (iinfo ip) (\<lambda>sin.
     kbind (fat_readbpb (i_dev sin)) (\<lambda>bpb.
     kbind (fat_walk CHAIN_FUEL fat_release (i_dev sin) bpb
         (fat_find_body (i_dev sin) bpb (i_inum sin) (\<lambda>sp d k cno si (fp, lastf).
            kbind (bput sp (store_dir sin (32 * k) d)) (\<lambda>_.
            kbind (bwrite sp) (\<lambda>_.
            kbind (brelse sp) (\<lambda>_.
            fat_release fp)))))
         0 (i_addrs sin 0) (None, 0) ()) (\<lambda>r.
     case r of Inl _ \<Rightarrow> kret () | Inr _ \<Rightarrow> kpanic ''iupdate DIR entry not found'')))"

definition load_dir :: "bytes \<Rightarrow> nat \<Rightarrow> inode \<Rightarrow> inode" where
  \<comment> \<open>the assignments of \<open>fat_ilock\<close> from the entry at \<open>p\<close>\<close>
  "load_dir d p i = i\<lparr>i_type := fat_mapAttr (dir_attr d p), i_major := ld16 d (p + 16), i_minor := ld16 d (p + 14),
     i_size := (if ld32 d (p + 28) = 1 \<and> d (p + 13) = 0x5A then 0 else ld32 d (p + 28)), i_nlink := 1\<rparr>"

definition fat_ilock :: "nat \<Rightarrow> ('a fsys_scheme, unit) prog" where
  "fat_ilock ip =
     kbind (iinfo ip) (\<lambda>sin.
     if i_ref sin < 1 then kpanic ''ilock''
     else if i_busy sin then kblock
     else
       kbind (iset ip (\<lambda>i. i\<lparr>i_busy := True\<rparr>)) (\<lambda>_.
       if i_inum sin = 2 then iset ip (\<lambda>i. i\<lparr>i_valid := True, i_type := T_DIR, i_nlink := 1\<rparr>)
       else if \<not> i_valid sin then
         kbind (fat_readbpb (i_dev sin)) (\<lambda>bpb.
         kbind (fat_walk CHAIN_FUEL fat_release (i_dev sin) bpb
             (fat_find_body (i_dev sin) bpb (i_inum sin) (\<lambda>sp d k cno si (fp, lastf).
                kbind (iset ip (load_dir d (32 * k))) (\<lambda>_.
                kbind (brelse sp) (\<lambda>_.
                kbind (fat_release fp) (\<lambda>_.
                kbind (iset ip (\<lambda>i. i\<lparr>i_valid := True\<rparr>)) (\<lambda>_.
                kbind (iinfo ip) (\<lambda>sin.
                if i_type sin = 0 then kpanic ''ilock: no type'' else kret ())))))))
             0 (i_addrs sin 0) (None, 0) ()) (\<lambda>r.
         case r of
           Inl _ \<Rightarrow> kret ()
         | Inr (fp, _, _) \<Rightarrow> kbind (fat_brelse fp) (\<lambda>_. iset ip (\<lambda>i. i\<lparr>i_valid := True\<rparr>))))
       else iset ip (\<lambda>i. i\<lparr>i_valid := True\<rparr>)))"

definition fat_iunlock :: "nat \<Rightarrow> ('a fsys_scheme, unit) prog" where
  "fat_iunlock ip =
     kbind (iinfo ip) (\<lambda>sin.
     if \<not> i_busy sin \<or> i_ref sin < 1 then kpanic ''iunlock''
     else iset ip (\<lambda>i. i\<lparr>i_busy := False\<rparr>))"

definition fat_cached :: "'a fsys_scheme \<Rightarrow> uint \<Rightarrow> uint \<Rightarrow> nat option" where
  "fat_cached s dev inum = find (\<lambda>ip. let i = icache s ip in
     i_fstype i = FAT_INODE \<and> i_ref i > 0 \<and> i_dev i = dev \<and> i_inum i = inum) [0..<NINODE]"

definition fat_iget :: "uint \<Rightarrow> uint \<Rightarrow> 16 word \<Rightarrow> uint \<Rightarrow> ('a fsys_scheme, nat) prog" where
  "fat_iget dev inum type dircluster =
     kbind (kget (\<lambda>s. (fat_cached s dev inum, iempty s))) (\<lambda>(cached, empty).
     case cached of
       Some ip \<Rightarrow> kbind (iset ip (\<lambda>i. i\<lparr>i_ref := i_ref i + 1\<rparr>)) (\<lambda>_. kret ip)
     | None \<Rightarrow>
         (case empty of
            None \<Rightarrow> kpanic ''iget: no inodes''
          | Some ip \<Rightarrow>
              kbind (iset ip (\<lambda>i. i\<lparr>i_dev := dev, i_inum := inum, i_ref := 1, i_busy := False, i_valid := False,
                                  i_addrs := (i_addrs i)(0 := dircluster)\<rparr>)) (\<lambda>_.
              kbind (if type \<noteq> 0 then iset ip (\<lambda>i. i\<lparr>i_type := type\<rparr>)
                     else kbind (fat_ilock ip) (\<lambda>_. fat_iunlock ip)) (\<lambda>_.
              kbind (iinfo ip) (\<lambda>tip.
              kbind (fat_get_ops (i_type tip)) (\<lambda>ops.
              kbind (inode_init ip ops FAT_INODE) (\<lambda>_.
              kret ip)))))))"

definition fat_idup :: "nat \<Rightarrow> ('a fsys_scheme, nat) prog" where
  "fat_idup ip = kbind (iset ip (\<lambda>i. i\<lparr>i_ref := i_ref i + 1\<rparr>)) (\<lambda>_. kret ip)"

definition erase_longname :: "bytes \<Rightarrow> uchar \<Rightarrow> nat \<Rightarrow> bytes" where
  \<comment> \<open>entries \<open>0 .. n - 1\<close> of a sector whose byte 13 is the checksum are marked deleted\<close>
  "erase_longname d chksum n = (\<lambda>p. if p < 32 * n \<and> p mod 32 = 0 \<and> d (p + 13) = chksum then 0xE5 else d p)"

primrec fat_free_chain :: "nat \<Rightarrow> uint \<Rightarrow> BPB \<Rightarrow> nat \<Rightarrow> uint \<Rightarrow> nat option \<times> uint \<Rightarrow> ('a bio_scheme, nat option) prog" where
  \<comment> \<open>the last loop of \<open>fat_itrunc\<close>; \<open>fsip\<close> is the buffer of FSInfo\<close>
  "fat_free_chain 0 dev bpb fsip cno fpl = kdiverge"
| "fat_free_chain (Suc f) dev bpb fsip cno fpl =
     kbind (fat_locate fat_flush dev bpb cno fpl) (\<lambda>(fp, lastf, off).
     kbind (fat_cclear dev cno) (\<lambda>_.
     kbind (fat_entry fp off) (\<lambda>cno.
     kbind (fat_put_entry fp off 0) (\<lambda>_.
     kbind (bdata fsip) (\<lambda>d.
     kbind (bput fsip (st32 d 488 (fsi_free d + 1))) (\<lambda>_.
     if isEOF cno then kret fp else fat_free_chain f dev bpb fsip cno (fp, lastf)))))))"

definition fat_drop_write :: "nat option \<Rightarrow> ('a bio_scheme, unit) prog" where
  \<comment> \<open>\<open>if (fp) { bwrite(fp); brelse(fp); }\<close>\<close>
  "fat_drop_write fp = (case fp of None \<Rightarrow> kret () | Some f \<Rightarrow> kbind (bwrite f) (\<lambda>_. brelse f))"

definition fat_itrunc :: "nat \<Rightarrow> ('a fsys_scheme, unit) prog" where
  "fat_itrunc ip =
     kbind (iinfo ip) (\<lambda>sin.
     let dev = i_dev sin in
     kbind (fat_readbpb dev) (\<lambda>bpb.
     kbind (fat_walk CHAIN_FUEL fat_drop_write dev bpb
         (fat_find_body dev bpb (i_inum sin) (\<lambda>sp d k cno si (fp, lastf).
            kbind (bput sp (d(32 * k := 0xE5))) (\<lambda>_.
            kbind (bwrite sp) (\<lambda>_.
            kbind (brelse sp) (\<lambda>_.
            kbind (fat_release fp) (\<lambda>_.
            kret (fat_getChkSum (\<lambda>i. d (32 * k + i)), (sp, k), si, cno, lastf)))))))
         0 (i_addrs sin 0) (None, 0) ()) (\<lambda>r.
     case r of
       Inr _ \<Rightarrow> kpanic ''iupdate DIR entry not found''
     | Inl (chksum, (spend, kend), siend, cnoend, lastf) \<Rightarrow>
         kbind (fat_walk CHAIN_FUEL fat_release dev bpb (\<lambda>cno si (fp, lastf) _.
             kbind (bread dev (fat_sector bpb cno si)) (\<lambda>sp.
             kbind (bdata sp) (\<lambda>d.
             if sp = spend \<and> siend = si \<and> cnoend = cno then
               kbind (bput sp (erase_longname d chksum (kend + 1))) (\<lambda>_.
               kbind (bwrite sp) (\<lambda>_.
               kbind (brelse sp) (\<lambda>_.
               kbind (fat_release fp) (\<lambda>_.
               kret (Inl lastf)))))
             else
               kbind (bput sp (erase_longname d chksum 16)) (\<lambda>_.
               kbind (brelse sp) (\<lambda>_.
               kret (Inr ()))))))
             0 (i_addrs sin 0) (None, lastf) ()) (\<lambda>r.
         kbind (case r of
             Inl lastf \<Rightarrow> kret lastf
           | Inr (fp, lastf, _) \<Rightarrow> kbind (fat_release fp) (\<lambda>_. kret lastf)) (\<lambda>lastf.
         kbind (bread dev (ucast (FSInfo bpb))) (\<lambda>fsip.
         kbind (fat_free_chain CHAIN_FUEL dev bpb fsip (i_inum sin) (None, lastf)) (\<lambda>fp.
         kbind (fat_flush fp) (\<lambda>_.
         kbind (bwrite fsip) (\<lambda>_.
         kbind (brelse fsip) (\<lambda>_.
         iset ip (\<lambda>i. i\<lparr>i_size := 0\<rparr>)))))))))))"

definition fat_iput :: "nat \<Rightarrow> ('a fsys_scheme, unit) prog" where
  "fat_iput ip =
     kbind (iinfo ip) (\<lambda>sin.
     kbind (if i_ref sin = 1 \<and> i_valid sin \<and> i_nlink sin = 0 then
         if i_busy sin then kpanic ''iput busy''
         else
           kbind (iset ip (\<lambda>i. i\<lparr>i_busy := True\<rparr>)) (\<lambda>_.
           kbind (fat_itrunc ip) (\<lambda>_.
           kbind (iset ip (\<lambda>i. i\<lparr>i_type := 0\<rparr>)) (\<lambda>_.
           iset ip (\<lambda>i. i\<lparr>i_busy := False, i_valid := False\<rparr>))))
       else kret ()) (\<lambda>_.
     iset ip (\<lambda>i. i\<lparr>i_ref := i_ref i - 1\<rparr>)))"

definition fat_iunlockput :: "nat \<Rightarrow> ('a fsys_scheme, unit) prog" where
  "fat_iunlockput ip = kbind (fat_iunlock ip) (\<lambda>_. fat_iput ip)"

section \<open>File contents\<close>

definition fat_stati :: "nat \<Rightarrow> ('a fsys_scheme, stat) prog" where
  "fat_stati ip = kbind (iinfo ip) (\<lambda>sin. kret \<lparr>st_type = i_type sin, st_dev = i_dev sin, st_ino = i_inum sin,
     st_nlink = i_nlink sin, st_size = i_size sin, st_fstype = i_fstype sin\<rparr>)"

definition clustersize :: "BPB \<Rightarrow> uint" where
  "clustersize bpb = ucast (SecPerClus bpb) * 512"

definition fat_read_sector :: "uint \<Rightarrow> BPB \<Rightarrow> uint \<Rightarrow> uint \<Rightarrow> nat \<Rightarrow> uint \<times> uint \<times> uchar list \<Rightarrow>
    ('a bio_scheme, (uint \<times> uint \<times> uchar list) + (uint \<times> uint \<times> uchar list)) prog" where
  \<comment> \<open>one round of the inner loop of \<open>fat_readi\<close> on \<open>(tot, off, dst)\<close>; leave when \<open>tot == n\<close>\<close>
  "fat_read_sector dev bpb n cno si = (\<lambda>(tot, off, dst).
     kbind (bread dev (fat_sector bpb cno si)) (\<lambda>sp.
     kbind (bdata sp) (\<lambda>d.
     kbind (brelse sp) (\<lambda>_.
     let m = chunk n tot off;
         st = (tot + m, off + m, dst @ bytes_of d (unat (off mod 512)) (unat m)) in
     kret (if tot + m = n then Inl st else Inr st)))))"

primrec fat_readi_loop :: "nat \<Rightarrow> uint \<Rightarrow> BPB \<Rightarrow> uint \<Rightarrow> uint \<Rightarrow> nat option \<times> uint \<Rightarrow> uint \<Rightarrow> uint \<times> uint \<times> uchar list \<Rightarrow>
    ('a bio_scheme, uint \<times> nat option \<times> uchar list) prog" where
  \<comment> \<open>\<open>n\<close>, \<open>fp\<close> and the bytes stored at \<open>dst\<close> when \<open>finish\<close> is reached\<close>
  "fat_readi_loop 0 dev bpb n cno fpl pos st = kdiverge"
| "fat_readi_loop (Suc f) dev bpb n cno fpl pos st =
     (let off = fst (snd st); si0 = unat ((off - pos) div 512) in
      kbind (if off < pos + clustersize bpb
             then kscan si0 (unat (SecPerClus bpb) - si0) (fat_read_sector dev bpb n cno) st
             else kret (Inr st)) (\<lambda>r.
      case r of
        Inl (_, _, dst) \<Rightarrow> kret (n, fst fpl, dst)
      | Inr st \<Rightarrow>
          kbind (fat_locate fat_release dev bpb cno fpl) (\<lambda>(fp, lastf, o').
          kbind (fat_entry fp o') (\<lambda>cno.
          if isEOF cno then kret (0, fp, snd (snd st))
          else fat_readi_loop f dev bpb n cno (fp, lastf) (pos + clustersize bpb) st))))"

definition fat_readi :: "nat \<Rightarrow> uint \<Rightarrow> uint \<Rightarrow> ('a fsys_scheme, int \<times> uchar list) prog" where
  "fat_readi ip off n =
     kbind (iinfo ip) (\<lambda>sin.
     if i_type sin = T_DEV then
       kbind (kget (\<lambda>s. dev_ok dv_read s (i_major sin))) (\<lambda>ok.
       if \<not> ok then kret (-1, []) else devsw_read (i_major sin) n)
     else if i_type sin \<noteq> T_DIR \<and> (off > i_size sin \<or> off + n < off) then kret (-1, [])
     else
       let n = (if i_type sin = T_DIR then 32 else if off + n > i_size sin then i_size sin - off else n) in
       kbind (fat_readbpb (i_dev sin)) (\<lambda>bpb.
       kbind (fat_readi_loop CHAIN_FUEL (i_dev sin) bpb n (i_inum sin) (None, 0) 0 (0, off, [])) (\<lambda>(n, fp, dst).
       kbind (fat_release fp) (\<lambda>_.
       kret (sint n, dst)))))"

definition fat_write_sector :: "uint \<Rightarrow> BPB \<Rightarrow> uchar list \<Rightarrow> uint \<Rightarrow> uint \<Rightarrow> nat \<Rightarrow> uint \<times> uint \<Rightarrow>
    ('a bio_scheme, (uint \<times> uint) + (uint \<times> uint)) prog" where
  \<comment> \<open>one round of the inner loop of \<open>fat_writei\<close> on \<open>(tot, off)\<close>\<close>
  "fat_write_sector dev bpb src n cno si = (\<lambda>(tot, off).
     kbind (bread dev (fat_sector bpb cno si)) (\<lambda>sp.
     kbind (bdata sp) (\<lambda>d.
     let m = chunk n tot off in
     kbind (bput sp (blit d (unat (off mod 512)) (cview src) (unat tot) (unat m))) (\<lambda>_.
     kbind (bwrite sp) (\<lambda>_.
     kbind (brelse sp) (\<lambda>_.
     let st = (tot + m, off + m) in
     kret (if tot + m = n then Inl st else Inr st)))))))"

primrec fat_writei_loop :: "nat \<Rightarrow> uint \<Rightarrow> BPB \<Rightarrow> uchar list \<Rightarrow> uint \<Rightarrow> uint \<Rightarrow> nat option \<times> uint \<Rightarrow> uint \<Rightarrow> uint \<times> uint \<Rightarrow>
    ('a bio_scheme, nat option \<times> uint) prog" where
  \<comment> \<open>\<open>fp\<close> and \<open>off\<close> when \<open>finish\<close> is reached\<close>
  "fat_writei_loop 0 dev bpb src n cno fpl pos st = kdiverge"
| "fat_writei_loop (Suc f) dev bpb src n cno fpl pos st =
     (let off = snd st; si0 = unat ((off - pos) div 512) in
      kbind (if off < pos + clustersize bpb
             then kscan si0 (unat (SecPerClus bpb) - si0) (fat_write_sector dev bpb src n cno) st
             else kret (Inr st)) (\<lambda>r.
      case r of
        Inl (_, off) \<Rightarrow> kret (fst fpl, off)
      | Inr st \<Rightarrow>
          kbind (fat_locate fat_flush dev bpb cno fpl) (\<lambda>(fp, lastf, o').
          kbind (fat_entry fp o') (\<lambda>cno.
          kbind (if isEOF cno then
              kbind (fat_release fp) (\<lambda>_.
              kbind (fat_calloc dev) (\<lambda>cno.
              kbind (bread dev lastf) (\<lambda>fp.
              kbind (fat_put_entry (Some fp) o' cno) (\<lambda>_.
              kret (cno, Some fp)))))
            else kret (cno, fp)) (\<lambda>(cno, fp).
          fat_writei_loop f dev bpb src n cno (fp, lastf) (pos + clustersize bpb) st)))))"

definition fat_writei :: "nat \<Rightarrow> uchar list \<Rightarrow> uint \<Rightarrow> uint \<Rightarrow> ('a fsys_scheme, int) prog" where
  "fat_writei ip src off n =
     kbind (iinfo ip) (\<lambda>sin.
     if i_type sin = T_DEV then
       kbind (kget (\<lambda>s. dev_ok dv_write s (i_major sin))) (\<lambda>ok.
       if \<not> ok then kret (-1) else devsw_write (i_major sin) (take (unat n) src))
     else if off > i_size sin \<or> off + n < off then kret (-1)
     else
       kbind (fat_readbpb (i_dev sin)) (\<lambda>bpb.
       kbind (fat_writei_loop CHAIN_FUEL (i_dev sin) bpb src n (i_inum sin) (None, 0) 0 (0, off)) (\<lambda>(fp, off).
       kbind (fat_flush fp) (\<lambda>_.
       kbind (if n > 0 \<and> off > i_size sin then
           kbind (iset ip (\<lambda>i. i\<lparr>i_size := off\<rparr>)) (\<lambda>_. fat_iupdate ip)
         else kret ()) (\<lambda>_.
       kret (sint n))))))"

section \<open>Names\<close>

definition fat_upper :: "uchar \<Rightarrow> uchar" where
  "fat_upper c = (if 97 \<le> c \<and> c \<le> 122 then c - 32 else c)"

definition fat_isvalid :: "uchar \<Rightarrow> bool" where
  \<comment> \<open>\<open>char\<close> is signed; the set is \<open>"*+,./:;<=>?[\]|\<close>\<close>
  "fat_isvalid c \<longleftrightarrow> \<not> (sint c \<le> 32 \<or> c = 127) \<and>
     c \<notin> {34, 42, 43, 44, 46, 47, 58, 59, 60, 61, 62, 63, 91, 92, 93, 124}"

definition shortchar :: "uchar \<Rightarrow> uchar" where
  "shortchar c = (if fat_isvalid c then fat_upper c else 95)"

definition dotpos :: "uchar list \<Rightarrow> nat" where
  \<comment> \<open>the position of the last dot, \<open>FAT_DIRSIZ\<close> if there is none\<close>
  "dotpos s = (case filter (\<lambda>i. s ! i = 46) [0..<length s] of [] \<Rightarrow> FAT_DIRSIZ | ps \<Rightarrow> last ps)"

definition fat_getshortname :: "uchar list \<Rightarrow> bytes \<Rightarrow> bytes" where
  \<comment> \<open>\<open>namebuff\<close> after the call. The first loop runs past the end of a name of less than
    six characters without a dot: the bytes there are taken as zero. \<open>extlen\<close> is never advanced.\<close>
  "fat_getshortname s namebuff =
     (let namelen = min 6 (dotpos s);
          base = map (\<lambda>i. shortchar (cview s i)) [0..<namelen];
          ext = (if dotpos s < length s then map shortchar (drop (dotpos s) s) else []);
          written = base @ [126, 49] @ ext;
          blank = (\<lambda>i. if i < 11 then 0x20 else namebuff i)
      in blit blank 0 (cview written) 0 (length written))"

fun fat_updatename_from :: "nat \<Rightarrow> bytes \<Rightarrow> bytes" where
  \<comment> \<open>the loop from index \<open>i\<close>; what it does before the start of the array is left out\<close>
  "fat_updatename_from i name =
     (if name i = 126 then (case i of 0 \<Rightarrow> name(0 := 49) | Suc j \<Rightarrow> name(i := 49, j := 126))
      else if name i + 1 > 57 then (case i of 0 \<Rightarrow> name(0 := 48) | Suc j \<Rightarrow> fat_updatename_from j (name(i := 48)))
      else name(i := name i + 1))"

definition fat_updatename :: "bytes \<Rightarrow> bytes" where
  "fat_updatename name = fat_updatename_from 7 name"

definition fat_namecmp :: "bytes \<Rightarrow> bytes \<Rightarrow> int" where
  "fat_namecmp s t = strncmp s t FAT_DIRSIZ"

section \<open>Directories\<close>

text \<open>
  The long-name state of \<open>fat_dirlookup\<close>: \<open>namebuf\<close>, \<open>chksum\<close>, \<open>ord\<close> and \<open>nbp\<close>. A name of more
  than nineteen entries runs below the start of \<open>namebuf\<close>; the model lets its index go negative.
\<close>

record lname =
  ln_buf :: "int \<Rightarrow> uchar"
  ln_chksum :: uchar
  ln_ord :: int
  ln_nbp :: int

definition ldir_char :: "bytes \<Rightarrow> nat \<Rightarrow> nat \<Rightarrow> uchar" where
  \<comment> \<open>character \<open>c < 13\<close> of the long-name entry at \<open>p\<close>, cut to a byte\<close>
  "ldir_char d p c = (if c < 5 then d (p + 1 + 2 * c) else if c < 11 then d (p + 14 + 2 * (c - 5)) else d (p + 28 + 2 * (c - 11)))"

definition lname_put :: "bytes \<Rightarrow> nat \<Rightarrow> lname \<Rightarrow> lname" where
  "lname_put d p st = st\<lparr>ln_nbp := ln_nbp st - 13,
     ln_buf := (\<lambda>i. if ln_nbp st - 13 \<le> i \<and> i < ln_nbp st then ldir_char d p (nat (i - (ln_nbp st - 13))) else ln_buf st i)\<rparr>"

definition lname_step :: "bytes \<Rightarrow> nat \<Rightarrow> lname \<Rightarrow> lname option" where
  \<comment> \<open>the case \<open>FAT_TYPE_LNAME\<close>; \<open>None\<close> is the panic\<close>
  "lname_step d p st =
     (if d p AND 0x40 \<noteq> 0 then
        Some (lname_put d p (st\<lparr>ln_nbp := int FAT_DIRSIZ - 1, ln_chksum := d (p + 13), ln_ord := uint (d p) - 0x40\<rparr>))
      else if ln_chksum st \<noteq> d (p + 13) then None
      else if ln_ord st - 1 \<noteq> uint (d p) then None
      else Some (lname_put d p (st\<lparr>ln_ord := ln_ord st - 1\<rparr>)))"

definition dir_matches :: "uchar list \<Rightarrow> bytes \<Rightarrow> nat \<Rightarrow> lname \<Rightarrow> bool" where
  "dir_matches name d p st \<longleftrightarrow>
     fat_namecmp (cview name) (\<lambda>i. ln_buf st (ln_nbp st + int i)) = 0
     \<or> strncmp (cview name) (\<lambda>i. d (p + i)) 11 = 0
     \<or> strncmp (cview name) (\<lambda>i. d (p + i)) (length name) = 0"

datatype dirscan = Scan_panic string | Scan_found nat | Scan_next lname

primrec dirlookup_scan :: "nat \<Rightarrow> nat \<Rightarrow> uchar list \<Rightarrow> bytes \<Rightarrow> lname \<Rightarrow> dirscan" where
  \<comment> \<open>the entries of one sector, from entry \<open>k\<close>, \<open>n\<close> to go\<close>
  "dirlookup_scan 0 k name d st = Scan_next st"
| "dirlookup_scan (Suc n) k name d st =
     (case fat_getDIRType d (32 * k) of
        FAT_TYPE_VOLLBL \<Rightarrow> dirlookup_scan n (Suc k) name d st
      | FAT_TYPE_EMPTY \<Rightarrow> dirlookup_scan n (Suc k) name d st
      | FAT_TYPE_ERROR \<Rightarrow> Scan_panic ''dirlookup wrong DIR entry''
      | FAT_TYPE_LNAME \<Rightarrow>
          (case lname_step d (32 * k) st of
             None \<Rightarrow> Scan_panic ''dirlookup long filename wrong''
           | Some st \<Rightarrow> dirlookup_scan n (Suc k) name d st)
      | _ \<Rightarrow> if dir_matches name d (32 * k) st then Scan_found k else dirlookup_scan n (Suc k) name d st)"

definition set_dir_clus :: "bytes \<Rightarrow> nat \<Rightarrow> uint \<Rightarrow> bytes" where
  "set_dir_clus d p inum = st16 (st16 d (p + 20) (ucast (drop_bit 16 inum))) (p + 26) (ucast inum)"

definition dirlookup_found :: "nat \<Rightarrow> nat \<Rightarrow> bytes \<Rightarrow> nat \<Rightarrow> nat option \<Rightarrow> ('a fsys_scheme, nat) prog" where
  \<comment> \<open>entry \<open>k\<close> of the sector in \<open>sp\<close> matches\<close>
  "dirlookup_found dp sp d k fp =
     kbind (iinfo dp) (\<lambda>fdp.
     let inum = dir_clus d (32 * k) in
     kbind (if inum \<noteq> 0 then kret inum
            else if strncmp (cview [46, 46]) (\<lambda>i. d (32 * k + i)) 2 = 0 then kret 2
            else
              kbind (fat_calloc (i_dev fdp)) (\<lambda>inum.
              kbind (bput sp ((st32 (set_dir_clus d (32 * k) inum) (32 * k + 28) 1)(32 * k + 13 := 0x5A))) (\<lambda>_.
              kbind (bwrite sp) (\<lambda>_.
              kret inum)))) (\<lambda>inum.
     kbind (fat_release fp) (\<lambda>_.
     kbind (brelse sp) (\<lambda>_.
     fat_iget (i_dev fdp) inum 0 (i_inum fdp)))))"

definition fat_dirlookup :: "nat \<Rightarrow> uchar list \<Rightarrow> ('a fsys_scheme, nat option) prog" where
  "fat_dirlookup dp name =
     kbind (iinfo dp) (\<lambda>fdp.
     if i_type fdp \<noteq> T_DIR then kpanic ''dirlookup not DIR''
     else if i_inum fdp = 2 \<and> strncmp (cview name) (cview [46, 46]) 2 = 0 then kret (Some dp)
     else
       kbind (fat_readbpb (i_dev fdp)) (\<lambda>bpb.
       kbind (fat_walk CHAIN_FUEL fat_release (i_dev fdp) bpb (\<lambda>cno si (fp, lastf) st.
           kbind (bread (i_dev fdp) (fat_sector bpb cno si)) (\<lambda>sp.
           kbind (bdata sp) (\<lambda>d.
           case dirlookup_scan 16 0 name d st of
             Scan_panic msg \<Rightarrow> kpanic msg
           | Scan_found k \<Rightarrow> kbind (dirlookup_found dp sp d k fp) (\<lambda>ip. kret (Inl ip))
           | Scan_next st \<Rightarrow> kbind (brelse sp) (\<lambda>_. kret (Inr st)))))
           0 (i_inum fdp) (None, 0) \<lparr>ln_buf = (\<lambda>_. 0), ln_chksum = 0, ln_ord = 0, ln_nbp = 0\<rparr>) (\<lambda>r.
       case r of
         Inl ip \<Rightarrow> kret (Some ip)
       | Inr (fp, _, _) \<Rightarrow> kbind (fat_brelse fp) (\<lambda>_. kret None))))"

definition fat_inumtoname :: "nat \<Rightarrow> uint \<Rightarrow> ('a fsys_scheme, uchar list option) prog" where
  \<comment> \<open>the bytes stored at \<open>name\<close>, or \<open>None\<close> for the return value -1\<close>
  "fat_inumtoname dp inum =
     kbind (iinfo dp) (\<lambda>fdp.
     kbind (fat_readbpb (i_dev fdp)) (\<lambda>bpb.
     kbind (fat_walk CHAIN_FUEL fat_release (i_dev fdp) bpb
         (fat_find_body (i_dev fdp) bpb inum (\<lambda>sp d k cno si (fp, lastf).
            kbind (fat_release fp) (\<lambda>_.
            kbind (brelse sp) (\<lambda>_.
            kret (copyshortname (\<lambda>i. d (32 * k + i)))))))
         0 (i_inum fdp) (None, 0) ()) (\<lambda>r.
     case r of
       Inl name \<Rightarrow> kret (Some name)
     | Inr (fp, _, _) \<Rightarrow> kbind (fat_brelse fp) (\<lambda>_. kret None))))"

primrec fat_getpath_loop ::
  "nat \<Rightarrow> nat \<Rightarrow> int \<Rightarrow> nat \<Rightarrow> bytes \<Rightarrow> ('a fsys_scheme, (int \<times> nat) option \<times> bytes) prog" where
  "fat_getpath_loop 0 node pos ptr path = kdiverge"
| "fat_getpath_loop (Suc f) node pos ptr path =
     kbind (fat_dirlookup node [46, 46]) (\<lambda>r.
     case r of
       None \<Rightarrow> kbind (fat_iput node) (\<lambda>_. kret (None, path))
     | Some parent \<Rightarrow>
         kbind (iinfo node) (\<lambda>fin.
         kbind (fat_iput node) (\<lambda>_.
         if node = parent then kbind (fat_iput node) (\<lambda>_. kret (Some (pos, ptr), path))
         else
           kbind (fat_inumtoname parent (i_inum fin)) (\<lambda>r.
           case r of
             None \<Rightarrow> kbind (fat_iput parent) (\<lambda>_. kret (None, path))
           | Some name \<Rightarrow>
               let namelen = length (takeWhile (\<lambda>c. c \<noteq> 0) name) + 1 in
               if int namelen > pos then kret (None, path)
               else
                 let ptr = ptr - namelen;
                     path = (blit path ptr (cview name) 0 (namelen - 1))(ptr + namelen - 1 := 47)
                 in fat_getpath_loop f parent (pos - int namelen) ptr path))))"

definition fat_getpath :: "nat \<Rightarrow> bytes \<Rightarrow> int \<Rightarrow> ('a fsys_scheme, int \<times> bytes) prog" where
  "fat_getpath node path maxlen =
     kbind (fat_idup node) (\<lambda>_.
     kbind (fat_getpath_loop (Suc (nat maxlen)) node (maxlen - 2) (nat maxlen) path) (\<lambda>(r, path).
     case r of
       None \<Rightarrow> kret (-1, path)
     | Some (pos, ptr) \<Rightarrow>
         let namelen = nat (maxlen - pos - 2);
             path = memmove path 5 ptr namelen;
             path = path(4 := 47, 3 := 58, 2 := 116, 1 := 97, 0 := 102);
             path = path(5 + namelen := 0)
         in kret (0, path)))"

text \<open>
  \<open>fat_dirlink\<close>. The buffers \<open>dbuf\<close> and \<open>ldbuf\<close> are blocks of 32 bytes; what the source leaves
  uninitialised in \<open>dbuf\<close> is taken as zero.
\<close>

primrec put_names :: "nat \<Rightarrow> nat \<Rightarrow> (nat \<Rightarrow> ushort) \<Rightarrow> nat \<Rightarrow> bytes \<Rightarrow> bytes" where
  \<comment> \<open>\<open>for (j = 0; j < n; ++j) Name[j] = a[j]\<close>\<close>
  "put_names k 0 a p d = d"
| "put_names k (Suc n) a p d = put_names (Suc k) n a p (st16 d (p + 2 * k) (a k))"

definition longname_chars :: "uchar list \<Rightarrow> nat \<Rightarrow> ushort" where
  \<comment> \<open>\<open>namebuf\<close>\<close>
  "longname_chars name i = (if i < length name then scast (name ! i) else if i = length name then 0
     else if i < FAT_DIRSIZ then 0xFFFF else 0)"

definition ldbuf :: "uchar list \<Rightarrow> uchar \<Rightarrow> nat \<Rightarrow> nat \<Rightarrow> bytes" where
  "ldbuf name chksum dbnum i =
     (let a = (\<lambda>j. longname_chars name (13 * (dbnum - i - 1) + j));
          d = put_names 0 5 a 1 zero_bytes;
          d = put_names 0 6 (\<lambda>j. a (5 + j)) 14 d;
          d = put_names 0 2 (\<lambda>j. a (11 + j)) 28 d
      in d(0 := of_nat (dbnum - i) OR (if i = 0 then 0x40 else 0), 11 := 0x0F, 12 := 0, 13 := chksum))"

definition longname_count :: "uchar list \<Rightarrow> nat" where
  "longname_count name = (length name - 1) div 13 + 1"

definition NAME_FUEL :: nat where "NAME_FUEL = 2 ^ 64"

primrec fresh_shortname :: "nat \<Rightarrow> nat \<Rightarrow> bytes \<Rightarrow> ('a fsys_scheme, bytes) prog" where
  \<comment> \<open>\<open>while ((tip = fat_dirlookup(dp, dbuf.Name, 0)) != 0)\<close>; the loop changes eight bytes, so that a
    run of \<open>2 ^ 64\<close> rounds is one that never ends\<close>
  "fresh_shortname 0 dp dbuf = kdiverge"
| "fresh_shortname (Suc f) dp dbuf =
     kbind (fat_dirlookup dp (cstr_upto FAT_DIRSIZ dbuf)) (\<lambda>tip.
     case tip of
       None \<Rightarrow> kret dbuf
     | Some tip \<Rightarrow> kbind (fat_iput tip) (\<lambda>_. fresh_shortname f dp (fat_updatename dbuf)))"

definition dot_shortname :: "uchar list \<Rightarrow> bytes" where
  "dot_shortname name = (let d = (\<lambda>i. if i < 11 then 0x20 else 0) in
     if cview name 1 \<noteq> 0 then d(0 := 46, 1 := 46) else d(0 := 46))"

definition fill_dbuf :: "inode \<Rightarrow> uchar \<times> uchar \<times> uchar \<times> uchar \<times> uchar \<times> uchar \<Rightarrow> bytes \<Rightarrow> bytes" where
  \<comment> \<open>the assignments to \<open>dbuf\<close> from \<open>Attr\<close> to \<open>FileSize\<close>; the clock as (year, month, day, hour, minute, second)\<close>
  "fill_dbuf fip = (\<lambda>(yy, mo, dd, hh, mi, ss) d.
     let d = d(11 := ucast (i_type fip), 12 := 0);
         date = push_bit 9 (ucast yy + 20) OR push_bit 5 (ucast mo) OR ucast dd :: ushort;
         time = push_bit 11 (ucast hh) OR push_bit 5 (ucast mi) OR ucast (ss div 2) :: ushort;
         d = (if i_type fip AND 3 \<noteq> 0 then
                st16 (st16 (d(13 := 0)) 16 (if drop_bit 11 time < 8 then date + 1 else date)) 14 time
              else d(13 := 0));
         d = st16 d 18 0;
         d = (if i_inum fip = 2 then set_dir_clus d 0 0 else set_dir_clus d 0 (i_inum fip));
         d = st16 d 22 (ld16 d 14);
         d = st16 d 24 (ld16 d 16)
     in st32 d 28 (i_size fip))"

text \<open>The search for a run of free entries: \<open>last\<close>, \<open>cnt\<close>, \<open>cno0\<close>, \<open>si0\<close>, \<open>de0\<close>, and how often the sector made
  \<open>fdp->size\<close> grow by an entry.\<close>

record slot =
  sl_last :: bool
  sl_cnt :: nat
  sl_cno :: uint
  sl_si :: nat
  sl_de :: nat
  sl_grow :: nat

primrec slot_scan :: "nat \<Rightarrow> nat \<Rightarrow> bytes \<Rightarrow> nat \<Rightarrow> uint \<Rightarrow> nat \<Rightarrow> slot \<Rightarrow> bool \<times> slot" where
  \<comment> \<open>the entries of one sector, from entry \<open>k\<close>, \<open>n\<close> to go; whether the search is over\<close>
  "slot_scan 0 k d dbnum cno si st = (False, st)"
| "slot_scan (Suc n) k d dbnum cno si st =
     (let here = st\<lparr>sl_cno := cno, sl_si := si, sl_de := 32 * k\<rparr> in
      if fat_getDIRType d (32 * k) = FAT_TYPE_EMPTY then
        if dbnum = 0 then (True, here)
        else if sl_last st then
          if sl_cnt st = dbnum then (True, st\<lparr>sl_cnt := sl_cnt st + 1, sl_grow := sl_grow st + 1\<rparr>)
          else slot_scan n (Suc k) d dbnum cno si (st\<lparr>sl_cnt := sl_cnt st + 1, sl_last := True\<rparr>)
        else slot_scan n (Suc k) d dbnum cno si (here\<lparr>sl_cnt := 1, sl_grow := sl_grow st + 1, sl_last := True\<rparr>)
      else slot_scan n (Suc k) d dbnum cno si (st\<lparr>sl_last := False\<rparr>))"

definition slot_sector :: "nat \<Rightarrow> uint \<Rightarrow> BPB \<Rightarrow> nat \<Rightarrow> uint \<Rightarrow> nat option \<Rightarrow> nat \<Rightarrow> slot \<Rightarrow> ('a fsys_scheme, slot + slot) prog" where
  "slot_sector dp dev bpb dbnum cno fp si st =
     kbind (bread dev (fat_sector bpb cno si)) (\<lambda>sp.
     kbind (bdata sp) (\<lambda>d.
     let (found, st) = slot_scan 16 0 d dbnum cno si (st\<lparr>sl_grow := 0\<rparr>) in
     kbind (bwrite sp) (\<lambda>_.
     kbind (brelse sp) (\<lambda>_.
     kbind (if found then fat_flush fp else kret ()) (\<lambda>_.
     kbind (iset dp (\<lambda>i. i\<lparr>i_size := i_size i + 32 * of_nat (sl_grow st)\<rparr>)) (\<lambda>_.
     kret (if found then Inl st else Inr st)))))))"

primrec find_slot :: "nat \<Rightarrow> nat \<Rightarrow> uint \<Rightarrow> BPB \<Rightarrow> nat \<Rightarrow> uint \<Rightarrow> nat option \<times> uint \<Rightarrow> slot \<Rightarrow> ('a fsys_scheme, slot \<times> uint) prog" where
  \<comment> \<open>the slot, and \<open>lastFatsect\<close>\<close>
  "find_slot 0 dp dev bpb dbnum cno fpl st = kdiverge"
| "find_slot (Suc f) dp dev bpb dbnum cno fpl st =
     kbind (kscan 0 (unat (SecPerClus bpb)) (slot_sector dp dev bpb dbnum cno (fst fpl)) st) (\<lambda>r.
     case r of
       Inl st \<Rightarrow> kret (st, snd fpl)
     | Inr st \<Rightarrow>
         kbind (fat_locate fat_flush dev bpb cno fpl) (\<lambda>(fp, lastf, off).
         kbind (fat_entry fp off) (\<lambda>cno.
         kbind (if isEOF cno then
             kbind (fat_calloc dev) (\<lambda>cno.
             kbind (fat_put_entry fp off cno) (\<lambda>_.
             kret cno))
           else kret cno) (\<lambda>cno.
         find_slot f dp dev bpb dbnum cno (fp, lastf) st))))"

definition fill_sector :: "bytes \<Rightarrow> nat \<Rightarrow> nat \<Rightarrow> (nat \<Rightarrow> bytes) \<Rightarrow> bytes \<Rightarrow> bytes" where
  \<comment> \<open>a sector after the inner loop of the second phase: entry \<open>i\<close> of the name goes to \<open>de0 + 32 * i\<close>\<close>
  "fill_sector d de0 dbnum ld dbuf = (\<lambda>p.
     if de0 \<le> p \<and> p < 512 \<and> (p - de0) div 32 \<le> dbnum then
       (let i = (p - de0) div 32; b = (p - de0) mod 32 in if i = dbnum then dbuf b else ld i b)
     else d p)"

definition fat_dirlink :: "nat \<Rightarrow> uchar list \<Rightarrow> nat \<Rightarrow> ('a fsys_scheme, int) prog" where
  "fat_dirlink dp name ip =
     kbind (fat_dirlookup dp name) (\<lambda>tip.
     case tip of
       Some tip \<Rightarrow> kbind (fat_iput tip) (\<lambda>_. kret (-1))
     | None \<Rightarrow>
         let long = (strncmp (cview name) (cview [46]) 1 \<noteq> 0 \<and> strncmp (cview name) (cview [46, 46]) 2 \<noteq> 0);
             dbnum = (if long then longname_count name else 0) in
         kbind (if long then fresh_shortname NAME_FUEL dp (fat_getshortname name zero_bytes)
                else kret (dot_shortname name)) (\<lambda>dbuf.
         let chksum = fat_getChkSum dbuf in
         kbind (iinfo ip) (\<lambda>fip.
         kbind fat_getBIOSyear (\<lambda>yy. kbind fat_getBIOSmonth (\<lambda>mo. kbind fat_getBIOSday (\<lambda>dd.
         kbind fat_getBIOShour (\<lambda>hh. kbind fat_getBIOSminute (\<lambda>mi. kbind fat_getBIOSsecond (\<lambda>ss.
         let dbuf = fill_dbuf fip (yy, mo, dd, hh, mi, ss) dbuf in
         kbind (iinfo dp) (\<lambda>fdp.
         let dev = i_dev fdp in
         kbind (fat_readbpb dev) (\<lambda>bpb.
         kbind (find_slot CHAIN_FUEL dp dev bpb dbnum (i_inum fdp) (None, 0)
             \<lparr>sl_last = False, sl_cnt = 0, sl_cno = 0, sl_si = 0, sl_de = 0, sl_grow = 0\<rparr>) (\<lambda>(st, lastf).
         kbind (iset dp (\<lambda>i. i\<lparr>i_size := i_size i + 32\<rparr>)) (\<lambda>_.
         kbind (fat_walk CHAIN_FUEL fat_release dev bpb (\<lambda>cno si (fp, _) de0.
             kbind (bread dev (fat_sector bpb cno si)) (\<lambda>sp.
             kbind (bdata sp) (\<lambda>d.
             kbind (bput sp (fill_sector d de0 dbnum (ldbuf name chksum dbnum) dbuf)) (\<lambda>_.
             kbind (bwrite sp) (\<lambda>_.
             kbind (brelse sp) (\<lambda>_.
             if de0 + 32 * dbnum < 512 then kbind (fat_release fp) (\<lambda>_. kret (Inl ()))
             else kret (Inr 0)))))))
             (sl_si st) (sl_cno st) (None, lastf) (sl_de st)) (\<lambda>r.
         case r of Inl _ \<Rightarrow> kret 0 | Inr _ \<Rightarrow> kpanic ''dirlink''))))))))))))))"

section \<open>Paths\<close>

definition fat_skipelem :: "uchar list \<Rightarrow> (uchar list \<times> uchar list) option" where
  "fat_skipelem path =
     (let path = dropWhile (\<lambda>c. c = 47) path in
      if path = [] then None
      else
        let elem = takeWhile (\<lambda>c. c \<noteq> 47) path; rest = dropWhile (\<lambda>c. c \<noteq> 47) path in
        Some (take FAT_DIRSIZ elem, dropWhile (\<lambda>c. c = 47) rest))"

primrec fat_namex_loop :: "nat \<Rightarrow> nat \<Rightarrow> uchar list \<Rightarrow> bool \<Rightarrow> uchar list \<Rightarrow> ('a fsys_scheme, nat option \<times> uchar list) prog" where
  "fat_namex_loop 0 ip path nameiparent name = kdiverge"
| "fat_namex_loop (Suc f) ip path nameiparent name =
     (case fat_skipelem path of
        None \<Rightarrow>
          if nameiparent then kbind (fat_iput ip) (\<lambda>_. kret (None, name)) else kret (Some ip, name)
      | Some (name, path) \<Rightarrow>
          kbind (fat_ilock ip) (\<lambda>_.
          kbind (iinfo ip) (\<lambda>fip.
          if i_type fip \<noteq> T_DIR then kbind (fat_iunlockput ip) (\<lambda>_. kret (None, name))
          else if nameiparent \<and> path = [] then kbind (fat_iunlock ip) (\<lambda>_. kret (Some ip, name))
          else
            kbind (fat_dirlookup ip name) (\<lambda>next.
            case next of
              None \<Rightarrow> kbind (fat_iunlockput ip) (\<lambda>_. kret (None, name))
            | Some next \<Rightarrow>
                kbind (fat_iunlockput ip) (\<lambda>_.
                fat_namex_loop f next path nameiparent name)))))"

definition fat_namex :: "nat \<Rightarrow> uchar list \<Rightarrow> bool \<Rightarrow> ('a fsys_scheme, nat option \<times> uchar list) prog" where
  "fat_namex ip path nameiparent =
     kbind (kget (\<lambda>s. i_inum (icache s (p_cwd s)))) (\<lambda>cinum.
     let path = (if cview path 0 = 46 \<and> cinum = 2 then tl path else path) in
     fat_namex_loop (Suc (length path)) ip path nameiparent [])"

definition fat_namei :: "nat \<Rightarrow> uchar list \<Rightarrow> ('a fsys_scheme, nat option) prog" where
  "fat_namei node path = kbind (fat_namex node path False) (\<lambda>(ip, _). kret ip)"

definition fat_nameiparent :: "nat \<Rightarrow> uchar list \<Rightarrow> ('a fsys_scheme, nat option \<times> uchar list) prog" where
  "fat_nameiparent node path = fat_namex node path True"

section \<open>The remaining operations\<close>

definition fat_isdirempty :: "nat \<Rightarrow> ('a fsys_scheme, bool) prog" where
  "fat_isdirempty dp =
     kbind (iinfo dp) (\<lambda>fdp.
     kbind (ksearch 2 ((unat (i_size fdp) + 31) div 32 - 2) (\<lambda>k.
       kbind (fat_readi dp (of_nat (32 * k)) 32) (\<lambda>(r, de).
       if r \<noteq> 32 then kpanic ''isdirempty: readi''
       else kret (if cview de 0 \<noteq> 0xE5 \<and> cview de 0 \<noteq> 0 then Some () else None)))) (\<lambda>r.
     kret (r = None)))"

definition fat_link_inc :: "nat \<Rightarrow> ('a fsys_scheme, nat) prog" where
  "fat_link_inc ip = kbind (iset ip (\<lambda>i. i\<lparr>i_nlink := i_nlink i + 1\<rparr>)) (\<lambda>_. kret ip)"

definition fat_link_dec :: "nat \<Rightarrow> ('a fsys_scheme, nat) prog" where
  "fat_link_dec ip = kbind (iset ip (\<lambda>i. i\<lparr>i_nlink := i_nlink i - 1\<rparr>)) (\<lambda>_. kret ip)"

definition fat_create_inode ::
  "nat \<Rightarrow> 16 word \<Rightarrow> 16 word \<Rightarrow> 16 word \<Rightarrow> uchar list \<Rightarrow> ('a fsys_scheme, nat) prog" where
  "fat_create_inode dirnode type major minor name =
     kbind (iinfo dirnode) (\<lambda>dp.
     kbind (fat_calloc (i_dev dp)) (\<lambda>c.
     kbind (fat_iget (i_dev dp) c type (i_inum dp)) (\<lambda>ip.
     kbind (iset ip (\<lambda>i. i\<lparr>i_major := major, i_minor := minor, i_size := 0, i_nlink := 1\<rparr>)) (\<lambda>_.
     kbind (if type = T_DIR then
         kbind (fat_dirlink ip [46] ip) (\<lambda>r.
         if r < 0 then kpanic ''create dots''
         else kbind (fat_dirlink ip [46, 46] dirnode) (\<lambda>r.
           if r < 0 then kpanic ''create dots'' else kret ()))
       else kret ()) (\<lambda>_.
     kbind (fat_dirlink dirnode name ip) (\<lambda>r.
     if r < 0 then kpanic ''create: dirlink''
     else
       kbind (fat_ilock ip) (\<lambda>_.
       kbind (fat_iupdate ip) (\<lambda>_.
       kbind (if i_inum dp \<noteq> 2 then fat_iupdate dirnode else kret ()) (\<lambda>_.
       kret ip)))))))))"

definition fat_opendir :: "nat \<Rightarrow> uint \<Rightarrow> ('a fsys_scheme, int) prog" where
  "fat_opendir node open_flags = kret (if open_flags \<noteq> 0 then -1 else 0)"

definition fat_openfile :: "nat \<Rightarrow> uint \<Rightarrow> ('a fsys_scheme, int) prog" where
  "fat_openfile node open_flags = kret 0"

definition fat_gettype :: "nat \<Rightarrow> ('a fsys_scheme, 16 word) prog" where
  "fat_gettype node = kbind (iinfo node) (\<lambda>i. kret (i_type i))"

definition fat_getdev :: "nat \<Rightarrow> ('a fsys_scheme, uint) prog" where
  "fat_getdev node = kbind (iinfo node) (\<lambda>i. kret (i_dev i))"

definition fat_getnlink :: "nat \<Rightarrow> ('a fsys_scheme, 16 word) prog" where
  "fat_getnlink node = kbind (iinfo node) (\<lambda>i. kret (i_nlink i))"

definition fat_getmajor :: "nat \<Rightarrow> ('a fsys_scheme, 16 word) prog" where
  "fat_getmajor node = kbind (iinfo node) (\<lambda>i. kret (i_major i))"

definition fat_getminor :: "nat \<Rightarrow> ('a fsys_scheme, 16 word) prog" where
  "fat_getminor node = kbind (iinfo node) (\<lambda>i. kret (i_minor i))"

definition fat_unlink :: "nat \<Rightarrow> uchar list \<Rightarrow> ('a fsys_scheme, int) prog" where
  "fat_unlink dp name =
     kbind (fat_ilock dp) (\<lambda>_.
     if fat_namecmp (cview name) (cview [46]) = 0 \<or> fat_namecmp (cview name) (cview [46, 46]) = 0 then
       kbind (fat_iunlockput dp) (\<lambda>_. kret (-1))
     else
       kbind (fat_dirlookup dp name) (\<lambda>r.
       case r of
         None \<Rightarrow> kbind (fat_iunlockput dp) (\<lambda>_. kret (-1))
       | Some ip \<Rightarrow>
           kbind (fat_ilock ip) (\<lambda>_.
           kbind (iinfo ip) (\<lambda>fip.
           kbind (iset dp (\<lambda>i. i\<lparr>i_size := i_size i - (i_size fip + 32)\<rparr>)) (\<lambda>_.
           if sint (i_nlink fip) < 1 then kpanic ''unlink: nlink < 1''
           else
             kbind (if i_type fip = T_DIR then fat_isdirempty ip else kret True) (\<lambda>empty.
             if \<not> empty then
               kbind (fat_iunlockput ip) (\<lambda>_. kbind (fat_iunlockput dp) (\<lambda>_. kret (-1)))
             else
               kbind (fat_iunlockput dp) (\<lambda>_.
               kbind (fat_link_dec ip) (\<lambda>_.
               kbind (fat_iupdate ip) (\<lambda>_.
               kbind (iinfo dp) (\<lambda>fdp.
               kbind (if i_inum fdp \<noteq> 2 then fat_iupdate dp else kret ()) (\<lambda>_.
               kbind (fat_iunlockput ip) (\<lambda>_.
               kret 0))))))))))))"

definition fat_get_root :: "('a fsys_scheme, nat) prog" where
  "fat_get_root = fat_iget 2 2 T_DIR 0"

end
