(* ===== verification/Vfs.thy ===== *)
theory Vfs
  imports Fat
begin

text \<open>
  The virtual file system: the operation tables through which every caller reaches a file system (the macros of
  \<^verbatim>\<open>fs/vfs/inode.h\<close> and the tables at the end of \<^verbatim>\<open>sfs_inode.c\<close> and \<^verbatim>\<open>fat_inode.c\<close>), and path lookup
  (\<^verbatim>\<open>fs/vfs/vfs.c\<close>).

  Calling through an inode without a table, or an entry that its table leaves out, jumps to address 0: \<open>Panic ''trap''\<close>. A
  pointer variable that was never assigned is \<open>None\<close>.
\<close>

section \<open>Operation tables\<close>

definition sfs_ops :: "inode_ops \<Rightarrow> bool" where
  "sfs_ops ops \<longleftrightarrow> ops = sfs_node_dirops \<or> ops = sfs_node_fileops"

definition dir_ops :: "inode_ops \<Rightarrow> bool" where
  "dir_ops ops \<longleftrightarrow> ops = sfs_node_dirops \<or> ops = fat_node_dirops"

definition vop_op :: "nat \<Rightarrow> (inode_ops \<Rightarrow> ('a fsys_scheme, 'b) prog option) \<Rightarrow> ('a fsys_scheme, 'b) prog" where
  "vop_op node entry = kbind (iinfo node) (\<lambda>i. case i_ops i of None \<Rightarrow> kpanic ''trap''
     | Some ops \<Rightarrow> (case entry ops of None \<Rightarrow> kpanic ''trap'' | Some m \<Rightarrow> m))"

definition vop_all :: "nat \<Rightarrow> ('a fsys_scheme, 'b) prog \<Rightarrow> ('a fsys_scheme, 'b) prog \<Rightarrow> ('a fsys_scheme, 'b) prog" where
  \<comment> \<open>an entry both tables of a file system have\<close>
  "vop_all node s f = vop_op node (\<lambda>ops. Some (if sfs_ops ops then s else f))"

definition vop_dir :: "nat \<Rightarrow> ('a fsys_scheme, 'b) prog \<Rightarrow> ('a fsys_scheme, 'b) prog \<Rightarrow> ('a fsys_scheme, 'b) prog" where
  \<comment> \<open>an entry of the tables for directories only\<close>
  "vop_dir node s f = vop_op node (\<lambda>ops. if dir_ops ops then Some (if sfs_ops ops then s else f) else None)"

definition vop_read :: "nat \<Rightarrow> uint \<Rightarrow> uint \<Rightarrow> ('a fsys_scheme, int \<times> uchar list) prog" where
  "vop_read ip off n = vop_all ip (sfs_readi ip off n) (fat_readi ip off n)"

definition vop_write :: "nat \<Rightarrow> uchar list \<Rightarrow> uint \<Rightarrow> uint \<Rightarrow> ('a fsys_scheme, int) prog" where
  "vop_write ip src off n = vop_all ip (sfs_writei ip src off n) (fat_writei ip src off n)"

definition vop_fstat :: "nat \<Rightarrow> ('a fsys_scheme, stat) prog" where
  "vop_fstat ip = vop_all ip (sfs_stati ip) (fat_stati ip)"

definition vop_getmajor :: "nat \<Rightarrow> ('a fsys_scheme, 16 word) prog" where
  "vop_getmajor ip = vop_op ip (\<lambda>ops. if dir_ops ops then None else Some (sfs_getmajor ip))"

definition vop_getminor :: "nat \<Rightarrow> ('a fsys_scheme, 16 word) prog" where
  "vop_getminor ip = vop_op ip (\<lambda>ops. if dir_ops ops then None else Some (sfs_getminor ip))"

definition vop_ref_inc :: "nat \<Rightarrow> ('a fsys_scheme, nat) prog" where
  "vop_ref_inc ip = vop_all ip (sfs_idup ip) (fat_idup ip)"

definition vop_ref_dec :: "nat \<Rightarrow> ('a fsys_scheme, unit) prog" where
  "vop_ref_dec ip = vop_all ip (sfs_iput ip) (fat_iput ip)"

definition vop_namei :: "nat \<Rightarrow> uchar list \<Rightarrow> ('a fsys_scheme, nat option) prog" where
  "vop_namei node path = vop_dir node (sfs_namei node path) (fat_namei node path)"

definition vop_nameiparent :: "nat \<Rightarrow> uchar list \<Rightarrow> ('a fsys_scheme, nat option \<times> uchar list) prog" where
  "vop_nameiparent node path = vop_dir node (sfs_nameiparent node path) (fat_nameiparent node path)"

definition vop_dirlink :: "nat \<Rightarrow> uchar list \<Rightarrow> nat \<Rightarrow> ('a fsys_scheme, int) prog" where
  "vop_dirlink dp name ip = vop_dir dp (sfs_dirlink dp name ip) (fat_dirlink dp name ip)"

definition vop_unlink :: "nat \<Rightarrow> uchar list \<Rightarrow> ('a fsys_scheme, int) prog" where
  "vop_unlink dp name = vop_dir dp (sfs_unlink dp name) (fat_unlink dp name)"

definition vop_dirlookup :: "nat \<Rightarrow> uchar list \<Rightarrow> ('a fsys_scheme, nat option) prog" where
  "vop_dirlookup dp name = vop_dir dp (kbind (sfs_dirlookup dp name) (\<lambda>r. kret (map_option fst r))) (fat_dirlookup dp name)"

definition vop_ilock :: "nat \<Rightarrow> ('a fsys_scheme, unit) prog" where
  "vop_ilock ip = vop_all ip (sfs_ilock ip) (fat_ilock ip)"

definition vop_iunlock :: "nat \<Rightarrow> ('a fsys_scheme, unit) prog" where
  "vop_iunlock ip = vop_all ip (sfs_iunlock ip) (fat_iunlock ip)"

definition vop_iunlockput :: "nat \<Rightarrow> ('a fsys_scheme, unit) prog" where
  "vop_iunlockput ip = vop_all ip (sfs_iunlockput ip) (fat_iunlockput ip)"

definition vop_iupdate :: "nat \<Rightarrow> ('a fsys_scheme, unit) prog" where
  "vop_iupdate ip = vop_all ip (sfs_iupdate ip) (fat_iupdate ip)"

definition vop_ialloc :: "nat \<Rightarrow> uint \<Rightarrow> 16 word \<Rightarrow> ('a fsys_scheme, nat) prog" where
  "vop_ialloc dirnode dev type = vop_op dirnode (\<lambda>ops. if ops = sfs_node_dirops then Some (sfs_ialloc dirnode dev type) else None)"

definition vop_isdirempty :: "nat \<Rightarrow> nat \<Rightarrow> ('a fsys_scheme, bool) prog" where
  \<comment> \<open>the macro takes the table of the caller's variable \<open>ip\<close>, not of its argument\<close>
  "vop_isdirempty ip dp = vop_dir ip (sfs_isdirempty dp) (fat_isdirempty dp)"

definition vop_link_inc :: "nat \<Rightarrow> ('a fsys_scheme, nat) prog" where
  "vop_link_inc ip = vop_all ip (sfs_link_inc ip) (fat_link_inc ip)"

definition vop_link_dec :: "nat \<Rightarrow> ('a fsys_scheme, nat) prog" where
  "vop_link_dec ip = vop_all ip (sfs_link_dec ip) (fat_link_dec ip)"

definition vop_create_inode :: "nat \<Rightarrow> 16 word \<Rightarrow> 16 word \<Rightarrow> 16 word \<Rightarrow> uchar list \<Rightarrow> ('a fsys_scheme, nat) prog" where
  "vop_create_inode dirnode type major minor name = vop_dir dirnode
     (sfs_create_inode dirnode type major minor name) (fat_create_inode dirnode type major minor name)"

definition vop_open :: "nat \<Rightarrow> nat \<Rightarrow> uint \<Rightarrow> ('a fsys_scheme, int) prog" where
  \<comment> \<open>this macro, too, takes the table of the caller's variable \<open>ip\<close>\<close>
  "vop_open ip node flags = vop_op ip (\<lambda>ops. Some (case ops of
       sfs_node_dirops \<Rightarrow> sfs_opendir node flags | sfs_node_fileops \<Rightarrow> sfs_openfile node flags
     | fat_node_dirops \<Rightarrow> fat_opendir node flags | fat_node_fileops \<Rightarrow> fat_openfile node flags))"

definition vop_gettype :: "nat \<Rightarrow> ('a fsys_scheme, 16 word) prog" where
  "vop_gettype ip = vop_all ip (sfs_gettype ip) (fat_gettype ip)"

definition vop_getdev :: "nat \<Rightarrow> ('a fsys_scheme, uint) prog" where
  "vop_getdev ip = vop_all ip (sfs_getdev ip) (fat_getdev ip)"

definition vop_getnlink :: "nat \<Rightarrow> ('a fsys_scheme, 16 word) prog" where
  "vop_getnlink ip = vop_all ip (sfs_getnlink ip) (fat_getnlink ip)"

definition vop_getpath :: "nat \<Rightarrow> bytes \<Rightarrow> int \<Rightarrow> ('a fsys_scheme, int \<times> bytes) prog" where
  "vop_getpath node path len = vop_op node (\<lambda>ops. if ops = sfs_node_fileops then None
     else Some (if sfs_ops ops then sfs_getpath node path len else fat_getpath node path len))"

section \<open>Paths\<close>

definition vfs_get_curdir :: "('a fsys_scheme, nat option) prog" where
  "vfs_get_curdir = kbind (kget p_cwd) (\<lambda>node. kbind (vop_ref_inc node) (\<lambda>_. kret (Some node)))"

definition is_name :: "uchar list \<Rightarrow> uchar list \<Rightarrow> bool" where
  "is_name devname name \<longleftrightarrow> strncmp (cview devname) (cview name) 3 = 0"

definition vfs_get_root :: "uchar list \<Rightarrow> ('a fsys_scheme, nat option) prog" where
  "vfs_get_root devname =
     (if is_name devname [115, 102, 115] \<or> is_name devname [83, 70, 83] then kbind sfs_get_root (\<lambda>r. kret (Some r))
      else if is_name devname [102, 97, 116] \<or> is_name devname [70, 65, 84] then kbind fat_get_root (\<lambda>r. kret (Some r))
      else kbind sfs_get_root (\<lambda>r. kret (Some r)))"

definition vfs_get_bootfs :: "('a fsys_scheme, nat option) prog" where
  "vfs_get_bootfs = kbind sfs_get_root (\<lambda>r. kret (Some r))"

fun scan_device :: "uchar list \<Rightarrow> nat \<Rightarrow> int \<times> int" where
  \<comment> \<open>\<open>slash\<close> and \<open>colon\<close> after the loop of \<open>get_device\<close>\<close>
  "scan_device [] i = (-1, -1)"
| "scan_device (c # cs) i = (if c = 58 then (-1, int i) else if c = 47 then (int i, -1) else scan_device cs (Suc i))"

definition get_device :: "uchar list \<Rightarrow> ('a fsys_scheme, uchar list \<times> nat option) prog" where
  "get_device path =
     (let (slash, colon) = scan_device path 0 in
      if colon < 0 \<and> slash \<noteq> 0 then kbind vfs_get_curdir (\<lambda>node. kret (path, node))
      else if colon > 0 then
        kbind (vfs_get_root (take (nat colon) path)) (\<lambda>node. kret (dropWhile (\<lambda>c. c = 47) (drop (nat colon + 1) path), node))
      else kbind (if hd path = 47 then vfs_get_bootfs else kret None) (\<lambda>node.
        kret (dropWhile (\<lambda>c. c = 47) (tl path), node)))"

definition vfs_lookup :: "uchar list \<Rightarrow> ('a fsys_scheme, nat option) prog" where
  "vfs_lookup path = kbind (get_device path) (\<lambda>(path, node).
     if path \<noteq> [] then (case node of None \<Rightarrow> kpanic ''trap'' | Some ip \<Rightarrow> vop_namei ip path) else kret node)"

definition vfs_lookup_parent :: "uchar list \<Rightarrow> ('a fsys_scheme, nat option \<times> uchar list) prog" where
  "vfs_lookup_parent path = kbind (get_device path) (\<lambda>(path, node).
     case node of None \<Rightarrow> kpanic ''trap'' | Some ip \<Rightarrow> vop_nameiparent ip path)"

definition vfs_getcwd :: "bytes \<Rightarrow> int \<Rightarrow> ('a fsys_scheme, int \<times> bytes) prog" where
  "vfs_getcwd path len = kbind vfs_get_curdir (\<lambda>node. vop_getpath (the node) path len)"

end
