(* ===== verification/Pipe.thy ===== *)
theory Pipe
  imports Ring
begin

text \<open>
  Pipes (\<^verbatim>\<open>pipe.c\<close>): the circular buffer, and processes that read, write and close.

  A pipe's lock is held from the start of a call to its return, except while the caller
  sleeps. So a call is a sequence of uninterrupted runs, each of which ends in a return or in
  \<open>sleep\<close>; \<open>pipewrite\<close> and \<open>piperead\<close> give the run that starts with a given loop counter, together
  with the channels it wakes. \<open>pipe_step\<close> interleaves the runs of any number of
  processes. The processes' \<open>killed\<close> flags can be set at any time, as \<open>kill\<close> does, which also
  wakes a sleeper. The states carry two ghost fields, all bytes put into the pipe
  and all bytes taken out of it.
\<close>

section \<open>The pipe\<close>

definition PIPESIZE :: nat where "PIPESIZE = 512"

record pipe =
  p_data :: bytes
  nread :: uint
  nwrite :: uint
  readopen :: bool
  writeopen :: bool

datatype pchan = ch_nread | ch_nwrite

definition pipe_init :: "bytes \<Rightarrow> pipe" where
  \<comment> \<open>the page \<open>kalloc\<close> returned, with the assignments of \<open>pipealloc\<close>\<close>
  "pipe_init page = \<lparr>p_data = page, nread = 0, nwrite = 0, readopen = True, writeopen = True\<rparr>"

definition pipe_full :: "pipe \<Rightarrow> bool" where
  "pipe_full p \<longleftrightarrow> nwrite p = nread p + of_nat PIPESIZE"

definition pipe_empty :: "pipe \<Rightarrow> bool" where
  "pipe_empty p \<longleftrightarrow> nread p = nwrite p"

definition pipe_put :: "uchar \<Rightarrow> pipe \<Rightarrow> pipe" where
  "pipe_put c p = p\<lparr>p_data := (p_data p)(unat (nwrite p) mod PIPESIZE := c), nwrite := nwrite p + 1\<rparr>"

definition pipe_get :: "pipe \<Rightarrow> uchar \<times> pipe" where
  "pipe_get p = (p_data p (unat (nread p) mod PIPESIZE), p\<lparr>nread := nread p + 1\<rparr>)"

datatype 'a run = Returned int 'a | Slept nat

text \<open>\<open>pipewrite_from killed addr n i p\<close> runs the loop of \<open>pipewrite\<close> from \<open>i\<close> on. The first component
  says whether it returned or went to sleep on \<open>&nwrite\<close>, the last which channels it woke.\<close>

function pipewrite_from :: "bool \<Rightarrow> bytes \<Rightarrow> int \<Rightarrow> nat \<Rightarrow> pipe \<Rightarrow> unit run \<times> pipe \<times> pchan list" where
  "pipewrite_from killed addr n i p =
     (if int i < n then
        if pipe_full p then
          if \<not> readopen p \<or> killed then (Returned (-1) (), p, [])
          else (Slept i, p, [ch_nread])
        else pipewrite_from killed addr n (Suc i) (pipe_put (addr i) p)
      else (Returned n (), p, [ch_nread]))"
  by pat_completeness auto

termination pipewrite_from
  by (relation "measure (\<lambda>(killed, addr, n, i, p). nat (n - int i))") auto

declare pipewrite_from.simps [simp del]

text \<open>The copy loop of \<open>piperead\<close>, and a run of it: it sleeps on \<open>&nread\<close> or returns, with the bytes
  stored at \<open>addr\<close>.\<close>

function piperead_copy :: "int \<Rightarrow> nat \<Rightarrow> pipe \<Rightarrow> uchar list \<times> pipe" where
  "piperead_copy n i p =
     (if int i < n then
        if pipe_empty p then ([], p)
        else let (c, p1) = pipe_get p; (cs, p2) = piperead_copy n (Suc i) p1 in (c # cs, p2)
      else ([], p))"
  by pat_completeness auto

termination piperead_copy
  by (relation "measure (\<lambda>(n, i, p). nat (n - int i))") auto

declare piperead_copy.simps [simp del]

definition piperead_run :: "bool \<Rightarrow> int \<Rightarrow> pipe \<Rightarrow> uchar list run \<times> pipe \<times> pchan list" where
  "piperead_run killed n p =
     (if pipe_empty p \<and> writeopen p then
        if killed then (Returned (-1) [], p, []) else (Slept 0, p, [])
      else let (cs, p') = piperead_copy n 0 p in (Returned (int (length cs)) cs, p', [ch_nwrite]))"

definition pipeclose :: "bool \<Rightarrow> pipe \<Rightarrow> pipe \<times> bool \<times> pchan list" where
  \<comment> \<open>the second component says whether the page was given to \<open>kfree\<close>\<close>
  "pipeclose writable p =
     (let p' = if writable then p\<lparr>writeopen := False\<rparr> else p\<lparr>readopen := False\<rparr> in
      (p', \<not> readopen p' \<and> \<not> writeopen p', [if writable then ch_nread else ch_nwrite]))"

section \<open>The buffer is a queue\<close>

definition pipe_queue :: "pipe \<Rightarrow> uchar list" where
  "pipe_queue p = ring_queue PIPESIZE (p_data p) (nread p) (nwrite p)"

definition pipe_ok :: "pipe \<Rightarrow> bool" where
  "pipe_ok p \<longleftrightarrow> unat (nwrite p - nread p) \<le> PIPESIZE"

lemma PIPESIZE_ring: "PIPESIZE dvd 2 ^ 32" "PIPESIZE < 2 ^ 32"
proof -
  have "(2 :: nat) ^ 32 = 512 * 8388608" by simp
  then show "PIPESIZE dvd 2 ^ 32" unfolding PIPESIZE_def by (metis dvd_triv_left)
qed (simp add: PIPESIZE_def)

interpretation pq: fifo pipe_ok pipe_queue PIPESIZE pipe_full pipe_empty pipe_put pipe_get
proof
  fix p c
  assume ok: "pipe_ok p"
  show full: "pipe_full p \<longleftrightarrow> length (pipe_queue p) = PIPESIZE"
    unfolding pipe_full_def pipe_queue_def by (rule ring_full[OF PIPESIZE_ring(2)])
  show "pipe_empty p \<longleftrightarrow> pipe_queue p = []"
    by (simp add: pipe_empty_def pipe_queue_def ring_empty)
  show "length (pipe_queue p) \<le> PIPESIZE" using ok by (simp add: pipe_ok_def pipe_queue_def ring_length)
  show "pipe_ok (pipe_put c p) \<and> pipe_queue (pipe_put c p) = pipe_queue p @ [c]" if "\<not> pipe_full p"
  proof -
    have "unat (nwrite p - nread p) < PIPESIZE" using ok that full by (simp add: pipe_ok_def pipe_queue_def ring_length)
    then have q: "pipe_queue (pipe_put c p) = pipe_queue p @ [c]"
      using ring_put[OF PIPESIZE_ring] by (simp add: pipe_queue_def pipe_put_def)
    then have "length (pipe_queue (pipe_put c p)) \<le> PIPESIZE"
      using \<open>unat (nwrite p - nread p) < PIPESIZE\<close> by (simp add: pipe_queue_def ring_length)
    then show ?thesis using q by (simp add: pipe_ok_def pipe_queue_def ring_length)
  qed
  show "pipe_ok (snd (pipe_get p)) \<and> pipe_queue p = fst (pipe_get p) # pipe_queue (snd (pipe_get p))" if "\<not> pipe_empty p"
  proof -
    have q: "pipe_queue p = fst (pipe_get p) # pipe_queue (snd (pipe_get p))"
      using that ring_get[of "nwrite p" "nread p"] by (simp add: pipe_empty_def pipe_queue_def pipe_get_def)
    then have "length (pipe_queue (snd (pipe_get p))) < length (pipe_queue p)" by simp
    then show ?thesis using q ok by (simp add: pipe_ok_def pipe_queue_def ring_length)
  qed
qed

lemma piperead_copy_gets: "piperead_copy n i p = pq.gets (nat (n - int i)) p"
proof (induction n i p rule: piperead_copy.induct)
  case (1 n i p)
  show ?case
  proof (cases "int i < n")
    case True
    then have e: "nat (n - int i) = Suc (nat (n - int (Suc i)))" by arith
    show ?thesis
    proof (cases "pipe_empty p")
      case False
      obtain c p1 where g: "pipe_get p = (c, p1)" by fastforce
      have "piperead_copy n (Suc i) p1 = pq.gets (nat (n - int (Suc i))) p1" using 1[OF True False g[symmetric] refl] .
      then show ?thesis using True False by (subst piperead_copy.simps) (simp add: e g Let_def)
    qed (use True in \<open>subst piperead_copy.simps, simp add: e\<close>)
  qed (subst piperead_copy.simps, simp)
qed

text \<open>A run of \<open>piperead\<close> takes bytes from the front of the queue.\<close>

lemma piperead_run_queue:
  assumes "pipe_ok p" "piperead_run k n p = (r, p', ws)"
  shows "pipe_ok p'" "writeopen p' = writeopen p" "readopen p' = readopen p"
    "r = Returned v cs \<Longrightarrow> pipe_queue p = cs @ pipe_queue p' \<and> (p' = p \<or> ch_nwrite \<in> set ws)"
    "r = Slept j \<Longrightarrow> p' = p \<and> pipe_empty p \<and> writeopen p \<and> \<not> k"
proof -
  obtain xs q where g: "piperead_copy n 0 p = (xs, q)" by fastforce
  then have gets: "pq.gets (nat n) p = (xs, q)" by (simp add: piperead_copy_gets)
  have open1: "writeopen (snd (pq.gets m p)) = writeopen p \<and> readopen (snd (pq.gets m p)) = readopen p" for m p
    by (induction m arbitrary: p) (simp_all add: Let_def pipe_get_def case_prod_unfold)
  have q: "pipe_ok q" "pipe_queue p = xs @ pipe_queue q"
    using pq.gets_queue[OF assms(1), of "nat n"] gets by auto
  show "pipe_ok p'" "writeopen p' = writeopen p" "readopen p' = readopen p"
    using assms q g open1[of "nat n" p] gets by (auto simp: piperead_run_def split: if_splits)
  show "r = Returned v cs \<Longrightarrow> pipe_queue p = cs @ pipe_queue p' \<and> (p' = p \<or> ch_nwrite \<in> set ws)"
    using assms q g by (auto simp: piperead_run_def split: if_splits)
  show "r = Slept j \<Longrightarrow> p' = p \<and> pipe_empty p \<and> writeopen p \<and> \<not> k"
    using assms g by (auto simp: piperead_run_def split: if_splits)
qed

text \<open>A run of \<open>pipewrite\<close> appends bytes to the queue, as many as \<open>nwrite\<close> advances.\<close>

definition stored :: "pipe \<Rightarrow> pipe \<Rightarrow> nat" where
  "stored p p' = unat (nwrite p' - nwrite p)"

lemma pipewrite_from_queue:
  assumes "pipe_ok p" "pipewrite_from k addr n i p = (r, p', ws)"
  shows "\<exists>m. pipe_ok p' \<and> nread p' = nread p \<and> writeopen p' = writeopen p \<and> readopen p' = readopen p \<and>
     pipe_queue p' = pipe_queue p @ map addr [i..<i + m] \<and> nwrite p' = nwrite p + of_nat m \<and>
     (case r of Returned v u \<Rightarrow> v = n \<and> ws = [ch_nread] \<and> int (i + m) = max (int i) n \<or>
                  v = -1 \<and> ws = [] \<and> pipe_full p' \<and> (\<not> readopen p \<or> k) \<and> int (i + m) < n
      | Slept j \<Rightarrow> j = i + m \<and> ws = [ch_nread] \<and> pipe_full p' \<and> readopen p \<and> \<not> k \<and> int j < n)"
  using assms
proof (induction k addr n i p rule: pipewrite_from.induct)
  case (1 k addr n i p)
  show ?case
  proof (cases "int i < n \<and> \<not> pipe_full p")
    case True
    let ?q = "pipe_put (addr i) p"
    have put: "pipe_ok ?q" "pipe_queue ?q = pipe_queue p @ [addr i]" using pq.put_law[OF 1(2)] True by auto
    have "pipewrite_from k addr n (Suc i) ?q = (r, p', ws)"
      using 1(3) True by (simp add: pipewrite_from.simps[of k addr n i p])
    from 1(1)[OF _ _ put(1) this] True obtain m where
      m: "pipe_ok p'" "nread p' = nread ?q" "writeopen p' = writeopen ?q" "readopen p' = readopen ?q"
        "pipe_queue p' = pipe_queue ?q @ map addr [Suc i..<Suc i + m]" "nwrite p' = nwrite ?q + of_nat m"
        "case r of Returned v u \<Rightarrow> v = n \<and> ws = [ch_nread] \<and> int (Suc i + m) = max (int (Suc i)) n \<or>
                  v = -1 \<and> ws = [] \<and> pipe_full p' \<and> (\<not> readopen ?q \<or> k) \<and> int (Suc i + m) < n
         | Slept j \<Rightarrow> j = Suc i + m \<and> ws = [ch_nread] \<and> pipe_full p' \<and> readopen ?q \<and> \<not> k \<and> int j < n"
      by auto
    have "map addr [i..<i + Suc m] = addr i # map addr [Suc i..<Suc i + m]" by (simp add: upt_conv_Cons del: upt_Suc)
    then show ?thesis
      using m put(2) True by (intro exI[of _ "Suc m"]) (auto simp: pipe_put_def split: run.splits)
  next
    case False
    then show ?thesis
      using 1(2,3) by (intro exI[of _ 0]) (auto simp: pipewrite_from.simps[of k addr n i p] split: if_splits)
  qed
qed

section \<open>Processes sharing a pipe\<close>

datatype thread = Idle | Writing bytes int nat | WSleep bytes int nat | Reading int | RSleep int

record psys =
  the_pipe :: pipe
  thr :: "nat \<Rightarrow> thread"
  pkilled :: "nat \<Rightarrow> bool"
  sent :: "uchar list"
  rcvd :: "uchar list"

definition wake :: "pchan list \<Rightarrow> (nat \<Rightarrow> thread) \<Rightarrow> nat \<Rightarrow> thread" where
  \<comment> \<open>\<open>wakeup\<close> of each of the channels\<close>
  "wake ws T = (\<lambda>t. case T t of
       WSleep addr n i \<Rightarrow> if ch_nwrite \<in> set ws then Writing addr n i else WSleep addr n i
     | RSleep n \<Rightarrow> if ch_nread \<in> set ws then Reading n else RSleep n
     | x \<Rightarrow> x)"

inductive pipe_step :: "psys \<Rightarrow> psys \<Rightarrow> bool" where
  call_write: "thr s t = Idle \<Longrightarrow> writeopen (the_pipe s) \<Longrightarrow> pipe_step s (s\<lparr>thr := (thr s)(t := Writing addr n 0)\<rparr>)"
| call_read: "thr s t = Idle \<Longrightarrow> readopen (the_pipe s) \<Longrightarrow> pipe_step s (s\<lparr>thr := (thr s)(t := Reading n)\<rparr>)"
| write_return: "thr s t = Writing addr n i \<Longrightarrow>
    pipewrite_from (pkilled s t) addr n i (the_pipe s) = (Returned v (), p, ws) \<Longrightarrow>
    pipe_step s (s\<lparr>the_pipe := p, thr := (wake ws (thr s))(t := Idle),
      sent := sent s @ map addr [i..<i + stored (the_pipe s) p]\<rparr>)"
| write_sleep: "thr s t = Writing addr n i \<Longrightarrow>
    pipewrite_from (pkilled s t) addr n i (the_pipe s) = (Slept j, p, ws) \<Longrightarrow>
    pipe_step s (s\<lparr>the_pipe := p, thr := (wake ws (thr s))(t := WSleep addr n j),
      sent := sent s @ map addr [i..<i + stored (the_pipe s) p]\<rparr>)"
| read_return: "thr s t = Reading n \<Longrightarrow> piperead_run (pkilled s t) n (the_pipe s) = (Returned v cs, p, ws) \<Longrightarrow>
    pipe_step s (s\<lparr>the_pipe := p, thr := (wake ws (thr s))(t := Idle), rcvd := rcvd s @ cs\<rparr>)"
| read_sleep: "thr s t = Reading n \<Longrightarrow> piperead_run (pkilled s t) n (the_pipe s) = (Slept j, p, ws) \<Longrightarrow>
    pipe_step s (s\<lparr>the_pipe := p, thr := (wake ws (thr s))(t := RSleep n)\<rparr>)"
| close_write: "writeopen (the_pipe s) \<Longrightarrow> \<forall>t addr n i. thr s t \<noteq> Writing addr n i \<and> thr s t \<noteq> WSleep addr n i \<Longrightarrow>
    pipeclose True (the_pipe s) = (p, freed, ws) \<Longrightarrow> pipe_step s (s\<lparr>the_pipe := p, thr := wake ws (thr s)\<rparr>)"
| close_read: "readopen (the_pipe s) \<Longrightarrow> \<forall>t n. thr s t \<noteq> Reading n \<and> thr s t \<noteq> RSleep n \<Longrightarrow>
    pipeclose False (the_pipe s) = (p, freed, ws) \<Longrightarrow> pipe_step s (s\<lparr>the_pipe := p, thr := wake ws (thr s)\<rparr>)"
| kill_writer: "thr s t = WSleep addr n i \<Longrightarrow>
    pipe_step s (s\<lparr>pkilled := (pkilled s)(t := True), thr := (thr s)(t := Writing addr n i)\<rparr>)"
| kill_reader: "thr s t = RSleep n \<Longrightarrow>
    pipe_step s (s\<lparr>pkilled := (pkilled s)(t := True), thr := (thr s)(t := Reading n)\<rparr>)"
| kill_running: "(\<forall>addr n i. thr s t \<noteq> WSleep addr n i) \<Longrightarrow> (\<forall>n. thr s t \<noteq> RSleep n) \<Longrightarrow>
    pipe_step s (s\<lparr>pkilled := (pkilled s)(t := True)\<rparr>)"

definition psys_init :: "bytes \<Rightarrow> psys" where
  "psys_init page = \<lparr>the_pipe = pipe_init page, thr = \<lambda>_. Idle, pkilled = \<lambda>_. False, sent = [], rcvd = []\<rparr>"

definition pipe_inv :: "psys \<Rightarrow> bool" where
  "pipe_inv s \<longleftrightarrow> pipe_ok (the_pipe s) \<and> sent s = rcvd s @ pipe_queue (the_pipe s) \<and>
     (\<forall>t addr n i. thr s t = WSleep addr n i \<longrightarrow> pipe_full (the_pipe s) \<and> readopen (the_pipe s)) \<and>
     (\<forall>t n. thr s t = Reading n \<or> thr s t = RSleep n \<longrightarrow> readopen (the_pipe s)) \<and>
     (\<forall>t n. thr s t = RSleep n \<longrightarrow> writeopen (the_pipe s) \<and>
        (pipe_empty (the_pipe s) \<or> (\<exists>u. pkilled s u)))"

lemma wake_sleep:
  "wake ws T t = WSleep addr n i \<longleftrightarrow> T t = WSleep addr n i \<and> ch_nwrite \<notin> set ws"
  "wake ws T t = RSleep n \<longleftrightarrow> T t = RSleep n \<and> ch_nread \<notin> set ws"
  "wake ws T t = Reading n \<longleftrightarrow> T t = Reading n \<or> T t = RSleep n \<and> ch_nread \<in> set ws"
  by (auto simp: wake_def split: thread.splits)

text \<open>What a run of a writer does to the pipe and the sleepers.\<close>

lemma writer_inv:
  assumes inv: "pipe_inv s" and run: "pipewrite_from (pkilled s t) addr n i (the_pipe s) = (r, p, ws)"
  shows "pipe_ok p" "sent s @ map addr [i..<i + stored (the_pipe s) p] = rcvd s @ pipe_queue p"
    "writeopen p = writeopen (the_pipe s)" "readopen p = readopen (the_pipe s)"
    "pipe_full (the_pipe s) \<Longrightarrow> pipe_full p"
    "ch_nread \<notin> set ws \<Longrightarrow> p = the_pipe s \<or> pipe_full p \<and> (pkilled s t \<or> \<not> readopen p)"
    "r = Slept j \<Longrightarrow> pipe_full p \<and> readopen p" "ch_nwrite \<notin> set ws"
proof -
  let ?p = "the_pipe s"
  have ok: "pipe_ok ?p" using inv by (simp add: pipe_inv_def)
  from pipewrite_from_queue[OF ok run] obtain m where
    m: "pipe_ok p" "nread p = nread ?p" "writeopen p = writeopen ?p" "readopen p = readopen ?p"
      "pipe_queue p = pipe_queue ?p @ map addr [i..<i + m]" "nwrite p = nwrite ?p + of_nat m"
    and r: "case r of Returned v u \<Rightarrow> v = n \<and> ws = [ch_nread] \<and> int (i + m) = max (int i) n \<or>
                  v = -1 \<and> ws = [] \<and> pipe_full p \<and> (\<not> readopen ?p \<or> pkilled s t) \<and> int (i + m) < n
      | Slept j \<Rightarrow> j = i + m \<and> ws = [ch_nread] \<and> pipe_full p \<and> readopen ?p \<and> \<not> pkilled s t \<and> int j < n" by auto
  have "length (pipe_queue p) \<le> PIPESIZE" using pq.bounded[OF m(1)] .
  then have "m \<le> PIPESIZE" using m(5) by simp
  then have "unat (of_nat m :: uint) = m" using PIPESIZE_ring(2) by (intro unat_of_nat32) simp
  then have st: "stored ?p p = m" using m(6) by (simp add: stored_def)
  show "pipe_ok p" "writeopen p = writeopen ?p" "readopen p = readopen ?p" by (fact m)+
  show "sent s @ map addr [i..<i + stored ?p p] = rcvd s @ pipe_queue p"
    using inv m(5) st by (simp add: pipe_inv_def)
  show "pipe_full ?p \<Longrightarrow> pipe_full p"
    using pq.full_iff[OF ok] pq.full_iff[OF m(1)] pq.bounded[OF m(1)] m(5) by simp
  show "ch_nread \<notin> set ws \<Longrightarrow> p = ?p \<or> pipe_full p \<and> (pkilled s t \<or> \<not> readopen p)"
    using r m(4) by (auto split: run.splits)
  show "r = Slept j \<Longrightarrow> pipe_full p \<and> readopen p" using r m(4) by auto
  show "ch_nwrite \<notin> set ws" using r by (auto split: run.splits)
qed

lemma writer_step_inv:
  assumes inv: "pipe_inv s" and run: "pipewrite_from (pkilled s t) addr n i (the_pipe s) = (r, p, ws)"
    and x: "x = Idle \<or> (\<exists>j. r = Slept j \<and> x = WSleep addr n j)"
  shows "pipe_inv (s\<lparr>the_pipe := p, thr := (wake ws (thr s))(t := x), sent := sent s @ map addr [i..<i + stored (the_pipe s) p]\<rparr>)"
proof -
  note w = writer_inv[OF inv run]
  have i: "thr s u = WSleep a k j \<Longrightarrow> pipe_full (the_pipe s) \<and> readopen (the_pipe s)"
    "thr s u = Reading k \<Longrightarrow> readopen (the_pipe s)"
    "thr s u = RSleep k \<Longrightarrow> readopen (the_pipe s) \<and> writeopen (the_pipe s) \<and>
        (pipe_empty (the_pipe s) \<or> (\<exists>u. pkilled s u))" for u a k j
    using inv by (auto simp: pipe_inv_def)
  have rs: "writeopen p \<and> (pipe_empty p \<or> (\<exists>u. pkilled s u))"
    if "thr s u = RSleep k" "ch_nread \<notin> set ws" for u k
    using i(3)[of u k] that w(3,4,6) by auto
  have ws: "pipe_full p \<and> readopen p" if "thr s u = WSleep a k j" for u a k j
    using i(1)[OF that] w(4,5) by simp
  show ?thesis
    unfolding pipe_inv_def using w(1,2,4) x ws rs i(2,3) w(7) by (auto simp: wake_sleep split: if_splits)
qed

lemma reader_step_inv:
  assumes inv: "pipe_inv s" and t: "thr s t = Reading n" and run: "piperead_run (pkilled s t) n (the_pipe s) = (r, p, ws)"
    and x: "(\<exists>v. r = Returned v cs \<and> x = Idle) \<or> (\<exists>j. r = Slept j \<and> x = RSleep n \<and> cs = [])"
  shows "pipe_inv (s\<lparr>the_pipe := p, thr := (wake ws (thr s))(t := x), rcvd := rcvd s @ cs\<rparr>)" (is "pipe_inv ?s")
proof -
  have ok: "pipe_ok (the_pipe s)" using inv by (simp add: pipe_inv_def)
  note q = piperead_run_queue[OF ok run]
  have queue: "pipe_queue (the_pipe s) = cs @ pipe_queue p" using x q(4,5) by auto
  have i: "thr s u = WSleep a k j \<Longrightarrow> pipe_full (the_pipe s) \<and> readopen (the_pipe s)"
    "thr s u = Reading k \<Longrightarrow> readopen (the_pipe s)"
    "thr s u = RSleep k \<Longrightarrow> readopen (the_pipe s) \<and> writeopen (the_pipe s) \<and>
        (pipe_empty (the_pipe s) \<or> (\<exists>u. pkilled s u))" for u a k j
    using inv by (auto simp: pipe_inv_def)
  have rs: "writeopen p \<and> (pipe_empty p \<or> (\<exists>u. pkilled s u))" if "thr s u = RSleep k" for u k
  proof (cases "\<exists>u. pkilled s u")
    case False
    then have e: "pipe_empty (the_pipe s)" "writeopen (the_pipe s)" using i(3)[OF that] by auto
    then have "pipe_queue (the_pipe s) = []" using pq.empty_iff[OF ok] by simp
    then have "pipe_queue p = []" using queue by simp
    then show ?thesis using pq.empty_iff[OF q(1)] q(2) e(2) by simp
  qed (use i(3)[OF that] q(2) in auto)
  have ws: "pipe_full p \<and> readopen p" if "thr s u = WSleep a k j" "ch_nwrite \<notin> set ws" for u a k j
    using i(1)[OF that(1)] x q(3,4,5) that(2) by auto
  show ?thesis
    unfolding pipe_inv_def
  proof (intro conjI allI impI)
    show "pipe_ok (the_pipe ?s)" using q(1) by simp
    show "sent ?s = rcvd ?s @ pipe_queue (the_pipe ?s)" using inv queue by (simp add: pipe_inv_def)
    fix u a k j
    show "thr ?s u = WSleep a k j \<Longrightarrow> pipe_full (the_pipe ?s)" "thr ?s u = WSleep a k j \<Longrightarrow> readopen (the_pipe ?s)"
      using x ws[of u a k j] by (auto simp: wake_sleep split: if_splits)
    have ro: "readopen p" using i(2)[OF t] q(3) by simp
    show "readopen (the_pipe ?s)" using ro by simp
    show "thr ?s u = RSleep k \<Longrightarrow> writeopen (the_pipe ?s)"
      "thr ?s u = RSleep k \<Longrightarrow> pipe_empty (the_pipe ?s) \<or> (\<exists>u. pkilled ?s u)"
      using x rs[of u k] q(2,5) by (auto simp: wake_sleep split: if_splits)
  qed
qed

lemma close_step_inv:
  assumes inv: "pipe_inv s" and c: "pipeclose w (the_pipe s) = (p, freed, ws)"
    and r: "\<not> w \<Longrightarrow> \<forall>t n. thr s t \<noteq> Reading n \<and> thr s t \<noteq> RSleep n"
  shows "pipe_inv (s\<lparr>the_pipe := p, thr := wake ws (thr s)\<rparr>)"
proof -
  have p: "p = (if w then (the_pipe s)\<lparr>writeopen := False\<rparr> else (the_pipe s)\<lparr>readopen := False\<rparr>)"
    and ws: "ws = [if w then ch_nread else ch_nwrite]" using c by (auto simp: pipeclose_def Let_def)
  then show ?thesis
    using inv r
    by (auto simp: pipe_inv_def pipe_ok_def pipe_queue_def pipe_full_def pipe_empty_def wake_sleep split: if_splits)
qed

lemma kill_inv: "pipe_inv s \<Longrightarrow> pipe_inv (s\<lparr>pkilled := (pkilled s)(t := True)\<rparr>)"
  by (auto simp: pipe_inv_def)

lemma pipe_step_inv: "pipe_step s s' \<Longrightarrow> pipe_inv s \<Longrightarrow> pipe_inv s'"
proof (induction rule: pipe_step.induct)
  case (write_return s t addr n i v p ws)
  then show ?case using writer_step_inv[where x = Idle] by blast
next
  case (write_sleep s t addr n i j p ws)
  then show ?case using writer_step_inv by blast
next
  case (read_return s t n v cs p ws)
  then show ?case using reader_step_inv by blast
next
  case (read_sleep s t n j p ws)
  then show ?case using reader_step_inv[where cs = "[]" and x = "RSleep n"] by simp
next
  case (close_write s p freed ws)
  then show ?case using close_step_inv[of s True] by blast
next
  case (close_read s p freed ws)
  then show ?case using close_step_inv[of s False] by blast
next
  case (kill_writer s t addr n i)
  then show ?case by (auto simp: pipe_inv_def split: if_splits)
next
  case (kill_reader s t n)
  then show ?case by (auto simp: pipe_inv_def split: if_splits)
qed (auto simp: pipe_inv_def split: if_splits)

lemma pipe_reachable_inv: "pipe_step\<^sup>*\<^sup>* (psys_init page) s \<Longrightarrow> pipe_inv s"
proof (induction rule: rtranclp_induct)
  case base
  then show ?case by (simp add: psys_init_def pipe_init_def pipe_inv_def pipe_ok_def pipe_queue_def ring_queue_def)
qed (rule pipe_step_inv)

text \<open>C18: Whatever the interleaving of readers, writers, closes and kills, the bytes that have come out of a
  pipe are the first of those that went in, in order; the others are in the buffer, at most
  512 of them. The counters may have wrapped around.\<close>

theorem pipe_fifo:
  assumes "pipe_step\<^sup>*\<^sup>* (psys_init page) s"
  shows "sent s = rcvd s @ pipe_queue (the_pipe s) \<and> length (pipe_queue (the_pipe s)) \<le> 512"
  using pipe_reachable_inv[OF assms] pq.bounded[of "the_pipe s"] by (auto simp: pipe_inv_def PIPESIZE_def)

text \<open>C19: As long as no process is killed, no wakeup is lost: a reader sleeps only while the pipe is
  empty and can still be written, a writer only while it is full and can still be read, and so
  never do a reader and a writer both sleep.\<close>

theorem pipe_no_lost_wakeup:
  assumes "pipe_step\<^sup>*\<^sup>* (psys_init page) s" "\<forall>t. \<not> pkilled s t"
  shows "(thr s t = RSleep n \<longrightarrow> pipe_empty (the_pipe s) \<and> writeopen (the_pipe s)) \<and>
    (thr s u = WSleep addr k i \<longrightarrow> pipe_full (the_pipe s) \<and> readopen (the_pipe s)) \<and>
    \<not> (thr s t = RSleep n \<and> thr s u = WSleep addr k i)"
proof -
  have "\<not> (pipe_empty p \<and> pipe_full p)" for p by (auto simp: pipe_empty_def pipe_full_def PIPESIZE_def)
  then show ?thesis using pipe_reachable_inv[OF assms(1)] assms(2) by (auto simp: pipe_inv_def)
qed

text \<open>A writer that has been killed returns from a full pipe without waking the readers.\<close>

lemma killed_write_full:
  "\<exists>p. pipewrite_from True addr 600 0 (pipe_init page) = (Returned (-1) (), p, []) \<and> pipe_full p"
proof -
  obtain r p ws where run: "pipewrite_from True addr 600 0 (pipe_init page) = (r, p, ws)" by (cases "pipewrite_from True addr 600 0 (pipe_init page)")
  have "pipe_ok (pipe_init page)" by (simp add: pipe_ok_def pipe_init_def)
  from pipewrite_from_queue[OF this run] obtain m where
    m: "pipe_ok p" "pipe_queue p = pipe_queue (pipe_init page) @ map addr [0..<0 + m]"
    and r: "case r of Returned v u \<Rightarrow> v = 600 \<and> ws = [ch_nread] \<and> int (0 + m) = max (int 0) 600 \<or>
                  v = -1 \<and> ws = [] \<and> pipe_full p \<and> (\<not> readopen (pipe_init page) \<or> True) \<and> int (0 + m) < 600
      | Slept j \<Rightarrow> j = 0 + m \<and> ws = [ch_nread] \<and> pipe_full p \<and> readopen (pipe_init page) \<and> \<not> True \<and> int j < 600" by auto
  have "m \<le> 512" using pq.bounded[OF m(1)] m(2) by (simp add: PIPESIZE_def)
  then show ?thesis using r run by (auto split: run.splits)
qed

text \<open>C20: When a process is killed a wakeup can be lost. A reader may be asleep although the pipe is full
  and its write end open, because \<open>pipewrite\<close> returns for a killed process without \<open>wakeup\<close>.\<close>

theorem pipe_killed_writer_strands_reader:
  "\<exists>s. pipe_step\<^sup>*\<^sup>* (psys_init page) s \<and> thr s 0 = RSleep 1 \<and> thr s 1 = Idle \<and>
     pipe_full (the_pipe s) \<and> writeopen (the_pipe s)"
proof -
  let ?s0 = "psys_init page"
  let ?s1 = "?s0\<lparr>thr := (thr ?s0)(0 := Reading 1)\<rparr>"
  let ?s2 = "?s1\<lparr>the_pipe := the_pipe ?s1, thr := (wake [] (thr ?s1))(0 := RSleep 1)\<rparr>"
  let ?s3 = "?s2\<lparr>thr := (thr ?s2)(1 := Writing (\<lambda>_. 0) 600 0)\<rparr>"
  let ?s4 = "?s3\<lparr>pkilled := (pkilled ?s3)(1 := True)\<rparr>"
  obtain p where p: "pipewrite_from True (\<lambda>_. 0) 600 0 (pipe_init page) = (Returned (-1) (), p, [])" "pipe_full p"
    using killed_write_full by blast
  let ?s5 = "?s4\<lparr>the_pipe := p, thr := (wake [] (thr ?s4))(1 := Idle),
      sent := sent ?s4 @ map (\<lambda>_. 0) [0..<0 + stored (the_pipe ?s4) p]\<rparr>"
  have "pipe_step ?s0 ?s1" by (rule call_read) (simp_all add: psys_init_def pipe_init_def)
  moreover have "pipe_step ?s1 ?s2"
    by (rule read_sleep) (simp_all add: psys_init_def pipe_init_def piperead_run_def pipe_empty_def)
  moreover have "pipe_step ?s2 ?s3" by (rule call_write) (simp_all add: psys_init_def pipe_init_def wake_def)
  moreover have "pipe_step ?s3 ?s4" by (rule kill_running) simp_all
  moreover have "pipe_step ?s4 ?s5" by (rule write_return) (use p in \<open>simp_all add: psys_init_def\<close>)
  ultimately have "pipe_step\<^sup>*\<^sup>* ?s0 ?s5" by (meson r_into_rtranclp rtranclp_trans)
  moreover have "pipe_ok (pipe_init page)" by (simp add: pipe_ok_def pipe_init_def)
  from pipewrite_from_queue[OF this p(1)] have "writeopen p" by (auto simp: pipe_init_def)
  moreover have "thr ?s5 0 = RSleep 1" "thr ?s5 1 = Idle" by (simp_all add: wake_def)
  ultimately show ?thesis using p(2) by (intro exI[of _ ?s5]) simp
qed

text \<open>A process writes one byte while another sleeps in \<open>piperead\<close>.\<close>

definition psys_demo :: psys where
  "psys_demo = (psys_init zero_bytes)\<lparr>the_pipe := pipe_put 65 (pipe_init zero_bytes), thr := (\<lambda>_. Idle)(0 := Reading 1),
     sent := [65]\<rparr>"

lemma psys_demo_reach: "pipe_step\<^sup>*\<^sup>* (psys_init zero_bytes) psys_demo"
proof -
  let ?s0 = "psys_init zero_bytes"
  let ?s1 = "?s0\<lparr>thr := (thr ?s0)(0 := Reading 1)\<rparr>"
  let ?s2 = "?s1\<lparr>the_pipe := the_pipe ?s1, thr := (wake [] (thr ?s1))(0 := RSleep 1)\<rparr>"
  let ?s3 = "?s2\<lparr>thr := (thr ?s2)(3 := Writing (\<lambda>_. 65) 1 0)\<rparr>"
  let ?p = "pipe_put 65 (pipe_init zero_bytes)"
  let ?s4 = "?s3\<lparr>the_pipe := ?p, thr := (wake [ch_nread] (thr ?s3))(3 := Idle),
      sent := sent ?s3 @ map (\<lambda>_. 65) [0..<0 + stored (the_pipe ?s3) ?p]\<rparr>"
  have run: "pipewrite_from False (\<lambda>_. 65) 1 0 (pipe_init zero_bytes) = (Returned 1 (), ?p, [ch_nread])"
    by (simp add: pipewrite_from.simps[of _ _ _ 0] pipewrite_from.simps[of _ _ _ "Suc 0"] pipe_full_def pipe_init_def PIPESIZE_def)
  have "pipe_step ?s0 ?s1" by (rule call_read) (simp_all add: psys_init_def pipe_init_def)
  moreover have "pipe_step ?s1 ?s2"
    by (rule read_sleep) (simp_all add: psys_init_def pipe_init_def piperead_run_def pipe_empty_def)
  moreover have "pipe_step ?s2 ?s3" by (rule call_write) (simp_all add: psys_init_def pipe_init_def wake_def)
  moreover have "pipe_step ?s3 ?s4" by (rule write_return) (use run in \<open>simp_all add: psys_init_def\<close>)
  moreover have "(wake [ch_nread] ((wake [] ((\<lambda>_. Idle)(0 := Reading 1)))(0 := RSleep 1, 3 := Writing (\<lambda>_. 65) 1 0)))(3 := Idle) =
      (\<lambda>_. Idle)(0 := Reading 1)"
    by (auto simp: wake_def fun_eq_iff)
  then have "?s4 = psys_demo"
    by (simp add: psys_demo_def psys_init_def stored_def pipe_put_def pipe_init_def)
  ultimately show ?thesis by (metis (no_types, lifting) r_into_rtranclp rtranclp_trans)
qed

theorem pipe_fifo_witness: "pipe_queue (the_pipe psys_demo) = [65]"
  using pipe_fifo[OF psys_demo_reach] by (simp add: psys_demo_def psys_init_def)

theorem pipe_no_lost_wakeup_witness:
  "\<not> (thr psys_demo 1 = RSleep 5 \<and> thr psys_demo 2 = WSleep zero_bytes 3 1)"
proof -
  have "\<forall>t. \<not> pkilled psys_demo t" by (simp add: psys_demo_def psys_init_def)
  from pipe_no_lost_wakeup[OF psys_demo_reach this] show ?thesis by blast
qed

end
