(* ===== verification/Kalloc.thy ===== *)
theory Kalloc
  imports Cstring
begin

text \<open>
  The allocator of physical pages (\<^verbatim>\<open>kalloc.c\<close>). Memory is addressed by kernel virtual addresses; a
  free page holds the pointer to the next in its first four bytes. \<open>end\<close>, the first address after
  the kernel, is chosen by the linker and a parameter of the operations. \<open>kmem.lock\<close> makes the
  operations atomic.

  The locale \<open>page_pool\<close> is what the allocator promises its clients.
\<close>

section \<open>Operations\<close>

definition PGSIZE :: nat where "PGSIZE = 4096"
definition KERNBASE :: uint where "KERNBASE = 0x80000000"
definition PHYSTOP :: uint where "PHYSTOP = 0xE000000"

definition v2p :: "uint \<Rightarrow> uint" where "v2p v = v - KERNBASE"
definition p2v :: "uint \<Rightarrow> uint" where "p2v p = p + KERNBASE"

definition PGROUNDUP :: "uint \<Rightarrow> uint" where
  "PGROUNDUP a = (a + 4095) AND NOT 4095"

definition PGROUNDDOWN :: "uint \<Rightarrow> uint" where
  "PGROUNDDOWN a = a AND NOT 4095"

record kmem =
  mem :: bytes
  freelist :: uint
  use_lock :: bool

definition kfree :: "uint \<Rightarrow> uint \<Rightarrow> ('a kmem_scheme, unit) prog" where
  "kfree kend v =
     (if unat v mod PGSIZE \<noteq> 0 \<or> v < kend \<or> v2p v \<ge> PHYSTOP then kpanic ''kfree''
      else
        kbind (kmod (\<lambda>s. s\<lparr>mem := memset (mem s) (unat v) 1 PGSIZE\<rparr>)) (\<lambda>_.
        kbind (kmod (\<lambda>s. s\<lparr>mem := st32 (mem s) (unat v) (freelist s)\<rparr>)) (\<lambda>_.
        kmod (\<lambda>s. s\<lparr>freelist := v\<rparr>))))"

definition kalloc :: "('a kmem_scheme, uint) prog" where
  "kalloc =
     kbind (kget freelist) (\<lambda>r.
     kbind (kwhen (r \<noteq> 0) (kmod (\<lambda>s. s\<lparr>freelist := ld32 (mem s) (unat r)\<rparr>))) (\<lambda>_.
     kret r))"

text \<open>The loop of \<open>freerange\<close>; the fuel is one unit per page of the address space.\<close>

primrec freerange_from :: "nat \<Rightarrow> uint \<Rightarrow> uint \<Rightarrow> uint \<Rightarrow> ('a kmem_scheme, unit) prog" where
  "freerange_from 0 kend p vend = kdiverge"
| "freerange_from (Suc f) kend p vend =
     (if p + 4096 \<le> vend then kbind (kfree kend p) (\<lambda>_. freerange_from f kend (p + 4096) vend) else kret ())"

definition freerange :: "uint \<Rightarrow> uint \<Rightarrow> uint \<Rightarrow> ('a kmem_scheme, unit) prog" where
  "freerange kend vstart vend = freerange_from (2 ^ 20 + 1) kend (PGROUNDUP vstart) vend"

definition kinit1 :: "uint \<Rightarrow> uint \<Rightarrow> uint \<Rightarrow> ('a kmem_scheme, unit) prog" where
  "kinit1 kend vstart vend =
     kbind (kmod (\<lambda>s. s\<lparr>use_lock := False\<rparr>)) (\<lambda>_. freerange kend vstart vend)"

definition kinit2 :: "uint \<Rightarrow> uint \<Rightarrow> uint \<Rightarrow> ('a kmem_scheme, unit) prog" where
  "kinit2 kend vstart vend =
     kbind (freerange kend vstart vend) (\<lambda>_. kmod (\<lambda>s. s\<lparr>use_lock := True\<rparr>))"

section \<open>What the allocator promises\<close>

definition page_bytes :: "uint \<Rightarrow> nat set" where
  "page_bytes v = {unat v..<unat v + PGSIZE}"

text \<open>\<open>pool s ps\<close>: the pages \<open>ps\<close> are free. \<open>valid\<close> says which addresses are pages that can be given out.\<close>

locale page_pool =
  fixes pool :: "'s \<Rightarrow> uint list \<Rightarrow> bool"
    and valid :: "uint \<Rightarrow> bool"
    and alloc :: "('s, uint) prog"
    and free :: "uint \<Rightarrow> ('s, unit) prog"
    and memory :: "'s \<Rightarrow> bytes"
    and head :: "'s \<Rightarrow> 'q"
    and rest :: "'s \<Rightarrow> 'r"
  assumes valid_aligned: "valid v \<Longrightarrow> unat v mod PGSIZE = 0 \<and> v \<noteq> 0"
    and pool_wf: "pool s ps \<Longrightarrow> distinct ps \<and> (\<forall>v\<in>set ps. valid v)"
    and alloc_empty: "pool s [] \<Longrightarrow> alloc s = Ret (0, s)"
    and alloc_law: "pool s (v # ps) \<Longrightarrow> \<exists>s'. alloc s = Ret (v, s') \<and> pool s' ps \<and> memory s' = memory s \<and> rest s' = rest s"
    and free_law: "pool s ps \<Longrightarrow> valid v \<Longrightarrow> v \<notin> set ps \<Longrightarrow>
      \<exists>s'. free v s = Ret ((), s') \<and> pool s' (v # ps) \<and> (\<forall>i. i \<notin> page_bytes v \<longrightarrow> memory s' i = memory s i) \<and> rest s' = rest s"
    and pool_frame: "pool s ps \<Longrightarrow> (\<forall>v\<in>set ps. \<forall>i\<in>page_bytes v. memory s' i = memory s i) \<Longrightarrow> head s' = head s \<Longrightarrow> pool s' ps"
begin

lemma wp_alloc:
  assumes "pool s ps"
    and none: "ps = [] \<Longrightarrow> Q 0 s"
    and some: "\<And>v vs s'. ps = v # vs \<Longrightarrow> valid v \<Longrightarrow> v \<notin> set vs \<Longrightarrow> pool s' vs \<Longrightarrow> memory s' = memory s \<Longrightarrow> rest s' = rest s \<Longrightarrow> Q v s'"
  shows "wp alloc Q s"
proof (cases ps)
  case Nil
  then show ?thesis using alloc_empty assms(1) none by (simp add: wp_def)
next
  case (Cons v vs)
  then obtain s' where s': "alloc s = Ret (v, s')" "pool s' vs" "memory s' = memory s" "rest s' = rest s"
    using alloc_law assms(1) by blast
  moreover have "valid v" "v \<notin> set vs" using pool_wf[OF assms(1)] Cons by auto
  ultimately show ?thesis using some Cons by (simp add: wp_def)
qed

lemma wp_free:
  assumes "pool s ps" "valid v" "v \<notin> set ps"
    and k: "\<And>s'. pool s' (v # ps) \<Longrightarrow> (\<forall>i. i \<notin> page_bytes v \<longrightarrow> memory s' i = memory s i) \<Longrightarrow> rest s' = rest s \<Longrightarrow> Q () s'"
  shows "wp (free v) Q s"
  using free_law[OF assms(1-3)] k by (auto simp: wp_def)

text \<open>Allocating again and again gives the pages one by one, and then 0.\<close>

primrec allocs :: "nat \<Rightarrow> ('s, uint list) prog" where
  "allocs 0 = kret []"
| "allocs (Suc n) = kbind alloc (\<lambda>v. kbind (allocs n) (\<lambda>vs. kret (v # vs)))"

lemma allocs_pool:
  "pool s ps \<Longrightarrow> wp (allocs n) (\<lambda>vs s'. vs = take n ps @ replicate (n - length ps) 0 \<and> pool s' (drop n ps)) s"
proof (induction n arbitrary: s ps)
  case 0
  then show ?case by (simp add: wp_kret)
next
  case (Suc n)
  have "wp alloc (\<lambda>v. wp (allocs n) (\<lambda>vs. wp (kret (v # vs))
     (\<lambda>vs s'. vs = take (Suc n) ps @ replicate (Suc n - length ps) 0 \<and> pool s' (drop (Suc n) ps)))) s"
  proof (rule wp_alloc[OF Suc.prems])
    assume "ps = []"
    then show "wp (allocs n) (\<lambda>vs. wp (kret (0 # vs))
     (\<lambda>vs s'. vs = take (Suc n) ps @ replicate (Suc n - length ps) 0 \<and> pool s' (drop (Suc n) ps))) s"
      by (intro wp_mono[OF Suc.IH[OF Suc.prems]]) (simp add: wp_kret)
  next
    fix v vs s'
    assume "ps = v # vs" "pool s' vs"
    then show "wp (allocs n) (\<lambda>xs. wp (kret (v # xs))
     (\<lambda>vs s'. vs = take (Suc n) ps @ replicate (Suc n - length ps) 0 \<and> pool s' (drop (Suc n) ps))) s'"
      by (intro wp_mono[OF Suc.IH[of s' vs]]) (simp_all add: wp_kret)
  qed
  then show ?case by (simp add: wp_kbind_fun)
qed

text \<open>A page that is freed is the next to be given out.\<close>

lemma free_alloc:
  assumes "pool s ps" "valid v" "v \<notin> set ps"
  shows "wp (kbind (free v) (\<lambda>_. alloc)) (\<lambda>r s'. r = v \<and> pool s' ps) s"
  unfolding wp_kbind_fun
  by (rule wp_free[OF assms], rule wp_alloc, assumption) auto

end

section \<open>The free list\<close>

definition kpage :: "uint \<Rightarrow> uint \<Rightarrow> bool" where
  "kpage kend v \<longleftrightarrow> unat v mod PGSIZE = 0 \<and> v \<noteq> 0 \<and> \<not> v < kend \<and> \<not> v2p v \<ge> PHYSTOP"

primrec linked :: "bytes \<Rightarrow> uint \<Rightarrow> uint list \<Rightarrow> bool" where
  "linked m p [] \<longleftrightarrow> p = 0"
| "linked m p (v # vs) \<longleftrightarrow> p = v \<and> v \<noteq> 0 \<and> linked m (ld32 m (unat v)) vs"

definition kpool :: "uint \<Rightarrow> 'a kmem_scheme \<Rightarrow> uint list \<Rightarrow> bool" where
  "kpool kend s ps \<longleftrightarrow> linked (mem s) (freelist s) ps \<and> distinct ps \<and> (\<forall>v\<in>set ps. kpage kend v)"

lemma pages_disjoint:
  assumes "unat v mod PGSIZE = 0" "unat w mod PGSIZE = 0" "v \<noteq> w"
  shows "page_bytes v \<inter> page_bytes w = {}"
proof -
  obtain a b where "unat v = PGSIZE * a" "unat w = PGSIZE * b" using assms by (metis mod_0_imp_dvd dvdE)
  moreover from this have "a \<noteq> b" using assms(3) by (auto simp: word_unat_eq_iff)
  then have "PGSIZE * a + PGSIZE \<le> PGSIZE * b \<or> PGSIZE * b + PGSIZE \<le> PGSIZE * a"
    by (metis add.commute linorder_neqE_nat mult_Suc_right mult_le_mono2 Suc_leI)
  ultimately show ?thesis by (auto simp: page_bytes_def)
qed

lemma linked_frame:
  "\<forall>v\<in>set ps. \<forall>i\<in>page_bytes v. m' i = m i \<Longrightarrow> linked m' p ps = linked m p ps"
proof (induction ps arbitrary: p)
  case (Cons v ps)
  have "ld32 m' (unat v) = ld32 m (unat v)"
    using Cons.prems by (intro ld32_cong) (auto simp: page_bytes_def PGSIZE_def)
  then show ?case using Cons by simp
qed simp

lemma kpage_nonwrap: "kpage kend v \<Longrightarrow> unat v + PGSIZE \<le> 2 ^ 32"
proof -
  assume k: "kpage kend v"
  then obtain a where a: "unat v = 4096 * a" by (auto simp: kpage_def PGSIZE_def)
  have "4096 * a < 2 ^ 32" using unat_lt32[of v] a by simp
  then have "a < 2 ^ 20" by simp
  then show ?thesis using a by (simp add: PGSIZE_def)
qed

definition kmem_rest :: "'a kmem_scheme \<Rightarrow> bool \<times> 'a" where
  "kmem_rest s = (use_lock s, kmem.more s)"

interpretation kp: page_pool "kpool kend" "kpage kend" kalloc "kfree kend" mem freelist kmem_rest
proof
  fix v :: uint
  assume "kpage kend v"
  then show "unat v mod PGSIZE = 0 \<and> v \<noteq> 0" by (simp add: kpage_def)
next
  fix s :: "'a kmem_scheme" and ps
  assume "kpool kend s ps"
  then show "distinct ps \<and> (\<forall>v\<in>set ps. kpage kend v)" by (simp add: kpool_def)
next
  fix s :: "'a kmem_scheme"
  assume "kpool kend s []"
  then show "kalloc s = Ret (0, s)" by (simp add: kpool_def kalloc_def kbind_def kget_def kwhen_def kret_def)
next
  fix s :: "'a kmem_scheme" and v ps
  assume "kpool kend s (v # ps)"
  then show "\<exists>s'. kalloc s = Ret (v, s') \<and> kpool kend s' ps \<and> mem s' = mem s \<and> kmem_rest s' = kmem_rest s"
    by (auto simp: kpool_def kalloc_def kbind_def kget_def kwhen_def kret_def kmod_def kmem_rest_def)
next
  fix s :: "'a kmem_scheme" and v ps
  assume p: "kpool kend s ps" and v: "kpage kend v" "v \<notin> set ps"
  let ?m = "st32 (memset (mem s) (unat v) 1 PGSIZE) (unat v) (freelist s)"
  have out: "?m i = mem s i" if "i \<notin> page_bytes v" for i
    using that by (auto simp: page_bytes_def memset_eq st32_def PGSIZE_def)
  have "\<forall>w\<in>set ps. \<forall>i\<in>page_bytes w. ?m i = mem s i"
  proof (intro ballI)
    fix w i assume "w \<in> set ps" "i \<in> page_bytes w"
    then have "i \<notin> page_bytes v" using pages_disjoint[of v w] p v by (auto simp: kpool_def kpage_def)
    then show "?m i = mem s i" by (rule out)
  qed
  then have "linked ?m (freelist s) ps" using linked_frame[THEN iffD2] p by (auto simp: kpool_def)
  then show "\<exists>s'. kfree kend v s = Ret ((), s') \<and> kpool kend s' (v # ps) \<and>
      (\<forall>i. i \<notin> page_bytes v \<longrightarrow> mem s' i = mem s i) \<and> kmem_rest s' = kmem_rest s"
    using p v out by (auto simp: kfree_def kpage_def kbind_def kmod_def kpool_def kmem_rest_def)
next
  fix s s' :: "'a kmem_scheme" and ps
  assume "kpool kend s ps" "\<forall>v\<in>set ps. \<forall>i\<in>page_bytes v. mem s' i = mem s i" "freelist s' = freelist s"
  then show "kpool kend s' ps" using linked_frame[of ps "mem s'" "mem s"] by (auto simp: kpool_def)
qed

section \<open>Initialisation\<close>

lemma unat_rounddown: "unat (PGROUNDDOWN a) = unat a - unat a mod PGSIZE"
proof -
  have m: "(4095 :: uint) = mask 12" by (simp add: mask_eq_exp_minus_1)
  have "PGROUNDDOWN a = push_bit 12 (drop_bit 12 a)"
    by (rule bit_word_eqI) (auto simp: PGROUNDDOWN_def m bit_simps bit_mask_iff)
  then have "PGROUNDDOWN a + take_bit 12 a = a" by (simp add: bits_ident)
  moreover have "take_bit 12 a = a mod 4096" by (simp add: take_bit_eq_mod)
  ultimately have e: "PGROUNDDOWN a = a - a mod 4096" by (simp add: eq_diff_eq)
  have "a mod 4096 \<le> a" by (simp add: word_le_nat_alt unat_mod)
  then show ?thesis unfolding e by (simp add: unat_sub unat_mod PGSIZE_def)
qed

lemma rounddown_aligned: "unat (PGROUNDDOWN a) mod PGSIZE = 0"
  unfolding unat_rounddown by (simp add: minus_mod_eq_mult_div)

lemma PGROUNDUP_down: "PGROUNDUP a = PGROUNDDOWN (a + 4095)"
  by (simp add: PGROUNDUP_def PGROUNDDOWN_def)

definition pages_in :: "nat \<Rightarrow> nat \<Rightarrow> uint set" where
  \<comment> \<open>the pages that lie between two addresses\<close>
  "pages_in a b = {v. unat v mod PGSIZE = 0 \<and> a \<le> unat v \<and> unat v + PGSIZE \<le> b}"

lemma aligned_next:
  assumes "a mod PGSIZE = 0" "b mod PGSIZE = 0" "a < b"
  shows "a + PGSIZE \<le> b"
proof -
  obtain x y where "a = PGSIZE * x" "b = PGSIZE * y" using assms by (metis mod_0_imp_dvd dvdE)
  moreover from this assms(3) have "Suc x \<le> y" by (simp add: PGSIZE_def)
  then have "PGSIZE * Suc x \<le> PGSIZE * y" by (rule mult_le_mono2)
  ultimately show ?thesis by simp
qed

lemma pages_in_step:
  assumes "unat p mod PGSIZE = 0" "unat p + PGSIZE \<le> b"
  shows "pages_in (unat p) b = insert p (pages_in (unat p + PGSIZE) b)"
proof -
  have "unat p + PGSIZE \<le> unat v" if "unat v mod PGSIZE = 0" "unat p \<le> unat v" "v \<noteq> p" for v
    using aligned_next[OF assms(1) that(1)] that(2,3) by (auto simp: word_unat_eq_iff)
  then show ?thesis using assms by (auto simp: pages_in_def)
qed

lemma kpage_range:
  assumes "unat v mod PGSIZE = 0" "kend \<le> v" "KERNBASE \<le> v" "unat v + PGSIZE \<le> unat KERNBASE + unat PHYSTOP"
  shows "kpage kend v"
proof -
  have "unat (v2p v) = unat v - unat KERNBASE" unfolding v2p_def using assms(3) by (simp add: unat_sub)
  then have "unat (v2p v) < unat PHYSTOP" using assms(4) by (simp add: PGSIZE_def PHYSTOP_def)
  then show ?thesis using assms by (auto simp: kpage_def word_le_nat_alt word_less_nat_alt KERNBASE_def)
qed

lemma wp_freerange_from:
  assumes "kpool kend s ps" "unat p mod PGSIZE = 0" "kend \<le> p" "KERNBASE \<le> p" "unat vend \<le> unat KERNBASE + unat PHYSTOP"
    "set ps \<inter> pages_in (unat p) (unat vend) = {}" "0 < f" "unat vend < unat p + PGSIZE * f" "unat p < unat KERNBASE + unat PHYSTOP + PGSIZE"
    and Q: "\<And>s' qs. kpool kend s' (qs @ ps) \<Longrightarrow> set qs = pages_in (unat p) (unat vend) \<Longrightarrow> kmem_rest s' = kmem_rest s \<Longrightarrow> Q () s'"
  shows "wp (freerange_from f kend p vend) Q s"
  using assms
proof (induction f arbitrary: s p ps)
  case (Suc f)
  have lim: "unat KERNBASE + unat PHYSTOP + PGSIZE + PGSIZE < 2 ^ 32" by (simp add: KERNBASE_def PHYSTOP_def PGSIZE_def)
  have next_p: "unat (p + 4096) = unat p + PGSIZE"
    using Suc.prems(9) lim unat_add32[of p 4096] by (simp add: PGSIZE_def)
  show ?case
  proof (cases "p + 4096 \<le> vend")
    case False
    then have "pages_in (unat p) (unat vend) = {}" using next_p by (auto simp: pages_in_def word_le_nat_alt)
    then show ?thesis using False Suc.prems(1) Suc.prems(10)[of s "[]"] by (simp add: wp_kret)
  next
    case True
    then have le: "unat p + PGSIZE \<le> unat vend" using next_p by (simp add: word_le_nat_alt)
    note step = pages_in_step[OF Suc.prems(2) le]
    have v: "kpage kend p" using Suc.prems(2-5) le by (intro kpage_range) simp_all
    have np: "p \<notin> set ps" using Suc.prems(6) step by auto
    have "wp (kfree kend p) (\<lambda>_. wp (freerange_from f kend (p + 4096) vend) Q) s"
    proof (rule kp.wp_free[OF Suc.prems(1) v np])
      fix s1
      assume s1: "kpool kend s1 (p # ps)" "kmem_rest s1 = kmem_rest s"
      have np': "p \<notin> pages_in (unat p + PGSIZE) (unat vend)" by (simp add: pages_in_def PGSIZE_def)
      have geq: "kend \<le> p + 4096" "KERNBASE \<le> p + 4096" using Suc.prems(3,4) next_p by (auto simp: word_le_nat_alt)
      have f0: "0 < f" using Suc.prems(8) le by (cases f) simp_all
      show "wp (freerange_from f kend (p + 4096) vend) Q s1"
      proof (rule Suc.IH[OF s1(1)], goal_cases)
        case (9 s2 qs)
        show ?case
          using Suc.prems(10)[of s2 "qs @ [p]"] 9 step s1(2) next_p by simp
      qed (use Suc.prems(2,5,6,8) geq f0 step np' next_p le lim in \<open>auto simp: PGSIZE_def\<close>)
    qed
    then show ?thesis using True by (simp add: wp_kbind_fun)
  qed
qed simp

lemma roundup_pages:
  assumes "unat v + 4095 < 2 ^ 32"
  shows "unat v \<le> unat (PGROUNDUP v)" "unat (PGROUNDUP v) < unat v + PGSIZE" "unat (PGROUNDUP v) mod PGSIZE = 0"
    "pages_in (unat (PGROUNDUP v)) b = pages_in (unat v) b"
proof -
  have "unat (v + 4095) = unat v + 4095" using unat_add32[of v 4095] assms by simp
  then have u: "unat (PGROUNDUP v) = unat v + 4095 - (unat v + 4095) mod PGSIZE"
    by (simp add: PGROUNDUP_down unat_rounddown)
  have "(unat v + 4095) mod PGSIZE < PGSIZE" by (simp add: PGSIZE_def)
  then show lo: "unat v \<le> unat (PGROUNDUP v)" and hi: "unat (PGROUNDUP v) < unat v + PGSIZE"
    using u by (auto simp: PGSIZE_def)
  show al: "unat (PGROUNDUP v) mod PGSIZE = 0" by (simp add: PGROUNDUP_down rounddown_aligned)
  have "unat (PGROUNDUP v) \<le> unat w" if "unat w mod PGSIZE = 0" "unat v \<le> unat w" for w :: uint
  proof (rule ccontr)
    assume "\<not> unat (PGROUNDUP v) \<le> unat w"
    then have "unat w + PGSIZE \<le> unat (PGROUNDUP v)" using aligned_next[OF that(1) al] by simp
    then show False using that(2) hi by simp
  qed
  then show "pages_in (unat (PGROUNDUP v)) b = pages_in (unat v) b" using lo by (auto simp: pages_in_def)
qed

lemma wp_freerange:
  assumes "kpool kend s ps" "kend \<le> vstart" "KERNBASE \<le> vstart" "vstart \<le> vend" "unat vend \<le> unat KERNBASE + unat PHYSTOP"
    "set ps \<inter> pages_in (unat vstart) (unat vend) = {}"
    and Q: "\<And>s' qs. kpool kend s' (qs @ ps) \<Longrightarrow> set qs = pages_in (unat vstart) (unat vend) \<Longrightarrow> Q () s'"
  shows "wp (freerange kend vstart vend) Q s"
proof -
  have lim: "unat KERNBASE + unat PHYSTOP + 4096 < 2 ^ 32" by (simp add: KERNBASE_def PHYSTOP_def)
  have v: "unat vstart \<le> unat vend" using assms(4) by (simp add: word_le_nat_alt)
  then have "unat vstart + 4095 < 2 ^ 32" using assms(5) lim by simp
  note r = roundup_pages[OF this]
  show ?thesis
    unfolding freerange_def
  proof (rule wp_freerange_from[OF assms(1)], goal_cases)
    case (9 s' qs)
    then show ?case using Q r(4) by simp
  qed (use assms(2-6) r v unat_lt32[of vend] in \<open>auto simp: word_le_nat_alt PGSIZE_def\<close>)
qed

lemma pages_in_join:
  assumes "m mod PGSIZE = 0" "a \<le> m" "m \<le> b"
  shows "pages_in a m \<union> pages_in m b = pages_in a b" "pages_in a m \<inter> pages_in m b = {}"
proof -
  have "unat v + PGSIZE \<le> m" if "unat v mod PGSIZE = 0" "unat v < m" for v :: uint using aligned_next[OF that(1) assms(1) that(2)] .
  then show "pages_in a m \<union> pages_in m b = pages_in a b" using assms by (fastforce simp: pages_in_def)
  show "pages_in a m \<inter> pages_in m b = {}" by (auto simp: pages_in_def PGSIZE_def)
qed

text \<open>C25: After \<open>kinit1\<close> and \<open>kinit2\<close> the free list holds every page that lies in the two adjoining ranges they are
  given, each of them once, and no other.\<close>

theorem kinit_pages:
  assumes "freelist s = 0" "kend \<le> vstart" "KERNBASE \<le> vstart" "vstart \<le> mid" "mid \<le> vend" "unat vend \<le> unat KERNBASE + unat PHYSTOP"
    "unat mid mod PGSIZE = 0"
  shows "wp (kbind (kinit1 kend vstart mid) (\<lambda>_. kinit2 kend mid vend))
    (\<lambda>_ s'. \<exists>ps. kpool kend s' ps \<and> set ps = pages_in (unat vstart) (unat vend) \<and> use_lock s') s"
proof -
  let ?s = "s\<lparr>use_lock := False\<rparr>"
  have init: "kpool kend ?s []" using assms(1) by (simp add: kpool_def)
  have m: "unat vstart \<le> unat mid" "unat mid \<le> unat vend" using assms(4,5) by (auto simp: word_le_nat_alt)
  note j = pages_in_join[OF assms(7) m]
  have "wp (freerange kend vstart mid) (\<lambda>_. wp (freerange kend mid vend) (\<lambda>_. wp (kmod (\<lambda>s. s\<lparr>use_lock := True\<rparr>))
    (\<lambda>_ s'. \<exists>ps. kpool kend s' ps \<and> set ps = pages_in (unat vstart) (unat vend) \<and> use_lock s'))) ?s"
  proof (rule wp_freerange[OF init], goal_cases)
    case (6 s1 qs)
    show ?case
    proof (rule wp_freerange[OF 6(1)], goal_cases)
      case (6 s2 rs)
      then have "kpool kend (s2\<lparr>use_lock := True\<rparr>) (rs @ qs @ [])" by (simp add: kpool_def)
      then show ?case using 6(2) \<open>set qs = _\<close> j(1) by (auto simp: wp_kmod intro!: exI[of _ "rs @ qs @ []"])
    qed (use assms j(2) 6(2) in auto)
  qed (use assms m in auto)
  then show ?thesis by (simp add: kinit1_def kinit2_def wp_kbind_fun wp_kmod)
qed

theorem kinit_pages_witness:
  "wp (kbind (kinit1 0x80108000 0x80108123 0x80400000) (\<lambda>_. kinit2 0x80108000 0x80400000 0x8E000000))
    (\<lambda>_ s'. \<exists>ps. kpool 0x80108000 s' ps \<and> 0x80109000 \<in> set ps \<and> 0x80108000 \<notin> set ps) \<lparr>mem = zero_bytes, freelist = 0, use_lock = True\<rparr>"
  by (rule wp_mono[OF kinit_pages]) (auto simp: KERNBASE_def PHYSTOP_def PGSIZE_def pages_in_def)

text \<open>C24: \<open>kalloc\<close> returns distinct pages that were free, in the order of the list, until none is left, and
  then 0; \<open>kfree\<close> makes a page the next to be returned. The memory of the other pages stays as it is.\<close>

theorem kalloc_refines_stack:
  assumes "kpool kend s ps"
  shows "wp kalloc (\<lambda>v s'. v = (case ps of [] \<Rightarrow> 0 | p # _ \<Rightarrow> p) \<and> kpool kend s' (tl ps) \<and> mem s' = mem s) s \<and>
    (\<forall>v. kpage kend v \<and> v \<notin> set ps \<longrightarrow>
       wp (kfree kend v) (\<lambda>_ s'. kpool kend s' (v # ps) \<and> (\<forall>i. i \<notin> page_bytes v \<longrightarrow> mem s' i = mem s i)) s) \<and>
    (\<forall>v. \<not> kpage kend v \<and> v \<noteq> 0 \<longrightarrow> kfree kend v s = Panic ''kfree'')"
proof (intro conjI allI impI)
  show "wp kalloc (\<lambda>v s'. v = (case ps of [] \<Rightarrow> 0 | p # _ \<Rightarrow> p) \<and> kpool kend s' (tl ps) \<and> mem s' = mem s) s"
    by (rule kp.wp_alloc[OF assms]) (use assms in auto)
  fix v
  show "wp (kfree kend v) (\<lambda>_ s'. kpool kend s' (v # ps) \<and> (\<forall>i. i \<notin> page_bytes v \<longrightarrow> mem s' i = mem s i)) s"
    if "kpage kend v \<and> v \<notin> set ps"
    by (rule kp.wp_free[OF assms]) (use that in auto)
  show "kfree kend v s = Panic ''kfree''" if "\<not> kpage kend v \<and> v \<noteq> 0"
    using that by (auto simp: kfree_def kpage_def kpanic_def)
qed

theorem kalloc_refines_stack_witness:
  "kfree 0x80108000 0x80109010 \<lparr>mem = zero_bytes, freelist = 0, use_lock = True\<rparr> = Panic ''kfree''"
proof -
  have "kpool 0x80108000 \<lparr>mem = zero_bytes, freelist = 0, use_lock = True\<rparr> []" by (simp add: kpool_def)
  from kalloc_refines_stack[OF this] show ?thesis by (simp add: kpage_def PGSIZE_def)
qed

end
