(* ===== verification/Vm.thy ===== *)
theory Vm
  imports Kalloc
begin

text \<open>
  Page tables (\<^verbatim>\<open>vm.c\<close>). A page directory and its page tables are pages of kernel memory, whose entries are
  read and written with \<open>ld32\<close> and \<open>st32\<close>; pointers to entries are addresses, and 0 is the null
  pointer. \<open>end\<close> and \<open>data\<close>, placed by the linker, are parameters. \<open>loaduvm\<close> reads a file through an
  operation it is given. Loops over addresses carry fuel for the \<open>2 ^ 20\<close> pages of the address space.

  \<open>pte_of\<close> is the mapping that a page directory describes, and \<open>vm_ok\<close> says that the directory and its tables
  are pages of their own.
\<close>

section \<open>Operations\<close>

definition EXTMEM :: uint where "EXTMEM = 0x100000"
definition DEVSPACE :: uint where "DEVSPACE = 0xFE000000"
definition KERNLINK :: uint where "KERNLINK = KERNBASE + EXTMEM"

definition PDX :: "uint \<Rightarrow> uint" where "PDX va = drop_bit 22 va AND 0x3FF"
definition PTX :: "uint \<Rightarrow> uint" where "PTX va = drop_bit 12 va AND 0x3FF"

abbreviation (input) PTE_P :: uint where "PTE_P \<equiv> 1"
abbreviation (input) PTE_W :: uint where "PTE_W \<equiv> 2"
abbreviation (input) PTE_U :: uint where "PTE_U \<equiv> 4"

definition PTE_ADDR :: "uint \<Rightarrow> uint" where "PTE_ADDR pte = pte AND NOT 0xFFF"
definition PTE_FLAGS :: "uint \<Rightarrow> uint" where "PTE_FLAGS pte = pte AND 0xFFF"

record vm = kmem +
  kpgdir :: uint
  cr3 :: uint

definition ldw :: "uint \<Rightarrow> ('a kmem_scheme, uint) prog" where
  "ldw a = kget (\<lambda>s. ld32 (mem s) (unat a))"

definition stw :: "uint \<Rightarrow> uint \<Rightarrow> ('a kmem_scheme, unit) prog" where
  "stw a v = kmod (\<lambda>s. s\<lparr>mem := st32 (mem s) (unat a) v\<rparr>)"

definition clear_page :: "uint \<Rightarrow> ('a kmem_scheme, unit) prog" where
  "clear_page a = kmod (\<lambda>s. s\<lparr>mem := memset (mem s) (unat a) 0 PGSIZE\<rparr>)"

definition walkpgdir :: "uint \<Rightarrow> uint \<Rightarrow> bool \<Rightarrow> ('a kmem_scheme, uint) prog" where
  "walkpgdir pgdir va alloc =
     (let pde = pgdir + 4 * PDX va in
      kbind (ldw pde) (\<lambda>e.
      if e AND PTE_P \<noteq> 0 then kret (p2v (PTE_ADDR e) + 4 * PTX va)
      else if \<not> alloc then kret 0
      else
        kbind kalloc (\<lambda>pgtab.
        if pgtab = 0 then kret 0
        else
          kbind (clear_page pgtab) (\<lambda>_.
          kbind (stw pde (v2p pgtab OR PTE_P OR PTE_W OR PTE_U)) (\<lambda>_.
          kret (pgtab + 4 * PTX va))))))"

definition PAGES :: nat where "PAGES = 2 ^ 20"

primrec mappages_from :: "nat \<Rightarrow> uint \<Rightarrow> uint \<Rightarrow> uint \<Rightarrow> uint \<Rightarrow> uint \<Rightarrow> ('a kmem_scheme, int) prog" where
  "mappages_from 0 pgdir a last_a pa perm = kdiverge"
| "mappages_from (Suc f) pgdir a last_a pa perm =
     kbind (walkpgdir pgdir a True) (\<lambda>pte.
     if pte = 0 then kret (-1)
     else
       kbind (ldw pte) (\<lambda>e.
       if e AND PTE_P \<noteq> 0 then kpanic ''remap''
       else
         kbind (stw pte (pa OR perm OR PTE_P)) (\<lambda>_.
         if a = last_a then kret 0
         else mappages_from f pgdir (a + 4096) last_a (pa + 4096) perm)))"

definition mappages :: "uint \<Rightarrow> uint \<Rightarrow> uint \<Rightarrow> uint \<Rightarrow> uint \<Rightarrow> ('a kmem_scheme, int) prog" where
  "mappages pgdir va sz pa perm =
     mappages_from PAGES pgdir (PGROUNDDOWN va) (PGROUNDDOWN (va + sz - 1)) pa perm"

record kmap_entry =
  km_virt :: uint
  km_start :: uint
  km_end :: uint
  km_perm :: uint

definition kmap :: "uint \<Rightarrow> kmap_entry list" where
  "kmap data =
     [\<lparr>km_virt = KERNBASE, km_start = 0, km_end = EXTMEM, km_perm = PTE_W\<rparr>,
      \<lparr>km_virt = KERNLINK, km_start = v2p KERNLINK, km_end = v2p data, km_perm = 0\<rparr>,
      \<lparr>km_virt = data, km_start = v2p data, km_end = PHYSTOP, km_perm = PTE_W\<rparr>,
      \<lparr>km_virt = DEVSPACE, km_start = DEVSPACE, km_end = 0, km_perm = PTE_W\<rparr>]"

primrec map_all :: "kmap_entry list \<Rightarrow> uint \<Rightarrow> ('a kmem_scheme, bool) prog" where
  "map_all [] pgdir = kret True"
| "map_all (k # ks) pgdir =
     kbind (mappages pgdir (km_virt k) (km_end k - km_start k) (km_start k) (km_perm k)) (\<lambda>r.
     if r < 0 then kret False else map_all ks pgdir)"

definition setupkvm :: "uint \<Rightarrow> ('a kmem_scheme, uint) prog" where
  "setupkvm data =
     kbind kalloc (\<lambda>pgdir.
     if pgdir = 0 then kret 0
     else
       kbind (clear_page pgdir) (\<lambda>_.
       if p2v PHYSTOP > DEVSPACE then kpanic ''PHYSTOP too high''
       else
         kbind (map_all (kmap data) pgdir) (\<lambda>ok.
         kret (if ok then pgdir else 0))))"

definition switchkvm :: "('a vm_scheme, unit) prog" where
  "switchkvm = kmod (\<lambda>s. s\<lparr>cr3 := v2p (kpgdir s)\<rparr>)"

definition kvmalloc :: "uint \<Rightarrow> ('a vm_scheme, unit) prog" where
  "kvmalloc data =
     kbind (setupkvm data) (\<lambda>p.
     kbind (kmod (\<lambda>s. s\<lparr>kpgdir := p\<rparr>)) (\<lambda>_. switchkvm))"

definition inituvm :: "uint \<Rightarrow> uchar list \<Rightarrow> ('a kmem_scheme, unit) prog" where
  \<comment> \<open>\<open>init\<close> is the code of the first process, \<open>sz\<close> bytes\<close>
  "inituvm pgdir init =
     (if length init \<ge> PGSIZE then kpanic ''inituvm: more than a page''
      else
        kbind kalloc (\<lambda>m.
        kbind (clear_page m) (\<lambda>_.
        kbind (mappages pgdir 0 4096 (v2p m) (PTE_W OR PTE_U)) (\<lambda>_.
        kmod (\<lambda>s. s\<lparr>mem := blit (mem s) (unat m) (cview init) 0 (length init)\<rparr>)))))"

primrec loaduvm_from :: "nat \<Rightarrow> (uint \<Rightarrow> uint \<Rightarrow> uint \<Rightarrow> ('a kmem_scheme, int) prog) \<Rightarrow> uint \<Rightarrow> uint \<Rightarrow> uint \<Rightarrow> uint \<Rightarrow> uint \<Rightarrow>
    ('a kmem_scheme, int) prog" where
  "loaduvm_from 0 rd pgdir addr offset sz i = kdiverge"
| "loaduvm_from (Suc f) rd pgdir addr offset sz i =
     (if i < sz then
        kbind (walkpgdir pgdir (addr + i) False) (\<lambda>pte.
        if pte = 0 then kpanic ''loaduvm: address should exist''
        else
          kbind (ldw pte) (\<lambda>e.
          let pa = PTE_ADDR e; n = if sz - i < 4096 then sz - i else 4096 in
          kbind (rd (p2v pa) (offset + i) n) (\<lambda>r.
          if r \<noteq> sint n then kret (-1)
          else loaduvm_from f rd pgdir addr offset sz (i + 4096))))
      else kret 0)"

definition loaduvm :: "(uint \<Rightarrow> uint \<Rightarrow> uint \<Rightarrow> ('a kmem_scheme, int) prog) \<Rightarrow> uint \<Rightarrow> uint \<Rightarrow> uint \<Rightarrow> uint \<Rightarrow> ('a kmem_scheme, int) prog" where
  \<comment> \<open>\<open>rd dst off n\<close> is \<open>vop_read(ip, dst, off, n)\<close>\<close>
  "loaduvm rd pgdir addr offset sz =
     (if unat addr mod PGSIZE \<noteq> 0 then kpanic ''loaduvm: addr must be page aligned''
      else loaduvm_from (PAGES + 1) rd pgdir addr offset sz 0)"

primrec deallocuvm_from :: "nat \<Rightarrow> uint \<Rightarrow> uint \<Rightarrow> uint \<Rightarrow> uint \<Rightarrow> ('a kmem_scheme, unit) prog" where
  "deallocuvm_from 0 kend pgdir a oldsz = kdiverge"
| "deallocuvm_from (Suc f) kend pgdir a oldsz =
     (if a < oldsz then
        kbind (walkpgdir pgdir a False) (\<lambda>pte.
        if pte = 0 then deallocuvm_from f kend pgdir (a + 1023 * 4096 + 4096) oldsz
        else
          kbind (ldw pte) (\<lambda>e.
          kbind (kwhen (e AND PTE_P \<noteq> 0)
            (let pa = PTE_ADDR e in
             if pa = 0 then kpanic ''kfree''
             else kbind (kfree kend (p2v pa)) (\<lambda>_. stw pte 0))) (\<lambda>_.
          deallocuvm_from f kend pgdir (a + 4096) oldsz)))
      else kret ())"

definition deallocuvm :: "uint \<Rightarrow> uint \<Rightarrow> uint \<Rightarrow> uint \<Rightarrow> ('a kmem_scheme, uint) prog" where
  "deallocuvm kend pgdir oldsz newsz =
     (if newsz \<ge> oldsz then kret oldsz
      else kbind (deallocuvm_from (PAGES + 1) kend pgdir (PGROUNDUP newsz) oldsz) (\<lambda>_. kret newsz))"

primrec allocuvm_from :: "nat \<Rightarrow> uint \<Rightarrow> uint \<Rightarrow> uint \<Rightarrow> uint \<Rightarrow> uint \<Rightarrow> ('a kmem_scheme, uint) prog" where
  "allocuvm_from 0 kend pgdir a oldsz newsz = kdiverge"
| "allocuvm_from (Suc f) kend pgdir a oldsz newsz =
     (if a < newsz then
        kbind kalloc (\<lambda>m.
        if m = 0 then kbind (deallocuvm kend pgdir newsz oldsz) (\<lambda>_. kret 0)
        else
          kbind (clear_page m) (\<lambda>_.
          kbind (mappages pgdir a 4096 (v2p m) (PTE_W OR PTE_U)) (\<lambda>_.
          allocuvm_from f kend pgdir (a + 4096) oldsz newsz)))
      else kret newsz)"

definition allocuvm :: "uint \<Rightarrow> uint \<Rightarrow> uint \<Rightarrow> uint \<Rightarrow> ('a kmem_scheme, uint) prog" where
  "allocuvm kend pgdir oldsz newsz =
     (if newsz \<ge> KERNBASE then kret 0
      else if newsz < oldsz then kret oldsz
      else allocuvm_from (PAGES + 1) kend pgdir (PGROUNDUP oldsz) oldsz newsz)"

definition freevm :: "uint \<Rightarrow> uint \<Rightarrow> ('a kmem_scheme, unit) prog" where
  "freevm kend pgdir =
     (if pgdir = 0 then kpanic ''freevm: no pgdir''
      else
        kbind (deallocuvm kend pgdir KERNBASE 0) (\<lambda>_.
        kbind (kfor 0 1024 (\<lambda>i.
          kbind (ldw (pgdir + of_nat (4 * i))) (\<lambda>e.
          kwhen (e AND PTE_P \<noteq> 0) (kfree kend (p2v (PTE_ADDR e)))))) (\<lambda>_.
        kfree kend pgdir)))"

definition clearpteu :: "uint \<Rightarrow> uint \<Rightarrow> ('a kmem_scheme, unit) prog" where
  "clearpteu pgdir uva =
     kbind (walkpgdir pgdir uva False) (\<lambda>pte.
     if pte = 0 then kpanic ''clearpteu''
     else kbind (ldw pte) (\<lambda>e. stw pte (e AND NOT PTE_U)))"

primrec copyuvm_from :: "nat \<Rightarrow> uint \<Rightarrow> uint \<Rightarrow> uint \<Rightarrow> uint \<Rightarrow> uint \<Rightarrow> ('a kmem_scheme, uint) prog" where
  "copyuvm_from 0 kend pgdir d sz i = kdiverge"
| "copyuvm_from (Suc f) kend pgdir d sz i =
     (if i < sz then
        kbind (walkpgdir pgdir i False) (\<lambda>pte.
        if pte = 0 then kpanic ''copyuvm: pte should exist''
        else
          kbind (ldw pte) (\<lambda>e.
          if e AND PTE_P = 0 then kpanic ''copyuvm: page not present''
          else
            let pa = PTE_ADDR e; flags = PTE_FLAGS e in
            kbind kalloc (\<lambda>m.
            if m = 0 then kbind (freevm kend d) (\<lambda>_. kret 0)
            else
              kbind (kmod (\<lambda>s. s\<lparr>mem := memmove (mem s) (unat m) (unat (p2v pa)) PGSIZE\<rparr>)) (\<lambda>_.
              kbind (mappages d i 4096 (v2p m) flags) (\<lambda>r.
              if r < 0 then kbind (freevm kend d) (\<lambda>_. kret 0)
              else copyuvm_from f kend pgdir d sz (i + 4096))))))
      else kret d)"

definition copyuvm :: "uint \<Rightarrow> uint \<Rightarrow> uint \<Rightarrow> uint \<Rightarrow> ('a kmem_scheme, uint) prog" where
  "copyuvm kend data pgdir sz =
     kbind (setupkvm data) (\<lambda>d.
     if d = 0 then kret 0 else copyuvm_from (PAGES + 1) kend pgdir d sz 0)"

definition uva2ka :: "uint \<Rightarrow> uint \<Rightarrow> ('a kmem_scheme, uint) prog" where
  "uva2ka pgdir uva =
     kbind (walkpgdir pgdir uva False) (\<lambda>pte.
     kbind (ldw pte) (\<lambda>e.
     kret (if e AND PTE_P = 0 then 0 else if e AND PTE_U = 0 then 0 else p2v (PTE_ADDR e))))"

primrec copyout_from :: "nat \<Rightarrow> uint \<Rightarrow> uint \<Rightarrow> bytes \<Rightarrow> nat \<Rightarrow> uint \<Rightarrow> ('a kmem_scheme, int) prog" where
  \<comment> \<open>\<open>buf + k\<close> points at what is still to be copied\<close>
  "copyout_from 0 pgdir va buf k len = kdiverge"
| "copyout_from (Suc f) pgdir va buf k len =
     (if len > 0 then
        let va0 = PGROUNDDOWN va in
        kbind (uva2ka pgdir va0) (\<lambda>pa0.
        if pa0 = 0 then kret (-1)
        else
          let n = if 4096 - (va - va0) > len then len else 4096 - (va - va0) in
          kbind (kmod (\<lambda>s. s\<lparr>mem := blit (mem s) (unat (pa0 + (va - va0))) buf k (unat n)\<rparr>)) (\<lambda>_.
          copyout_from f pgdir (va0 + 4096) buf (k + unat n) (len - n)))
      else kret 0)"

definition copyout :: "uint \<Rightarrow> uint \<Rightarrow> bytes \<Rightarrow> uint \<Rightarrow> ('a kmem_scheme, int) prog" where
  \<comment> \<open>the \<open>len\<close> bytes \<open>buf\<close> do not lie in a page the copy writes to\<close>
  "copyout pgdir va buf len = copyout_from (PAGES + 2) pgdir va buf 0 len"

section \<open>The mapping of a page directory\<close>

definition pde_of :: "bytes \<Rightarrow> uint \<Rightarrow> uint \<Rightarrow> uint" where
  "pde_of m pgdir va = ld32 m (unat (pgdir + 4 * PDX va))"

definition table_of :: "bytes \<Rightarrow> uint \<Rightarrow> uint \<Rightarrow> uint" where
  "table_of m pgdir va = p2v (PTE_ADDR (pde_of m pgdir va))"

definition pte_of :: "bytes \<Rightarrow> uint \<Rightarrow> uint \<Rightarrow> uint" where
  \<comment> \<open>the entry for an address, 0 where there is no page table\<close>
  "pte_of m pgdir va = (if pde_of m pgdir va AND 1 = 0 then 0 else ld32 m (unat (table_of m pgdir va + 4 * PTX va)))"

definition vm_ok :: "uint \<Rightarrow> 'a kmem_scheme \<Rightarrow> uint list \<Rightarrow> uint \<Rightarrow> bool" where
  \<comment> \<open>the directory and its tables are allocated pages, one table for each entry\<close>
  "vm_ok kend s ps pgdir \<longleftrightarrow> kpool kend s ps \<and> kpage kend pgdir \<and> pgdir \<notin> set ps \<and>
     (\<forall>va. pde_of (mem s) pgdir va AND 1 \<noteq> 0 \<longrightarrow>
        kpage kend (table_of (mem s) pgdir va) \<and> table_of (mem s) pgdir va \<notin> set ps \<and> table_of (mem s) pgdir va \<noteq> pgdir) \<and>
     (\<forall>va vb. pde_of (mem s) pgdir va AND 1 \<noteq> 0 \<and> pde_of (mem s) pgdir vb AND 1 \<noteq> 0 \<and>
        table_of (mem s) pgdir va = table_of (mem s) pgdir vb \<longrightarrow> PDX va = PDX vb)"

lemma unat_index: "unat (PDX va) < 1024" "unat (PTX va) < 1024"
proof -
  have "unat (x AND 0x3FF :: uint) < 1024" for x
  proof -
    have "x AND 0x3FF = take_bit 10 x" by (simp add: take_bit_eq_mask mask_eq_exp_minus_1)
    then show ?thesis by (simp add: take_bit_eq_mod unat_mod)
  qed
  then show "unat (PDX va) < 1024" "unat (PTX va) < 1024" by (simp_all add: PDX_def PTX_def)
qed

text \<open>Entries of a page lie in the page, and different entries do not overlap.\<close>

lemma entry_addr:
  assumes "kpage kend p" "unat i < 1024"
  shows "unat (p + 4 * i) = unat p + 4 * unat i" "{unat (p + 4 * i)..<unat (p + 4 * i) + 4} \<subseteq> page_bytes p"
proof -
  have i4: "unat (4 * i) = 4 * unat i" using assms(2) by (simp add: unat_word_ariths)
  show e: "unat (p + 4 * i) = unat p + 4 * unat i"
    using kpage_nonwrap[OF assms(1)] assms(2) i4 unat_add32[of p "4 * i"] by (simp add: PGSIZE_def)
  show "{unat (p + 4 * i)..<unat (p + 4 * i) + 4} \<subseteq> page_bytes p"
    using assms(2) unfolding e by (auto simp: page_bytes_def PGSIZE_def)
qed

lemma ld_st_entry:
  assumes "kpage kend p" "kpage kend q" "unat i < 1024" "unat j < 1024"
  shows "ld32 (st32 m (unat (p + 4 * i)) v) (unat (q + 4 * j)) = (if p = q \<and> i = j then v else ld32 m (unat (q + 4 * j)))"
proof (cases "p = q")
  case True
  note e = entry_addr(1)[OF assms(1,3)] entry_addr(1)[OF assms(2,4)]
  have "i \<noteq> j \<Longrightarrow> unat i < unat j \<or> unat j < unat i" by (auto simp: word_unat_eq_iff)
  then have "i \<noteq> j \<Longrightarrow> unat (q + 4 * j) + 4 \<le> unat (p + 4 * i) \<or> unat (p + 4 * i) + 4 \<le> unat (q + 4 * j)"
    unfolding e using True by auto
  then show ?thesis using True by (cases "i = j") auto
next
  case False
  have d: "page_bytes p \<inter> page_bytes q = {}" using False assms by (intro pages_disjoint) (auto simp: kpage_def)
  have "st32 m (unat (p + 4 * i)) v k = m k" if "unat (q + 4 * j) \<le> k" "k < unat (q + 4 * j) + 4" for k
  proof -
    have "k \<in> page_bytes q" using entry_addr(2)[OF assms(2,4)] that by auto
    then have "k \<notin> {unat (p + 4 * i)..<unat (p + 4 * i) + 4}" using d entry_addr(2)[OF assms(1,3)] by auto
    then show ?thesis by (auto simp: st32_def)
  qed
  then show ?thesis using False by (auto intro: ld32_cong)
qed

lemma ld_page_frame:
  assumes "kpage kend p" "unat i < 1024" "\<And>k. k \<in> page_bytes p \<Longrightarrow> m' k = m k"
  shows "ld32 m' (unat (p + 4 * i)) = ld32 m (unat (p + 4 * i))"
  using entry_addr(2)[OF assms(1,2)] assms(3) by (intro ld32_cong) auto

lemma st_entry_page:
  assumes "kpage kend p" "unat i < 1024" "k \<notin> page_bytes p"
  shows "st32 m (unat (p + 4 * i)) v k = m k"
proof (rule st32_other)
  have "k \<notin> {unat (p + 4 * i)..<unat (p + 4 * i) + 4}" using entry_addr(2)[OF assms(1,2)] assms(3) by blast
  then show "k < unat (p + 4 * i) \<or> unat (p + 4 * i) + 4 \<le> k" unfolding atLeastLessThan_iff by linarith
qed

lemma unat_PDX: "unat (PDX va) = unat va div 4194304"
proof -
  have "PDX va = take_bit 10 (drop_bit 22 va)"
    by (simp add: PDX_def take_bit_eq_mask mask_eq_exp_minus_1)
  then have "unat (PDX va) = unat va div 4194304 mod 1024" by (simp add: drop_bit_eq_div take_bit_eq_mod unat_div unat_mod)
  moreover have "unat va div 4194304 < 1024" using unat_lt32[of va] by (simp add: less_mult_imp_div_less)
  ultimately show ?thesis by simp
qed

lemma unat_PTX: "unat (PTX va) = unat va div 4096 mod 1024"
proof -
  have "PTX va = take_bit 10 (drop_bit 12 va)"
    by (simp add: PTX_def take_bit_eq_mask mask_eq_exp_minus_1)
  then show ?thesis by (simp add: drop_bit_eq_div take_bit_eq_mod unat_div unat_mod)
qed

lemma same_page: "PGROUNDDOWN va = PGROUNDDOWN vb \<longleftrightarrow> unat va div 4096 = unat vb div 4096"
proof -
  have "unat (PGROUNDDOWN a) = 4096 * (unat a div 4096)" for a
    by (simp add: unat_rounddown PGSIZE_def minus_mod_eq_mult_div)
  then show ?thesis by (simp add: word_unat_eq_iff)
qed

lemma same_entry: "PDX va = PDX vb \<and> PTX va = PTX vb \<longleftrightarrow> PGROUNDDOWN va = PGROUNDDOWN vb"
proof -
  have e: "u div 4096 = 1024 * (u div 4194304) + u div 4096 mod 1024" for u :: nat
    using div_mult2_eq[of u 4096 1024] by simp
  have d: "u div 4194304 = u div 4096 div 1024" for u :: nat using div_mult2_eq[of u 4096 1024] by simp
  have "PDX va = PDX vb \<and> PTX va = PTX vb \<longleftrightarrow>
      unat va div 4194304 = unat vb div 4194304 \<and> unat va div 4096 mod 1024 = unat vb div 4096 mod 1024"
    by (simp add: word_unat_eq_iff unat_PDX unat_PTX)
  also have "\<dots> \<longleftrightarrow> unat va div 4096 = unat vb div 4096"
    using e[of "unat va"] e[of "unat vb"] d by metis
  finally show ?thesis unfolding same_page .
qed

text \<open>Storing into an entry that is in use changes the mapping there and nowhere else.\<close>

lemma store_pte:
  assumes ok: "vm_ok kend s ps pgdir" and p: "pde_of (mem s) pgdir va AND 1 \<noteq> 0"
    and t: "t = s\<lparr>mem := st32 (mem s) (unat (table_of (mem s) pgdir va + 4 * PTX va)) v\<rparr>"
  shows "vm_ok kend t ps pgdir" "pde_of (mem t) pgdir vb = pde_of (mem s) pgdir vb"
    "pte_of (mem t) pgdir vb = (if PGROUNDDOWN vb = PGROUNDDOWN va then v else pte_of (mem s) pgdir vb)"
    "\<And>i. i \<notin> page_bytes (table_of (mem s) pgdir va) \<Longrightarrow> mem t i = mem s i"
proof -
  let ?T = "table_of (mem s) pgdir"
  have pages: "kpage kend pgdir" "kpage kend (?T va)" "?T va \<notin> set ps" "?T va \<noteq> pgdir" using ok p by (auto simp: vm_ok_def)
  have Tp: "kpage kend (?T vb)" if "pde_of (mem s) pgdir vb AND 1 \<noteq> 0" for vb using ok that by (auto simp: vm_ok_def)
  have inj: "PDX vb = PDX va" if "pde_of (mem s) pgdir vb AND 1 \<noteq> 0" "?T vb = ?T va" for vb
    using ok p that unfolding vm_ok_def by blast
  show pde: "pde_of (mem t) pgdir vb = pde_of (mem s) pgdir vb" for vb
    using ld_st_entry[OF pages(2,1) unat_index(2) unat_index(1)] pages(4) by (auto simp: pde_of_def t)
  then have T: "table_of (mem t) pgdir vb = ?T vb" for vb by (simp add: table_of_def)
  show frame: "\<And>i. i \<notin> page_bytes (?T va) \<Longrightarrow> mem t i = mem s i"
    using st_entry_page[OF pages(2) unat_index(2)] by (simp add: t)
  show "pte_of (mem t) pgdir vb = (if PGROUNDDOWN vb = PGROUNDDOWN va then v else pte_of (mem s) pgdir vb)"
  proof (cases "pde_of (mem s) pgdir vb AND 1 = 0")
    case True
    then have "PDX vb \<noteq> PDX va" using p by (auto simp: pde_of_def)
    then show ?thesis using True pde same_entry[of vb va] by (auto simp: pte_of_def)
  next
    case False
    have "?T va = ?T vb \<and> PTX va = PTX vb \<longleftrightarrow> PGROUNDDOWN vb = PGROUNDDOWN va"
      using inj[OF False] same_entry[of vb va] by (auto simp: table_of_def pde_of_def)
    then show ?thesis
      using False pde T ld_st_entry[OF pages(2) Tp[OF False] unat_index(2)[of va] unat_index(2)[of vb]]
      by (auto simp: pte_of_def t)
  qed
  have "\<forall>w\<in>set ps. \<forall>i\<in>page_bytes w. mem t i = mem s i"
  proof (intro ballI)
    fix w i assume w: "w \<in> set ps" "i \<in> page_bytes w"
    then have "kpage kend w" "w \<noteq> ?T va" using ok pages by (auto simp: vm_ok_def kpool_def)
    then have "i \<notin> page_bytes (?T va)" using pages_disjoint[of w "?T va"] pages(2) w by (auto simp: kpage_def)
    then show "mem t i = mem s i" by (rule frame)
  qed
  then have "kpool kend t ps" using kp.pool_frame[of kend s ps t] ok by (simp add: vm_ok_def t)
  then show "vm_ok kend t ps pgdir" using ok by (simp add: vm_ok_def pde T)
qed

section \<open>Walking and mapping\<close>

lemma PTE_ADDR_down: "PTE_ADDR e = PGROUNDDOWN e"
  by (simp add: PTE_ADDR_def PGROUNDDOWN_def)

lemma PTE_ADDR_or:
  assumes "unat p mod PGSIZE = 0"
  shows "PTE_ADDR (p OR 7) = p" "(p OR 7) AND 1 \<noteq> 0"
proof -
  have m: "(4095 :: uint) = mask 12" by (simp add: mask_eq_exp_minus_1)
  have "unat (p AND mask 12) = unat p mod 4096" by (simp add: unat_mod take_bit_eq_mod flip: take_bit_eq_mask)
  then have z: "p AND mask 12 = 0" using assms by (simp add: PGSIZE_def word_unat_eq_iff)
  have low: "\<not> bit p n" if "n < 12" for n
    using arg_cong[OF z, of "\<lambda>w. bit w n"] that by (auto simp: bit_simps bit_mask_iff)
  have m7: "(7 :: uint) = mask 3" by (simp add: mask_eq_exp_minus_1)
  show "PTE_ADDR (p OR 7) = p"
  proof (rule bit_word_eqI)
    fix n assume "n < LENGTH(32)"
    then show "bit (PTE_ADDR (p OR 7)) n = bit p n"
      using low[of n] by (cases "n < 12") (auto simp: PTE_ADDR_def m m7 bit_simps bit_mask_iff)
  qed
  have "bit ((p OR 7) AND 1) 0" by (simp add: bit_simps m7 bit_mask_iff)
  then show "(p OR 7) AND 1 \<noteq> 0" by (metis bit_0_eq bot_apply bot_bool_def)
qed

lemma kpage_phys:
  assumes "kpage kend p"
  shows "unat (v2p p) mod PGSIZE = 0" "p2v (v2p p) = p"
proof -
  show "p2v (v2p p) = p" by (simp add: p2v_def v2p_def)
  obtain k where k: "unat p = 4096 * k" using assms by (auto simp: kpage_def PGSIZE_def)
  have "unat (v2p p) = (if 524288 \<le> k then 4096 * (k - 524288) else 4096 * (k + 524288))"
    using k by (simp add: v2p_def KERNBASE_def unat_sub_if' diff_mult_distrib2)
  then show "unat (v2p p) mod PGSIZE = 0" by (auto simp: PGSIZE_def)
qed

lemma new_table:
  assumes ok: "vm_ok kend s (q # qs) pgdir" and np: "pde_of (mem s) pgdir va AND 1 = 0"
    and a: "kpool kend s1 qs" "mem s1 = mem s"
    and t: "t = s1\<lparr>mem := st32 (memset (mem s1) (unat q) 0 PGSIZE) (unat (pgdir + 4 * PDX va)) (v2p q OR 7)\<rparr>"
  shows "vm_ok kend t qs pgdir" "pde_of (mem t) pgdir va AND 1 \<noteq> 0" "table_of (mem t) pgdir va = q"
    "pte_of (mem t) pgdir vb = pte_of (mem s) pgdir vb"
    "\<And>i. i \<notin> page_bytes pgdir \<Longrightarrow> i \<notin> page_bytes q \<Longrightarrow> mem t i = mem s i"
proof -
  let ?z = "memset (mem s) (unat q) 0 PGSIZE" and ?T = "table_of (mem s) pgdir"
  have pages: "kpage kend pgdir" "kpage kend q" "q \<noteq> pgdir" "q \<notin> set qs" "pgdir \<notin> set qs" using ok by (auto simp: vm_ok_def kpool_def)
  have disj: "page_bytes v \<inter> page_bytes w = {}" if "kpage kend v" "kpage kend w" "v \<noteq> w" for v w
    using that by (intro pages_disjoint) (auto simp: kpage_def)
  have z: "?z i = (if i \<in> page_bytes q then 0 else mem s i)" for i by (auto simp: memset_eq page_bytes_def)
  have mt: "mem t = st32 ?z (unat (pgdir + 4 * PDX va)) (v2p q OR 7)" by (simp add: t a(2))
  have mq: "mem t i = 0" if "i \<in> page_bytes q" for i
  proof -
    have "i \<notin> page_bytes pgdir" using that disj[OF pages(1,2)] pages(3) by auto
    then show ?thesis using that z by (simp add: mt st_entry_page[OF pages(1) unat_index(1)])
  qed
  show frame: "\<And>i. i \<notin> page_bytes pgdir \<Longrightarrow> i \<notin> page_bytes q \<Longrightarrow> mem t i = mem s i"
    using z st_entry_page[OF pages(1) unat_index(1)] by (simp add: mt)
  have other: "mem t i = mem s i" if "kpage kend w" "w \<noteq> pgdir" "w \<noteq> q" "i \<in> page_bytes w" for w i
    using disj[OF that(1) pages(1)] disj[OF that(1) pages(2)] that by (intro frame) auto
  have pde: "pde_of (mem t) pgdir vb = (if PDX vb = PDX va then v2p q OR 7 else pde_of (mem s) pgdir vb)" for vb
  proof -
    have "ld32 ?z (unat (pgdir + 4 * PDX vb)) = ld32 (mem s) (unat (pgdir + 4 * PDX vb))"
      using disj[OF pages(1,2)] pages(3) z by (intro ld_page_frame[OF pages(1) unat_index(1)]) auto
    then show ?thesis
      using ld_st_entry[OF pages(1,1) unat_index(1)[of va] unat_index(1)[of vb]] by (auto simp: pde_of_def mt)
  qed
  note x = PTE_ADDR_or[OF kpage_phys(1)[OF pages(2)]]
  have T: "table_of (mem t) pgdir vb = (if PDX vb = PDX va then q else ?T vb)" for vb
    using x kpage_phys(2)[OF pages(2)] by (simp add: table_of_def pde)
  show "pde_of (mem t) pgdir va AND 1 \<noteq> 0" "table_of (mem t) pgdir va = q" using pde T x by simp_all
  have old: "kpage kend (?T vb)" "?T vb \<noteq> pgdir" "?T vb \<noteq> q" "?T vb \<notin> set qs" if "pde_of (mem s) pgdir vb AND 1 \<noteq> 0" for vb
    using ok that by (auto simp: vm_ok_def)
  show "pte_of (mem t) pgdir vb = pte_of (mem s) pgdir vb"
  proof (cases "PDX vb = PDX va")
    case True
    have "ld32 (mem t) (unat (q + 4 * PTX vb)) = ld32 zero_bytes (unat (q + 4 * PTX vb))"
      using mq by (intro ld_page_frame[OF pages(2) unat_index(2)]) (simp add: zero_bytes_def)
    then show ?thesis using True np pde T x by (simp add: pte_of_def pde_of_def)
  next
    case False
    have "ld32 (mem t) (unat (?T vb + 4 * PTX vb)) = ld32 (mem s) (unat (?T vb + 4 * PTX vb))" if "pde_of (mem s) pgdir vb AND 1 \<noteq> 0"
      using other[OF old(1,2,3)[OF that]] by (intro ld_page_frame[OF old(1)[OF that] unat_index(2)]) auto
    then show ?thesis using False pde T by (simp add: pte_of_def)
  qed
  have "\<forall>w\<in>set qs. \<forall>i\<in>page_bytes w. mem t i = mem s1 i"
    using other pages(4,5) ok a(2) by (auto simp: vm_ok_def kpool_def)
  then have pool: "kpool kend t qs" using kp.pool_frame[OF a(1), of t] by (simp add: t)
  have inj: "PDX vb = PDX vc" if "pde_of (mem t) pgdir vb AND 1 \<noteq> 0" "pde_of (mem t) pgdir vc AND 1 \<noteq> 0"
      "table_of (mem t) pgdir vb = table_of (mem t) pgdir vc" for vb vc
  proof (cases "PDX vb = PDX va \<or> PDX vc = PDX va")
    case True
    then show ?thesis using that T pde old(3) by (auto split: if_splits)
  next
    case False
    then show ?thesis using that T pde ok unfolding vm_ok_def by metis
  qed
  have tab: "kpage kend (table_of (mem t) pgdir vb) \<and> table_of (mem t) pgdir vb \<notin> set qs \<and> table_of (mem t) pgdir vb \<noteq> pgdir"
    if "pde_of (mem t) pgdir vb AND 1 \<noteq> 0" for vb
    using that pages(2,3,4) old[of vb] T[of vb] pde[of vb] by (cases "PDX vb = PDX va") simp_all
  show "vm_ok kend t qs pgdir"
    unfolding vm_ok_def using pool pages(1,5) tab inj by blast
qed

lemma wp_ldw: "wp (ldw a) Q s = Q (ld32 (mem s) (unat a)) s"
  by (simp add: ldw_def wp_kget)

lemma wp_stw: "wp (stw a v) Q s = Q () (s\<lparr>mem := st32 (mem s) (unat a) v\<rparr>)"
  by (simp add: stw_def wp_kmod)

lemma wp_clear_page: "wp (clear_page a) Q s = Q () (s\<lparr>mem := memset (mem s) (unat a) 0 PGSIZE\<rparr>)"
  by (simp add: clear_page_def wp_kmod)

lemma entry_nonzero:
  assumes "kpage kend p" "unat i < 1024"
  shows "p + 4 * i \<noteq> 0"
proof
  assume "p + 4 * i = 0"
  then have "unat p + 4 * unat i = 0" using entry_addr(1)[OF assms] by simp
  then have "unat p = 0" by simp
  then have "p = 0" by (rule unsigned_eq_0_iff[THEN iffD1])
  then show False using assms(1) by (simp add: kpage_def)
qed

text \<open>\<open>tables_added\<close>: page tables may have been added, taking pages from the front of the free list.\<close>

definition tables_added :: "uint \<Rightarrow> 'a kmem_scheme \<Rightarrow> 'a kmem_scheme \<Rightarrow> uint list \<Rightarrow> uint list \<Rightarrow> uint \<Rightarrow> bool" where
  "tables_added kend s t ps qs pgdir \<longleftrightarrow> vm_ok kend t qs pgdir \<and> (\<exists>ks. ps = ks @ qs) \<and> kmem_rest t = kmem_rest s"

lemma wp_walk_alloc:
  assumes ok: "vm_ok kend s ps pgdir"
    and none: "pde_of (mem s) pgdir va AND 1 = 0 \<Longrightarrow> ps = [] \<Longrightarrow> Q 0 s"
    and some: "\<And>t qs. tables_added kend s t ps qs pgdir \<Longrightarrow> pde_of (mem t) pgdir va AND 1 \<noteq> 0 \<Longrightarrow>
      (\<And>vb. pte_of (mem t) pgdir vb = pte_of (mem s) pgdir vb) \<Longrightarrow> table_of (mem t) pgdir va + 4 * PTX va \<noteq> 0 \<Longrightarrow>
      Q (table_of (mem t) pgdir va + 4 * PTX va) t"
  shows "wp (walkpgdir pgdir va True) Q s"
proof (cases "pde_of (mem s) pgdir va AND 1 = 0")
  case False
  then have "kpage kend (table_of (mem s) pgdir va)" using ok by (simp add: vm_ok_def)
  then have "table_of (mem s) pgdir va + 4 * PTX va \<noteq> 0" using entry_nonzero unat_index(2) by blast
  moreover have "tables_added kend s s ps ps pgdir" using ok by (simp add: tables_added_def)
  ultimately have "Q (table_of (mem s) pgdir va + 4 * PTX va) s" using some[of s ps] False by simp
  then show ?thesis
    using False by (simp add: walkpgdir_def Let_def wp_kbind wp_ldw wp_kret pde_of_def table_of_def)
next
  case True
  have "wp kalloc (\<lambda>q. wp (if q = 0 then kret 0 else kbind (clear_page q) (\<lambda>_. kbind (stw (pgdir + 4 * PDX va) (v2p q OR 7)) (\<lambda>_.
      kret (q + 4 * PTX va)))) Q) s"
  proof (rule kp.wp_alloc)
    show "kpool kend s ps" using ok by (simp add: vm_ok_def)
    show "ps = [] \<Longrightarrow> wp (if 0 = (0 :: uint) then kret 0 else kbind (clear_page 0) (\<lambda>_. kbind (stw (pgdir + 4 * PDX va) (v2p 0 OR 7)) (\<lambda>_.
      kret (0 + 4 * PTX va)))) Q s" using none True by (simp add: wp_kret)
    fix q qs s1
    assume q: "ps = q # qs" "kpage kend q" "kpool kend s1 qs" "mem s1 = mem s" "kmem_rest s1 = kmem_rest s"
    define t where "t = s1\<lparr>mem := st32 (memset (mem s1) (unat q) 0 PGSIZE) (unat (pgdir + 4 * PDX va)) (v2p q OR 7)\<rparr>"
    note n = new_table[OF ok[unfolded q(1)] True q(3,4) t_def]
    have "tables_added kend s t ps qs pgdir" using n(1) q by (simp add: tables_added_def t_def kmem_rest_def)
    moreover have "q + 4 * PTX va \<noteq> 0" using entry_nonzero[OF q(2) unat_index(2)] .
    ultimately have "Q (q + 4 * PTX va) t" using some[of t qs] n(2,3,4) by simp
    then show "wp (if q = 0 then kret 0 else kbind (clear_page q) (\<lambda>_. kbind (stw (pgdir + 4 * PDX va) (v2p q OR 7)) (\<lambda>_.
      kret (q + 4 * PTX va)))) Q s1"
      using q(2) by (simp add: kpage_def wp_kbind wp_clear_page wp_stw wp_kret t_def)
  qed
  moreover have e: "v2p q OR 1 OR 2 OR 4 = v2p q OR 7" for q by (simp add: or.assoc)
  ultimately show ?thesis using True unfolding walkpgdir_def e by (simp add: Let_def wp_kbind_fun wp_ldw pde_of_def)
qed

lemma wp_mappages_from:
  assumes "vm_ok kend s ps pgdir" "unat a mod PGSIZE = 0" "unat last_a = unat a + 4096 * k" "k < f"
    "\<And>vb. unat a \<le> unat vb \<Longrightarrow> unat vb \<le> unat last_a + 4095 \<Longrightarrow> pte_of (mem s) pgdir vb AND 1 = 0"
    and fail: "\<And>t. vm_ok kend t [] pgdir \<Longrightarrow> kmem_rest t = kmem_rest s \<Longrightarrow> Q (-1) t"
    and dn: "\<And>t qs. tables_added kend s t ps qs pgdir \<Longrightarrow>
      (\<And>vb. pte_of (mem t) pgdir vb = (if unat a \<le> unat vb \<and> unat vb \<le> unat last_a + 4095
        then (pa + (PGROUNDDOWN vb - a)) OR perm OR 1 else pte_of (mem s) pgdir vb)) \<Longrightarrow> Q 0 t"
  shows "wp (mappages_from f pgdir a last_a pa perm) Q s"
  using assms
proof (induction f arbitrary: s ps a k pa)
  case (Suc f)
  have down: "unat (PGROUNDDOWN vb) = 4096 * (unat vb div 4096)" for vb
    by (simp add: unat_rounddown PGSIZE_def minus_mod_eq_mult_div)
  obtain x where x: "unat a = 4096 * x" using Suc.prems(2) by (auto simp: PGSIZE_def)
  have a0: "PGROUNDDOWN a = a" using down[of a] x by (simp add: word_unat_eq_iff)
  have in_a: "PGROUNDDOWN vb = PGROUNDDOWN a \<longleftrightarrow> unat a \<le> unat vb \<and> unat vb \<le> unat a + 4095" for vb
    unfolding same_page using x by auto
  show ?case
  proof (simp only: mappages_from.simps wp_kbind_fun, rule wp_walk_alloc[OF Suc.prems(1)], goal_cases)
    case 1
    then show ?case using Suc.prems(1,6) by (simp add: wp_kret)
  next
    case (2 t qs)
    let ?T = "table_of (mem t) pgdir a + 4 * PTX a"
    have okt: "vm_ok kend t qs pgdir" using 2(1) by (simp add: tables_added_def)
    have abs: "ld32 (mem t) (unat ?T) AND 1 = 0"
      using Suc.prems(5)[of a] 2(2) 2(3)[of a] Suc.prems(3) by (simp add: pte_of_def)
    define u where "u = t\<lparr>mem := st32 (mem t) (unat ?T) (pa OR perm OR 1)\<rparr>"
    note st = store_pte[OF okt 2(2) u_def]
    have added: "tables_added kend s u ps qs pgdir" using 2(1) st(1) by (simp add: tables_added_def u_def kmem_rest_def)
    have pte: "pte_of (mem u) pgdir vb = (if unat a \<le> unat vb \<and> unat vb \<le> unat a + 4095 then pa OR perm OR 1 else pte_of (mem s) pgdir vb)" for vb
      using st(3)[of vb] in_a[of vb] 2(3)[of vb] by simp
    have rest: "wp (if a = last_a then kret 0 else mappages_from f pgdir (a + 4096) last_a (pa + 4096) perm) Q u"
    proof (cases "a = last_a")
      case True
      have "Q 0 u"
      proof (rule Suc.prems(7)[OF added])
        fix vb
        have "PGROUNDDOWN vb - a = 0" if "unat a \<le> unat vb" "unat vb \<le> unat a + 4095" using in_a[of vb] that a0 by simp
        then show "pte_of (mem u) pgdir vb = (if unat a \<le> unat vb \<and> unat vb \<le> unat last_a + 4095
          then (pa + (PGROUNDDOWN vb - a)) OR perm OR 1 else pte_of (mem s) pgdir vb)" using pte[of vb] True by auto
      qed
      then show ?thesis using True by (simp add: wp_kret)
    next
      case False
      then obtain j where j: "k = Suc j" using Suc.prems(3) by (cases k) (auto simp: word_unat_eq_iff)
      have na: "unat (a + 4096) = unat a + 4096"
        using unat_add32[of a 4096] Suc.prems(3) j unat_lt32[of last_a] by simp
      have "wp (mappages_from f pgdir (a + 4096) last_a (pa + 4096) perm) Q u"
      proof (rule Suc.IH[OF st(1), where k = j], goal_cases)
        case 1
        then show ?case using na x by (simp add: PGSIZE_def)
      next
        case 2
        then show ?case using na Suc.prems(3) j by simp
      next
        case 3
        then show ?case using Suc.prems(4) j by simp
      next
        case (4 vb)
        then show ?case using pte[of vb] Suc.prems(5)[of vb] na by simp
      next
        case (5 v)
        then show ?case using Suc.prems(6)[of v] added by (simp add: tables_added_def)
      next
        case (6 v rs)
        show ?case
        proof (rule Suc.prems(7)[of v rs])
          show "tables_added kend s v ps rs pgdir" using 6(1) added by (auto simp: tables_added_def)
          fix vb
          have "pa + 4096 + (PGROUNDDOWN vb - (a + 4096)) = pa + (PGROUNDDOWN vb - a)" by simp
          moreover have "PGROUNDDOWN vb - a = 0" if "unat a \<le> unat vb" "unat vb \<le> unat a + 4095" using in_a[of vb] that a0 by simp
          ultimately show "pte_of (mem v) pgdir vb = (if unat a \<le> unat vb \<and> unat vb \<le> unat last_a + 4095
            then (pa + (PGROUNDDOWN vb - a)) OR perm OR 1 else pte_of (mem s) pgdir vb)"
            using 6(2)[of vb] pte[of vb] na Suc.prems(3) by auto
        qed
      qed
      then show ?thesis using False by simp
    qed
    then show ?case using 2(4) abs by (simp add: wp_kbind_fun wp_ldw wp_stw u_def)
  qed
qed simp

lemma page_le: "unat vb \<le> unat (PGROUNDDOWN b) + 4095 \<longleftrightarrow> PGROUNDDOWN vb \<le> PGROUNDDOWN b"
  "unat (PGROUNDDOWN b) \<le> unat vb \<longleftrightarrow> PGROUNDDOWN b \<le> PGROUNDDOWN vb"
proof -
  have d: "unat (PGROUNDDOWN x) = 4096 * (unat x div 4096)" for x by (simp add: unat_rounddown PGSIZE_def minus_mod_eq_mult_div)
  show "unat vb \<le> unat (PGROUNDDOWN b) + 4095 \<longleftrightarrow> PGROUNDDOWN vb \<le> PGROUNDDOWN b"
    "unat (PGROUNDDOWN b) \<le> unat vb \<longleftrightarrow> PGROUNDDOWN b \<le> PGROUNDDOWN vb"
    using div_less_iff_less_mult[of 4096 "unat vb" "Suc (unat b div 4096)"]
      less_eq_div_iff_mult_less_eq[of 4096 "unat b div 4096" "unat vb"]
    by (auto simp: word_le_nat_alt d mult.commute less_Suc_eq_le)
qed

definition page_within :: "uint \<Rightarrow> uint \<Rightarrow> uint \<Rightarrow> bool" where
  \<comment> \<open>the page of \<open>vb\<close> is one of those of the \<open>sz\<close> bytes at \<open>va\<close>\<close>
  "page_within va sz vb \<longleftrightarrow> PGROUNDDOWN va \<le> PGROUNDDOWN vb \<and> PGROUNDDOWN vb \<le> PGROUNDDOWN (va + sz - 1)"

text \<open>C26: \<open>mappages\<close> maps. For a range that does not wrap around and has no page mapped yet, it returns 0, and then every page of
  the range is mapped to its page of physical memory with the permissions given, and every other address
  is mapped as before; or it returns -1, and then no free page is left. The directory and its tables
  stay well formed.\<close>

theorem mappages_maps:
  assumes ok: "vm_ok kend s ps pgdir" and sz: "0 < sz" "unat va + unat sz \<le> 2 ^ 32"
    and new: "\<And>vb. page_within va sz vb \<Longrightarrow> pte_of (mem s) pgdir vb AND 1 = 0"
  shows "wp (mappages pgdir va sz pa perm) (\<lambda>r t. \<exists>qs. vm_ok kend t qs pgdir \<and>
     (r = -1 \<and> qs = [] \<or>
      r = 0 \<and> (\<forall>vb. pte_of (mem t) pgdir vb =
        (if page_within va sz vb then (pa + (PGROUNDDOWN vb - PGROUNDDOWN va)) OR perm OR 1 else pte_of (mem s) pgdir vb)))) s"
proof -
  let ?a = "PGROUNDDOWN va" and ?l = "PGROUNDDOWN (va + sz - 1)"
  have "unat (sz - 1) = unat sz - 1" using sz(1) by (intro unat_minus_one) auto
  then have "unat va + unat (sz - 1) < 2 ^ 32" using sz unat_gt_0[of sz] by auto
  then have u: "unat (va + (sz - 1)) = unat va + unat (sz - 1)" by (rule unat_add32)
  have e: "va + sz - 1 = va + (sz - 1)" by simp
  have "unat va \<le> unat (va + sz - 1)" unfolding e u by simp
  then have le: "unat va div 4096 \<le> unat (va + sz - 1) div 4096" by (rule div_le_mono)
  have d: "unat (PGROUNDDOWN x) = 4096 * (unat x div 4096)" for x by (simp add: unat_rounddown PGSIZE_def minus_mod_eq_mult_div)
  define k where "k = unat (va + sz - 1) div 4096 - unat va div 4096"
  have k: "unat ?l = unat ?a + 4096 * k" unfolding d k_def using le by (simp add: diff_mult_distrib2)
  have "4096 * k < 2 ^ 32" using k unat_lt32[of ?l] by linarith
  then have "k < PAGES" by (simp add: PAGES_def)
  have within: "unat ?a \<le> unat vb \<and> unat vb \<le> unat ?l + 4095 \<longleftrightarrow> page_within va sz vb" for vb
    by (simp add: page_within_def page_le)
  show ?thesis
    unfolding mappages_def
  proof (rule wp_mappages_from[OF ok rounddown_aligned k \<open>k < PAGES\<close>], goal_cases)
    case (1 vb)
    then show ?case using new within by blast
  next
    case (3 t qs)
    then show ?case using within by (auto simp: tables_added_def)
  qed auto
qed

text \<open>An empty page directory, and one free page.\<close>

definition demo_vm :: kmem where
  "demo_vm = \<lparr>mem = zero_bytes, freelist = 0x80300000, use_lock = True\<rparr>"

lemma demo_vm_ok: "vm_ok 0x80100000 demo_vm [0x80300000] 0x80200000"
  by (simp add: vm_ok_def demo_vm_def kpool_def kpage_def PGSIZE_def v2p_def KERNBASE_def PHYSTOP_def pde_of_def)

theorem mappages_maps_witness:
  "wp (mappages 0x80200000 0x1234 5000 0x400000 6) (\<lambda>r t. \<exists>qs. vm_ok 0x80100000 t qs 0x80200000 \<and>
     (r = -1 \<and> qs = [] \<or> r = 0 \<and> pte_of (mem t) 0x80200000 0x2000 = 0x401007 \<and> pte_of (mem t) 0x80200000 0x3000 = 0)) demo_vm"
proof (rule wp_mono[OF mappages_maps[OF demo_vm_ok]], goal_cases)
  case (4 r t)
  have z: "pte_of (mem demo_vm) 0x80200000 vb = 0" for vb by (simp add: pte_of_def pde_of_def demo_vm_def)
  have "page_within 0x1234 5000 0x2000" "\<not> page_within 0x1234 5000 0x3000" by (simp_all add: page_within_def PGROUNDDOWN_def)
  then show ?case using 4 z by (fastforce simp: PGROUNDDOWN_def)
qed (simp_all add: pte_of_def pde_of_def demo_vm_def)

text \<open>C27: Mapping a page that is mapped already is caught: \<open>mappages\<close> panics.\<close>

theorem mappages_remap:
  assumes "vm_ok kend s ps pgdir" "pte_of (mem s) pgdir va AND 1 \<noteq> 0"
  shows "mappages pgdir va sz pa perm s = Panic ''remap''"
proof -
  have "PGROUNDDOWN (PGROUNDDOWN va) = PGROUNDDOWN va" by (simp add: PGROUNDDOWN_def and.assoc)
  then have e: "PDX (PGROUNDDOWN va) = PDX va" "PTX (PGROUNDDOWN va) = PTX va" using same_entry by blast+
  have p: "pde_of (mem s) pgdir va AND 1 \<noteq> 0" using assms(2) by (auto simp: pte_of_def split: if_splits)
  then have "kpage kend (table_of (mem s) pgdir va)" using assms(1) by (simp add: vm_ok_def)
  then have "table_of (mem s) pgdir va + 4 * PTX va \<noteq> 0" using entry_nonzero unat_index(2) by blast
  moreover have "PAGES = Suc (PAGES - 1)" by (simp add: PAGES_def)
  then have m: "mappages_from PAGES pgdir a l pa perm = mappages_from (Suc (PAGES - 1)) pgdir a l pa perm" for a l :: uint by simp
  ultimately show ?thesis
    using assms(2) p unfolding mappages_def m
    by (simp add: walkpgdir_def e Let_def kbind_def ldw_def kget_def kret_def kpanic_def pte_of_def pde_of_def table_of_def)
qed

definition demo_mapped :: kmem where
  \<comment> \<open>the address \<open>0x5000\<close> is mapped\<close>
  "demo_mapped = \<lparr>mem = st32 (st32 zero_bytes 0x80200000 0x301007) 0x80301014 0x401007, freelist = 0, use_lock = True\<rparr>"

lemma demo_mapped_pde: "pde_of (mem demo_mapped) 0x80200000 va = (if PDX va = 0 then 0x301007 else 0)"
proof -
  have m: "mem demo_mapped = st32 (st32 zero_bytes (unat (0x80200000 + 4 * 0 :: uint)) 0x301007) (unat (0x80301000 + 4 * 5 :: uint)) 0x401007"
    by (simp add: demo_mapped_def)
  have k: "kpage 0x80100000 0x80200000" "kpage 0x80100000 0x80301000"
    by (simp_all add: kpage_def PGSIZE_def v2p_def KERNBASE_def PHYSTOP_def)
  have i: "unat (5 :: uint) < 1024" "unat (0 :: uint) < 1024" by simp_all
  show ?thesis
    unfolding pde_of_def m ld_st_entry[OF k(2,1) i(1) unat_index(1)] ld_st_entry[OF k(1,1) i(2) unat_index(1)] by auto
qed

lemma demo_mapped_ok: "vm_ok 0x80100000 demo_mapped [] 0x80200000"
  by (simp add: vm_ok_def kpool_def demo_mapped_pde table_of_def kpage_def PGSIZE_def v2p_def p2v_def KERNBASE_def PHYSTOP_def
      PTE_ADDR_def demo_mapped_def[THEN arg_cong[where f = freelist]])

theorem mappages_remap_witness: "mappages 0x80200000 0x5000 4096 0 0 demo_mapped = Panic ''remap''"
proof (rule mappages_remap[OF demo_mapped_ok])
  have "PDX 0x5000 = 0" "PTX 0x5000 = 5" by (simp_all add: PDX_def PTX_def)
  then show "pte_of (mem demo_mapped) 0x80200000 0x5000 AND 1 \<noteq> 0"
    by (simp add: pte_of_def demo_mapped_pde table_of_def PTE_ADDR_def p2v_def KERNBASE_def)
      (simp add: demo_mapped_def)
qed

text \<open>C28: \<open>uva2ka\<close> does not notice that an address has no page table: it then takes the word at address 0 for the entry, and may
  return an address although nothing is mapped.\<close>

theorem uva2ka_without_table:
  "\<exists>s :: kmem. vm_ok 0x80100000 s [] 0x80200000 \<and> pte_of (mem s) 0x80200000 0x1000 = 0 \<and> uva2ka 0x80200000 0x1000 s = Ret (0x80123000, s)"
proof -
  let ?s = "\<lparr>mem = st32 zero_bytes 0 0x123007, freelist = 0, use_lock = True\<rparr> :: kmem"
  have far: "ld32 (st32 zero_bytes 0 v) (unat (0x80200000 + 4 * PDX va)) = 0" for v va
  proof -
    have "kpage 0x80100000 0x80200000" by (simp add: kpage_def PGSIZE_def v2p_def KERNBASE_def PHYSTOP_def)
    then have "unat (0x80200000 + 4 * PDX va) = unat (0x80200000 :: uint) + 4 * unat (PDX va)"
      using entry_addr(1) unat_index(1) by blast
    then show ?thesis by simp
  qed
  have "vm_ok 0x80100000 ?s [] 0x80200000"
    by (simp add: vm_ok_def kpool_def kpage_def PGSIZE_def v2p_def KERNBASE_def PHYSTOP_def pde_of_def far)
  moreover have "pte_of (mem ?s) 0x80200000 0x1000 = 0" by (simp add: pte_of_def pde_of_def far)
  moreover have "uva2ka 0x80200000 0x1000 ?s = Ret (0x80123000, ?s)"
    using far[of "0x123007" "0x1000"]
    by (simp add: uva2ka_def walkpgdir_def Let_def kbind_def ldw_def kget_def kret_def p2v_def KERNBASE_def PTE_ADDR_def)
  ultimately show ?thesis by blast
qed

end
