(* ===== verification/File.thy ===== *)
theory File
  imports Vfs Pipe Vm
begin

text \<open>
  Open files (\<^verbatim>\<open>fs/file.c\<close>, \<^verbatim>\<open>fs/file.h\<close>) and the allocation of pipes (\<open>pipealloc\<close> of \<^verbatim>\<open>pipe.c\<close>).

  The state holds that of the file systems, the table of open files, the pipes (by the address of the page each lives in),
  the memory \<open>kalloc\<close> manages, with the address \<open>end\<close> of the kernel's end, and the \<open>killed\<close> flag of the running process.
  \<open>pipe_wakeups\<close> lists the channels that \<open>wakeup\<close> was called on. A call that sleeps, on a pipe or for a lock, is the outcome
  \<open>Blocked\<close>. A pointer to an open file is its number in the table.
\<close>

section \<open>State\<close>

definition NFILE :: nat where "NFILE = 100"

datatype fd_type = FD_NONE | FD_PIPE | FD_INODE

record file_t =
  f_type :: fd_type
  f_ref :: int
  f_readable :: bool
  f_writable :: bool
  f_pipe :: uint
  f_ip :: nat
  f_off :: uint

record files =
  k_fs :: fsys
  ftable :: "nat \<Rightarrow> file_t"
  pipes :: "uint \<Rightarrow> pipe"
  pipe_wakeups :: "(uint \<times> pchan) list"
  k_mem :: vm
  k_end :: uint
  p_killed :: bool

definition on_fs :: "(fsys, 'b) prog \<Rightarrow> ('a files_scheme, 'b) prog" where
  \<comment> \<open>a program of the file systems run in the larger state\<close>
  "on_fs = kzoom k_fs (\<lambda>t s. s\<lparr>k_fs := t\<rparr>)"

definition on_mem :: "(vm, 'b) prog \<Rightarrow> ('a files_scheme, 'b) prog" where
  \<comment> \<open>a program of the memory management\<close>
  "on_mem = kzoom k_mem (\<lambda>t s. s\<lparr>k_mem := t\<rparr>)"

definition finfo :: "nat \<Rightarrow> ('a files_scheme, file_t) prog" where
  "finfo f = kget (\<lambda>s. ftable s f)"

definition fset :: "nat \<Rightarrow> (file_t \<Rightarrow> file_t) \<Rightarrow> ('a files_scheme, unit) prog" where
  "fset f g = kmod (\<lambda>s. s\<lparr>ftable := (ftable s)(f := g (ftable s f))\<rparr>)"

section \<open>Operations\<close>

definition filealloc :: "('a files_scheme, nat option) prog" where
  "filealloc = kbind (kget (\<lambda>s. find (\<lambda>f. f_ref (ftable s f) = 0) [0..<NFILE])) (\<lambda>r.
     case r of None \<Rightarrow> kret None | Some f \<Rightarrow> kbind (fset f (\<lambda>x. x\<lparr>f_ref := 1\<rparr>)) (\<lambda>_. kret (Some f)))"

definition filedup :: "nat \<Rightarrow> ('a files_scheme, nat) prog" where
  "filedup f = kbind (finfo f) (\<lambda>x.
     if f_ref x < 1 then kpanic ''filedup''
     else kbind (fset f (\<lambda>x. x\<lparr>f_ref := f_ref x + 1\<rparr>)) (\<lambda>_. kret f))"

definition wake_pipe :: "uint \<Rightarrow> pchan list \<Rightarrow> ('a files_scheme, unit) prog" where
  "wake_pipe p cs = kmod (\<lambda>s. s\<lparr>pipe_wakeups := pipe_wakeups s @ map (Pair p) cs\<rparr>)"

definition set_pipe :: "uint \<Rightarrow> pipe \<Rightarrow> ('a files_scheme, unit) prog" where
  "set_pipe p x = kmod (\<lambda>s. s\<lparr>pipes := (pipes s)(p := x)\<rparr>)"

definition file_pipeclose :: "uint \<Rightarrow> bool \<Rightarrow> ('a files_scheme, unit) prog" where
  \<comment> \<open>\<open>pipeclose\<close> on the pipe at \<open>p\<close>, whose page is freed with the last end\<close>
  "file_pipeclose p writable = kbind (kget (\<lambda>s. pipeclose writable (pipes s p))) (\<lambda>(x, freed, cs).
     kbind (set_pipe p x) (\<lambda>_.
     kbind (wake_pipe p cs) (\<lambda>_.
     kbind (kget k_end) (\<lambda>kend. kwhen freed (on_mem (kfree kend p))))))"

definition fileclose :: "nat \<Rightarrow> ('a files_scheme, unit) prog" where
  "fileclose f = kbind (finfo f) (\<lambda>ff.
     if f_ref ff < 1 then kpanic ''fileclose''
     else if f_ref ff - 1 > 0 then fset f (\<lambda>x. x\<lparr>f_ref := f_ref x - 1\<rparr>)
     else kbind (fset f (\<lambda>x. x\<lparr>f_ref := 0, f_type := FD_NONE\<rparr>)) (\<lambda>_.
       if f_type ff = FD_PIPE then file_pipeclose (f_pipe ff) (f_writable ff)
       else if f_type ff = FD_INODE then
         kbind (on_fs begin_trans) (\<lambda>_. kbind (on_fs (vop_ref_dec (f_ip ff))) (\<lambda>_. on_fs commit_trans))
       else kret ()))"

definition filestat :: "nat \<Rightarrow> ('a files_scheme, int \<times> stat option) prog" where
  "filestat f = kbind (finfo f) (\<lambda>x.
     if f_type x = FD_INODE then
       kbind (on_fs (vop_ilock (f_ip x))) (\<lambda>_. kbind (on_fs (vop_fstat (f_ip x))) (\<lambda>st. kbind (on_fs (vop_iunlock (f_ip x))) (\<lambda>_. kret (0, Some st))))
     else kret (-1, None))"

definition file_piperead :: "uint \<Rightarrow> int \<Rightarrow> ('a files_scheme, int \<times> uchar list) prog" where
  "file_piperead p n = kbind (kget (\<lambda>s. piperead_run (p_killed s) n (pipes s p))) (\<lambda>(r, x, cs).
     case r of Slept _ \<Rightarrow> kblock
     | Returned k bs \<Rightarrow> kbind (set_pipe p x) (\<lambda>_. kbind (wake_pipe p cs) (\<lambda>_. kret (k, bs))))"

definition file_pipewrite :: "uint \<Rightarrow> uchar list \<Rightarrow> int \<Rightarrow> ('a files_scheme, int) prog" where
  "file_pipewrite p src n = kbind (kget (\<lambda>s. pipewrite_from (p_killed s) (cview src) n 0 (pipes s p))) (\<lambda>(r, x, cs).
     case r of Slept _ \<Rightarrow> kblock
     | Returned k _ \<Rightarrow> kbind (set_pipe p x) (\<lambda>_. kbind (wake_pipe p cs) (\<lambda>_. kret k)))"

definition fileread :: "nat \<Rightarrow> int \<Rightarrow> ('a files_scheme, int \<times> uchar list) prog" where
  "fileread f n = kbind (finfo f) (\<lambda>x.
     if \<not> f_readable x then kret (-1, [])
     else if f_type x = FD_PIPE then file_piperead (f_pipe x) n
     else if f_type x = FD_INODE then
       kbind (on_fs (vop_ilock (f_ip x))) (\<lambda>_.
       kbind (on_fs (vop_read (f_ip x) (f_off x) (word_of_int n))) (\<lambda>(r, bs).
       kbind (kwhen (r > 0) (fset f (\<lambda>x. x\<lparr>f_off := f_off x + word_of_int r\<rparr>))) (\<lambda>_.
       kbind (on_fs (vop_iunlock (f_ip x))) (\<lambda>_. kret (r, bs)))))
     else kpanic ''fileread'')"

definition FILE_MAX :: nat where
  \<comment> \<open>\<open>max\<close> of \<open>filewrite\<close>\<close>
  "FILE_MAX = ((LOGSIZE - 1 - 1 - 2) div 2) * 512"

definition file_chunk :: "nat \<Rightarrow> uchar list \<Rightarrow> ('a files_scheme, int) prog" where
  \<comment> \<open>one round of the loop of \<open>filewrite\<close>: a transaction\<close>
  "file_chunk f src = kbind (finfo f) (\<lambda>x.
     kbind (on_fs begin_trans) (\<lambda>_.
     kbind (on_fs (vop_ilock (f_ip x))) (\<lambda>_.
     kbind (on_fs (vop_write (f_ip x) src (f_off x) (of_nat (length src)))) (\<lambda>r.
     kbind (kwhen (r > 0) (fset f (\<lambda>x. x\<lparr>f_off := f_off x + word_of_int r\<rparr>))) (\<lambda>_.
     kbind (on_fs (vop_iunlock (f_ip x))) (\<lambda>_.
     kbind (on_fs commit_trans) (\<lambda>_. kret r)))))))"

text \<open>The loop: at least one byte a round, so that the length of what is left is fuel enough. The result is \<open>i\<close>.\<close>

primrec filewrite_loop :: "nat \<Rightarrow> nat \<Rightarrow> uchar list \<Rightarrow> nat \<Rightarrow> ('a files_scheme, nat) prog" where
  "filewrite_loop 0 f src i = kret i"
| "filewrite_loop (Suc fuel) f src i =
     (if i < length src then
        kbind (file_chunk f (take FILE_MAX (drop i src))) (\<lambda>r.
        if r < 0 then kret i
        else if r \<noteq> int (length (take FILE_MAX (drop i src))) then kpanic ''short filewrite''
        else filewrite_loop fuel f src (i + nat r))
      else kret i)"

definition filewrite :: "nat \<Rightarrow> uchar list \<Rightarrow> int \<Rightarrow> ('a files_scheme, int) prog" where
  \<comment> \<open>\<open>src\<close> is what lies at \<open>addr\<close>\<close>
  "filewrite f src n = kbind (finfo f) (\<lambda>x.
     if \<not> f_writable x then kret (-1)
     else if f_type x = FD_PIPE then file_pipewrite (f_pipe x) src n
     else if f_type x = FD_INODE then
       kbind (filewrite_loop (Suc (nat n)) f (take (nat n) src) 0) (\<lambda>i. kret (if int i = n then n else -1))
     else kpanic ''filewrite'')"

definition pipe_file :: "uint \<Rightarrow> bool \<Rightarrow> file_t \<Rightarrow> file_t" where
  "pipe_file p writable x = x\<lparr>f_type := FD_PIPE, f_readable := \<not> writable, f_writable := writable, f_pipe := p\<rparr>"

definition pipealloc :: "('a files_scheme, (nat \<times> nat) option) prog" where
  "pipealloc = kbind filealloc (\<lambda>f0. case f0 of None \<Rightarrow> kret None
     | Some f0 \<Rightarrow> kbind filealloc (\<lambda>f1. case f1 of None \<Rightarrow> kbind (fileclose f0) (\<lambda>_. kret None)
       | Some f1 \<Rightarrow> kbind (on_mem kalloc) (\<lambda>p.
           if p = 0 then kbind (fileclose f0) (\<lambda>_. kbind (fileclose f1) (\<lambda>_. kret None))
           else
             kbind (kget (\<lambda>s. pipe_init (\<lambda>i. mem (k_mem s) (unat p + i)))) (\<lambda>x.
             kbind (set_pipe p x) (\<lambda>_.
             kbind (fset f0 (pipe_file p False)) (\<lambda>_.
             kbind (fset f1 (pipe_file p True)) (\<lambda>_. kret (Some (f0, f1)))))))))"

end
