(* ===== verification/Proc.thy ===== *)
theory Proc
  imports File
begin

text \<open>
  The process table (\<^verbatim>\<open>proc.c\<close>, \<^verbatim>\<open>proc.h\<close>).

  A pointer to a process is its number in \<open>ptable.proc\<close>. \<open>cpu_proc\<close> is \<open>proc\<close> of every CPU, \<open>this_cpu\<close> the CPU that runs the code,
  and the register \<open>cr3\<close> and \<open>ts.esp0\<close> are those of that CPU. The trap frame and the saved context lie on the kernel stack of a
  process; they are fields of the process here. Of a context, what matters is where it continues: in \<open>forkret\<close>, or behind the
  \<open>sched\<close> of \<open>sleep\<close>, of \<open>yield\<close> or of \<open>exit\<close>.

  \<open>ptable.lock\<close> makes each function one step. A function that gives up the CPU ends there; what it does when it is switched to
  again is \<open>resume\<close>. \<open>wait\<close> therefore is one round of its loop, and its caller goes on with another round when it is resumed.
  Incrementing \<open>nextpid\<close> beyond the range of an \<open>int\<close> has no defined meaning and is the outcome \<open>Panic ''overflow''\<close>.
\<close>

section \<open>State\<close>

definition NPROC :: nat where "NPROC = 64"
definition NOFILE :: nat where "NOFILE = 16"
definition KSTACKSIZE :: nat where "KSTACKSIZE = 4096"

datatype procstate = UNUSED | EMBRYO | SLEEPING | RUNNABLE | RUNNING | ZOMBIE

text \<open>What a process may sleep on: the address of a process, of \<open>ticks\<close>, or of another object of the kernel.\<close>

datatype chan = On_proc nat | On_ticks | On_object uint

datatype kcontext = At_forkret | At_sleep | At_yield | At_exit

record trapframe =
  tf_edi :: uint
  tf_esi :: uint
  tf_ebp :: uint
  tf_oesp :: uint
  tf_ebx :: uint
  tf_edx :: uint
  tf_ecx :: uint
  tf_eax :: uint
  tf_gs :: ushort
  tf_fs :: ushort
  tf_es :: ushort
  tf_ds :: ushort
  tf_trapno :: uint
  tf_err :: uint
  tf_eip :: uint
  tf_cs :: ushort
  tf_eflags :: uint
  tf_esp :: uint
  tf_ss :: ushort

record proc_t =
  pr_sz :: uint
  pr_pgdir :: uint
  pr_kstack :: uint
  pr_state :: procstate
  pr_pid :: int
  pr_parent :: "nat option"
  pr_tf :: trapframe
  pr_context :: kcontext
  pr_chan :: "chan option"
  pr_killed :: bool
  pr_ofile :: "nat \<Rightarrow> nat option"
  pr_cwd :: "nat option"
  pr_name :: bytes

text \<open>\<open>first\<close> is the static variable of \<open>forkret\<close>; \<open>stack_junk\<close> is what the local variables of a function hold
  before it writes them; the linker places \<open>data\<close> and the code of the first process.\<close>

record kern = files +
  ptab :: "nat \<Rightarrow> proc_t"
  nextpid :: int
  initproc :: nat
  cpu_proc :: "nat \<Rightarrow> nat option"
  this_cpu :: nat
  ts_esp0 :: uint
  ticks :: uint
  first :: bool
  stack_junk :: bytes
  k_data :: uint
  k_initcode :: "uchar list"

definition pget :: "nat \<Rightarrow> (proc_t \<Rightarrow> 'b) \<Rightarrow> (kern, 'b) prog" where
  "pget p f = kget (\<lambda>s. f (ptab s p))"

definition pset :: "nat \<Rightarrow> (proc_t \<Rightarrow> proc_t) \<Rightarrow> (kern, unit) prog" where
  "pset p f = kmod (\<lambda>s. s\<lparr>ptab := (ptab s)(p := f (ptab s p))\<rparr>)"

definition cur :: "(kern, nat) prog" where
  \<comment> \<open>\<open>proc\<close>, for an access through it\<close>
  "cur = kbind (kget (\<lambda>s. cpu_proc s (this_cpu s))) (\<lambda>r. case r of None \<Rightarrow> kpanic ''trap'' | Some p \<Rightarrow> kret p)"

definition curget :: "(proc_t \<Rightarrow> 'b) \<Rightarrow> (kern, 'b) prog" where
  "curget f = kbind cur (\<lambda>p. pget p f)"

definition curset :: "(proc_t \<Rightarrow> proc_t) \<Rightarrow> (kern, unit) prog" where
  "curset f = kbind cur (\<lambda>p. pset p f)"

definition nonnull :: "'b option \<Rightarrow> (kern, 'b) prog" where
  \<comment> \<open>an access through a pointer\<close>
  "nonnull r = (case r of None \<Rightarrow> kpanic ''trap'' | Some x \<Rightarrow> kret x)"

definition as_cur :: "(kern, 'b) prog \<Rightarrow> (kern, 'b) prog" where
  \<comment> \<open>the file system finds \<open>proc->cwd\<close> and \<open>proc->killed\<close> of the running process in \<open>p_cwd\<close> and \<open>p_killed\<close>\<close>
  "as_cur m = kbind (curget pr_killed) (\<lambda>k. kbind (curget pr_cwd) (\<lambda>c. kbind (nonnull c) (\<lambda>d.
     kbind (kmod (\<lambda>s. s\<lparr>k_fs := (k_fs s)\<lparr>p_cwd := d\<rparr>, p_killed := k\<rparr>)) (\<lambda>_. m))))"

section \<open>Allocation\<close>

definition next_pid :: "(kern, int) prog" where
  \<comment> \<open>\<open>nextpid++\<close>\<close>
  "next_pid = kbind (kget nextpid) (\<lambda>n. if n \<ge> 2 ^ 31 - 1 then kpanic ''overflow''
     else kbind (kmod (\<lambda>s. s\<lparr>nextpid := n + 1\<rparr>)) (\<lambda>_. kret n))"

definition allocproc :: "(kern, nat option) prog" where
  "allocproc = kbind (kget (\<lambda>s. find (\<lambda>p. pr_state (ptab s p) = UNUSED) [0..<NPROC])) (\<lambda>r. case r of None \<Rightarrow> kret None
     | Some p \<Rightarrow>
         kbind (pset p (\<lambda>x. x\<lparr>pr_state := EMBRYO\<rparr>)) (\<lambda>_.
         kbind next_pid (\<lambda>pid.
         kbind (pset p (\<lambda>x. x\<lparr>pr_pid := pid\<rparr>)) (\<lambda>_.
         kbind (on_mem kalloc) (\<lambda>k.
         kbind (pset p (\<lambda>x. x\<lparr>pr_kstack := k\<rparr>)) (\<lambda>_.
         if k = 0 then kbind (pset p (\<lambda>x. x\<lparr>pr_state := UNUSED\<rparr>)) (\<lambda>_. kret None)
         else kbind (pset p (\<lambda>x. x\<lparr>pr_context := At_forkret\<rparr>)) (\<lambda>_. kret (Some p))))))))"

definition switchuvm :: "nat \<Rightarrow> (kern, unit) prog" where
  "switchuvm p =
     kbind (curget pr_kstack) (\<lambda>k.
     kbind (kmod (\<lambda>s. s\<lparr>ts_esp0 := k + of_nat KSTACKSIZE\<rparr>)) (\<lambda>_.
     kbind (pget p pr_pgdir) (\<lambda>d.
     if d = 0 then kpanic ''switchuvm: no pgdir''
     else on_mem (kmod (\<lambda>m. m\<lparr>cr3 := v2p d\<rparr>)))))"

definition user_frame :: trapframe where
  \<comment> \<open>the trap frame of the first process\<close>
  "user_frame = \<lparr>tf_edi = 0, tf_esi = 0, tf_ebp = 0, tf_oesp = 0, tf_ebx = 0, tf_edx = 0, tf_ecx = 0, tf_eax = 0,
     tf_gs = 0, tf_fs = 0, tf_es = 0x2B, tf_ds = 0x2B, tf_trapno = 0, tf_err = 0, tf_eip = 0, tf_cs = 0x23,
     tf_eflags = 0x200, tf_esp = 4096, tf_ss = 0x2B\<rparr>"

definition initcode_name :: bytes where
  "initcode_name = cview [105, 110, 105, 116, 99, 111, 100, 101]"

definition userinit :: "(kern, unit) prog" where
  "userinit = kbind allocproc (\<lambda>r. kbind (nonnull r) (\<lambda>p.
     kbind (kmod (\<lambda>s. s\<lparr>initproc := p\<rparr>)) (\<lambda>_.
     kbind (kget k_data) (\<lambda>data.
     kbind (on_mem (setupkvm data)) (\<lambda>d.
     kbind (pset p (\<lambda>x. x\<lparr>pr_pgdir := d\<rparr>)) (\<lambda>_.
     if d = 0 then kpanic ''userinit: out of memory?''
     else
       kbind (kget k_initcode) (\<lambda>code.
       kbind (on_mem (inituvm d code)) (\<lambda>_.
       kbind (pset p (\<lambda>x. x\<lparr>pr_sz := of_nat PGSIZE, pr_tf := user_frame,
         pr_name := safestrcpy (pr_name x) 0 initcode_name 16\<rparr>)) (\<lambda>_.
       kbind (on_fs (vfs_lookup [47])) (\<lambda>c.
       kbind (pset p (\<lambda>x. x\<lparr>pr_cwd := c\<rparr>)) (\<lambda>_.
       pset p (\<lambda>x. x\<lparr>pr_state := RUNNABLE\<rparr>))))))))))))"

definition growproc :: "int \<Rightarrow> (kern, int) prog" where
  "growproc n = kbind cur (\<lambda>p. kbind (pget p pr_sz) (\<lambda>sz. kbind (pget p pr_pgdir) (\<lambda>d. kbind (kget k_end) (\<lambda>kend.
     let resized = (\<lambda>sz. kbind (pset p (\<lambda>x. x\<lparr>pr_sz := sz\<rparr>)) (\<lambda>_. kbind (switchuvm p) (\<lambda>_. kret 0))) in
     if n > 0 then kbind (on_mem (allocuvm kend d sz (sz + word_of_int n))) (\<lambda>r. if r = 0 then kret (-1) else resized r)
     else if n < 0 then kbind (on_mem (deallocuvm kend d sz (sz + word_of_int n))) (\<lambda>r. if r = 0 then kret (-1) else resized r)
     else resized sz))))"

definition dup_file :: "nat \<Rightarrow> nat \<Rightarrow> nat \<Rightarrow> (kern, unit) prog" where
  \<comment> \<open>the body of the loop of \<open>fork\<close>\<close>
  "dup_file p np i = kbind (pget p (\<lambda>x. pr_ofile x i)) (\<lambda>r. case r of None \<Rightarrow> kret ()
     | Some f \<Rightarrow> kbind (filedup f) (\<lambda>f. pset np (\<lambda>x. x\<lparr>pr_ofile := (pr_ofile x)(i := Some f)\<rparr>)))"

definition fork :: "(kern, int) prog" where
  "fork = kbind allocproc (\<lambda>r. case r of None \<Rightarrow> kret (-1)
     | Some np \<Rightarrow> kbind cur (\<lambda>p. kbind (pget p id) (\<lambda>me. kbind (kget k_data) (\<lambda>data. kbind (kget k_end) (\<lambda>kend.
         kbind (on_mem (copyuvm kend data (pr_pgdir me) (pr_sz me))) (\<lambda>d.
         kbind (pset np (\<lambda>x. x\<lparr>pr_pgdir := d\<rparr>)) (\<lambda>_.
         if d = 0 then
           kbind (pget np pr_kstack) (\<lambda>k.
           kbind (on_mem (kfree kend k)) (\<lambda>_.
           kbind (pset np (\<lambda>x. x\<lparr>pr_kstack := 0, pr_state := UNUSED\<rparr>)) (\<lambda>_. kret (-1))))
         else
           kbind (pset np (\<lambda>x. x\<lparr>pr_sz := pr_sz me, pr_parent := Some p, pr_tf := (pr_tf me)\<lparr>tf_eax := 0\<rparr>\<rparr>)) (\<lambda>_.
           kbind (kfor 0 NOFILE (dup_file p np)) (\<lambda>_.
           kbind (nonnull (pr_cwd me)) (\<lambda>c.
           kbind (on_fs (vop_ref_inc c)) (\<lambda>c.
           kbind (pset np (\<lambda>x. x\<lparr>pr_cwd := Some c\<rparr>)) (\<lambda>_.
           kbind (pget np pr_pid) (\<lambda>pid.
           kbind (pset np (\<lambda>x. x\<lparr>pr_state := RUNNABLE\<rparr>)) (\<lambda>_.
           kbind (pset np (\<lambda>x. x\<lparr>pr_name := safestrcpy (pr_name x) 0 (pr_name me) 16\<rparr>)) (\<lambda>_.
           kret pid)))))))))))))))"

section \<open>Scheduling\<close>

definition sched :: "kcontext \<Rightarrow> (kern, unit) prog" where
  \<comment> \<open>up to the switch, and what the scheduler does when a process gave up the CPU\<close>
  "sched c = kbind cur (\<lambda>p. kbind (pget p pr_state) (\<lambda>st.
     if st = RUNNING then kpanic ''sched running''
     else kbind (pset p (\<lambda>x. x\<lparr>pr_context := c\<rparr>)) (\<lambda>_.
       kbind (on_mem switchkvm) (\<lambda>_.
       kmod (\<lambda>s. s\<lparr>cpu_proc := (cpu_proc s)(this_cpu s := None)\<rparr>)))))"

definition yield :: "(kern, unit) prog" where
  "yield = kbind (curset (\<lambda>x. x\<lparr>pr_state := RUNNABLE\<rparr>)) (\<lambda>_. sched At_yield)"

definition sleep :: "chan \<Rightarrow> (kern, unit) prog" where
  "sleep c = kbind (kget (\<lambda>s. cpu_proc s (this_cpu s))) (\<lambda>r.
     if r = None then kpanic ''sleep''
     else kbind (curset (\<lambda>x. x\<lparr>pr_chan := Some c\<rparr>)) (\<lambda>_.
       kbind (curset (\<lambda>x. x\<lparr>pr_state := SLEEPING\<rparr>)) (\<lambda>_. sched At_sleep)))"

definition forkret :: "(kern, unit) prog" where
  "forkret = kbind (kget first) (\<lambda>b. kwhen b (kbind (kmod (\<lambda>s. s\<lparr>first := False\<rparr>)) (\<lambda>_. on_fs initlog)))"

definition resume :: "nat \<Rightarrow> (kern, unit) prog" where
  \<comment> \<open>a process is switched to\<close>
  "resume p = kbind (pget p pr_context) (\<lambda>c. case c of
       At_forkret \<Rightarrow> forkret
     | At_sleep \<Rightarrow> pset p (\<lambda>x. x\<lparr>pr_chan := None\<rparr>)
     | At_yield \<Rightarrow> kret ()
     | At_exit \<Rightarrow> kpanic ''zombie exit'')"

definition run_proc :: "nat \<Rightarrow> (kern, unit) prog" where
  \<comment> \<open>the body of the loop of \<open>scheduler\<close>, for one process of the table\<close>
  "run_proc p = kbind (pget p pr_state) (\<lambda>st. kwhen (st = RUNNABLE)
     (kbind (kmod (\<lambda>s. s\<lparr>cpu_proc := (cpu_proc s)(this_cpu s := Some p)\<rparr>)) (\<lambda>_.
      kbind (switchuvm p) (\<lambda>_.
      kbind (pset p (\<lambda>x. x\<lparr>pr_state := RUNNING\<rparr>)) (\<lambda>_. resume p)))))"

definition wakeup1 :: "chan option \<Rightarrow> (kern, unit) prog" where
  "wakeup1 c = kfor 0 NPROC (\<lambda>p. kbind (pget p id) (\<lambda>x.
     kwhen (pr_state x = SLEEPING \<and> pr_chan x = c) (pset p (\<lambda>x. x\<lparr>pr_state := RUNNABLE\<rparr>))))"

definition wakeup :: "chan \<Rightarrow> (kern, unit) prog" where
  "wakeup c = wakeup1 (Some c)"

section \<open>Exit, wait and kill\<close>

definition close_file :: "nat \<Rightarrow> nat \<Rightarrow> (kern, unit) prog" where
  "close_file p fd = kbind (pget p (\<lambda>x. pr_ofile x fd)) (\<lambda>r. case r of None \<Rightarrow> kret ()
     | Some f \<Rightarrow> kbind (fileclose f) (\<lambda>_. pset p (\<lambda>x. x\<lparr>pr_ofile := (pr_ofile x)(fd := None)\<rparr>)))"

definition abandon :: "nat \<Rightarrow> nat \<Rightarrow> (kern, unit) prog" where
  \<comment> \<open>a child \<open>q\<close> of the exiting process is passed to the first process\<close>
  "abandon p q = kbind (pget q id) (\<lambda>x. kwhen (pr_parent x = Some p)
     (kbind (kget initproc) (\<lambda>i.
      kbind (pset q (\<lambda>x. x\<lparr>pr_parent := Some i\<rparr>)) (\<lambda>_.
      kwhen (pr_state x = ZOMBIE) (wakeup1 (Some (On_proc i)))))))"

definition kexit :: "(kern, unit) prog" where
  \<comment> \<open>\<open>exit\<close>, which does not return: its process is a zombie\<close>
  "kexit = kbind cur (\<lambda>p. kbind (kget initproc) (\<lambda>i.
     if p = i then kpanic ''init exiting''
     else
       kbind (kfor 0 NOFILE (close_file p)) (\<lambda>_.
       kbind (pget p pr_cwd) (\<lambda>c. kbind (nonnull c) (\<lambda>c.
       kbind (on_fs (vop_ref_dec c)) (\<lambda>_.
       kbind (pset p (\<lambda>x. x\<lparr>pr_cwd := None\<rparr>)) (\<lambda>_.
       kbind (pget p pr_parent) (\<lambda>q.
       kbind (wakeup1 (map_option On_proc q)) (\<lambda>_.
       kbind (kfor 0 NPROC (abandon p)) (\<lambda>_.
       kbind (pset p (\<lambda>x. x\<lparr>pr_state := ZOMBIE\<rparr>)) (\<lambda>_. sched At_exit)))))))))))"

text \<open>How a call ends: it returns a number, it gives up the CPU, or its process has exited.\<close>

datatype call = Back int | Switched | Exited

definition reap :: "nat \<Rightarrow> (kern, int) prog" where
  "reap p = kbind (pget p id) (\<lambda>x. kbind (kget k_end) (\<lambda>kend.
     kbind (on_mem (kfree kend (pr_kstack x))) (\<lambda>_.
     kbind (pset p (\<lambda>x. x\<lparr>pr_kstack := 0\<rparr>)) (\<lambda>_.
     kbind (on_mem (freevm kend (pr_pgdir x))) (\<lambda>_.
     kbind (pset p (\<lambda>x. x\<lparr>pr_state := UNUSED, pr_pid := 0, pr_parent := None, pr_name := (pr_name x)(0 := 0), pr_killed := False\<rparr>)) (\<lambda>_.
     kret (pr_pid x)))))))"

definition wait_scan :: "nat \<Rightarrow> nat \<Rightarrow> bool \<Rightarrow> (kern, int + bool) prog" where
  \<comment> \<open>the body of the loop over the table, with \<open>havekids\<close>\<close>
  "wait_scan me p havekids = kbind (pget p id) (\<lambda>x.
     if pr_parent x \<noteq> Some me then kret (Inr havekids)
     else if pr_state x = ZOMBIE then kbind (reap p) (\<lambda>pid. kret (Inl pid))
     else kret (Inr True))"

definition wait :: "(kern, call) prog" where
  "wait = kbind cur (\<lambda>me. kbind (kscan 0 NPROC (wait_scan me) False) (\<lambda>r. case r of
       Inl pid \<Rightarrow> kret (Back pid)
     | Inr havekids \<Rightarrow> kbind (pget me pr_killed) (\<lambda>k.
         if \<not> havekids \<or> k then kret (Back (-1))
         else kbind (sleep (On_proc me)) (\<lambda>_. kret Switched))))"

definition kill :: "int \<Rightarrow> (kern, int) prog" where
  "kill pid = kbind (kget (\<lambda>s. find (\<lambda>p. pr_pid (ptab s p) = pid) [0..<NPROC])) (\<lambda>r. case r of None \<Rightarrow> kret (-1)
     | Some p \<Rightarrow>
         kbind (pset p (\<lambda>x. x\<lparr>pr_killed := True\<rparr>)) (\<lambda>_.
         kbind (pget p pr_state) (\<lambda>st.
         kbind (kwhen (st = SLEEPING) (pset p (\<lambda>x. x\<lparr>pr_state := RUNNABLE\<rparr>))) (\<lambda>_. kret 0))))"

end
