(* ===== verification/Syscall.thy ===== *)
theory Syscall
  imports Proc
begin

text \<open>
  System call arguments (\<^verbatim>\<open>syscall.c\<close>): how the kernel reads and writes the memory of the calling process, and the checks
  on numbers, pointers and strings.

  An access to a user address goes through the page directory of the process, as the hardware does it. The kernel runs with
  write protection on, and a fault in the kernel is \<open>Panic ''trap''\<close>. A result of -1 is \<open>None\<close>, and a string is its address
  with its characters.
\<close>

section \<open>User memory\<close>

definition uaddr :: "bytes \<Rightarrow> uint \<Rightarrow> uint \<Rightarrow> bool \<Rightarrow> uint option" where
  \<comment> \<open>where an address of the process lies, if it is present, and writable for a write\<close>
  "uaddr m pgdir va write = (let e = pte_of m pgdir va in
     if e AND PTE_P = 0 \<or> (write \<and> e AND PTE_W = 0) then None else Some (p2v (PTE_ADDR e) + (va AND 0xFFF)))"

definition upage :: "uint \<Rightarrow> bool \<Rightarrow> (kern, uint) prog" where
  "upage va write = kbind (curget pr_pgdir) (\<lambda>d. kbind (kget (\<lambda>s. uaddr (mem (k_mem s)) d va write)) nonnull)"

definition uld8 :: "uint \<Rightarrow> (kern, uchar) prog" where
  "uld8 va = kbind (upage va False) (\<lambda>a. kget (\<lambda>s. mem (k_mem s) (unat a)))"

definition ust8 :: "uint \<Rightarrow> uchar \<Rightarrow> (kern, unit) prog" where
  "ust8 va c = kbind (upage va True) (\<lambda>a. on_mem (kmod (\<lambda>m. m\<lparr>mem := (mem m)(unat a := c)\<rparr>)))"

primrec uread :: "nat \<Rightarrow> uint \<Rightarrow> (kern, uchar list) prog" where
  "uread 0 va = kret []"
| "uread (Suc n) va = kbind (uld8 va) (\<lambda>c. kbind (uread n (va + 1)) (\<lambda>cs. kret (c # cs)))"

primrec uwrite :: "uint \<Rightarrow> uchar list \<Rightarrow> (kern, unit) prog" where
  "uwrite va [] = kret ()"
| "uwrite va (c # cs) = kbind (ust8 va c) (\<lambda>_. uwrite (va + 1) cs)"

definition word_bytes :: "uint \<Rightarrow> uchar list" where
  "word_bytes v = map (st32 zero_bytes 0 v) [0..<4]"

definition half_bytes :: "ushort \<Rightarrow> uchar list" where
  "half_bytes v = map (st16 zero_bytes 0 v) [0..<2]"

section \<open>Arguments\<close>

definition fetchint :: "uint \<Rightarrow> (kern, uint option) prog" where
  "fetchint addr = kbind (curget pr_sz) (\<lambda>sz.
     if addr \<ge> sz \<or> addr + 4 > sz then kret None
     else kbind (uread 4 addr) (\<lambda>bs. kret (Some (ld32 (cview bs) 0))))"

primrec fetchstr_from :: "nat \<Rightarrow> uint \<Rightarrow> (kern, uchar list option) prog" where
  \<comment> \<open>the loop, with the number of bytes up to \<open>ep\<close>\<close>
  "fetchstr_from 0 va = kret None"
| "fetchstr_from (Suc n) va = kbind (uld8 va) (\<lambda>c. if c = 0 then kret (Some [])
     else kbind (fetchstr_from n (va + 1)) (\<lambda>r. kret (map_option ((#) c) r)))"

definition fetchstr :: "uint \<Rightarrow> (kern, (uint \<times> uchar list) option) prog" where
  "fetchstr addr = kbind (curget pr_sz) (\<lambda>sz.
     if addr \<ge> sz then kret None
     else kbind (fetchstr_from (unat (sz - addr)) addr) (\<lambda>r. kret (map_option (Pair addr) r)))"

definition argint :: "nat \<Rightarrow> (kern, uint option) prog" where
  "argint n = kbind (curget (\<lambda>x. tf_esp (pr_tf x))) (\<lambda>esp. fetchint (esp + 4 + 4 * of_nat n))"

definition argptr :: "nat \<Rightarrow> int \<Rightarrow> (kern, uint option) prog" where
  "argptr n nb = kbind (argint n) (\<lambda>r. case r of None \<Rightarrow> kret None
     | Some i \<Rightarrow> kbind (curget pr_sz) (\<lambda>sz. kret (if i \<ge> sz \<or> i + word_of_int nb > sz then None else Some i)))"

definition argstr :: "nat \<Rightarrow> (kern, (uint \<times> uchar list) option) prog" where
  "argstr n = kbind (argint n) (\<lambda>r. case r of None \<Rightarrow> kret None | Some addr \<Rightarrow> fetchstr addr)"

end
