(* ===== verification/Exec.thy ===== *)
theory Exec
  imports Syscall
begin

text \<open>
  \<open>exec\<close> (\<^verbatim>\<open>exec.c\<close>): the ELF headers, the new address space with the segments of the program and its stack, and the
  switch to it.

  The strings of \<open>argv\<close> were read from
  the memory of the process.
\<close>

section \<open>Headers\<close>

definition ELF_MAGIC :: uint where "ELF_MAGIC = 0x464C457F"
definition MAXARG :: nat where "MAXARG = 32"

definition elf_magic :: "bytes \<Rightarrow> uint" where "elf_magic b = ld32 b 0"
definition elf_entry :: "bytes \<Rightarrow> uint" where "elf_entry b = ld32 b 24"
definition elf_phoff :: "bytes \<Rightarrow> uint" where "elf_phoff b = ld32 b 28"
definition elf_phnum :: "bytes \<Rightarrow> ushort" where "elf_phnum b = ld16 b 44"

definition ph_type :: "bytes \<Rightarrow> uint" where "ph_type b = ld32 b 0"
definition ph_off :: "bytes \<Rightarrow> uint" where "ph_off b = ld32 b 4"
definition ph_vaddr :: "bytes \<Rightarrow> uint" where "ph_vaddr b = ld32 b 8"
definition ph_filesz :: "bytes \<Rightarrow> uint" where "ph_filesz b = ld32 b 16"
definition ph_memsz :: "bytes \<Rightarrow> uint" where "ph_memsz b = ld32 b 20"

definition over :: "uchar list \<Rightarrow> bytes \<Rightarrow> bytes" where
  \<comment> \<open>what was read, over what the buffer held\<close>
  "over bs b = blit b 0 (cview bs) 0 (length bs)"

section \<open>Loading\<close>

definition on_memfs :: "(fsys vm_scheme, 'b) prog \<Rightarrow> (kern, 'b) prog" where
  \<comment> \<open>a program on memory and the file systems\<close>
  "on_memfs = kzoom (\<lambda>s. vm.extend (k_mem s) (k_fs s)) (\<lambda>t s. s\<lparr>k_mem := vm.truncate t, k_fs := vm.more t\<rparr>)"

definition read_into :: "nat \<Rightarrow> uint \<Rightarrow> uint \<Rightarrow> uint \<Rightarrow> (fsys vm_scheme, int) prog" where
  \<comment> \<open>\<open>vop_read(ip, dst, off, n)\<close> with \<open>dst\<close> in the memory of the kernel\<close>
  "read_into ip dst off n = kbind (kzoom vm.more (\<lambda>f. vm.more_update (\<lambda>_. f)) (vop_read ip off n)) (\<lambda>(r, bs).
     kbind (kmod (\<lambda>s. s\<lparr>mem := blit (mem s) (unat dst) (cview bs) 0 (length bs)\<rparr>)) (\<lambda>_. kret r))"

definition exec_header :: "nat \<Rightarrow> (kern, bytes option) prog" where
  \<comment> \<open>\<open>elf\<close>; the result of \<open>vop_read\<close> is compared without its sign\<close>
  "exec_header ip = kbind (kget stack_junk) (\<lambda>junk. kbind (on_fs (vop_read ip 0 52)) (\<lambda>(r, bs).
     kret (if (word_of_int r :: uint) < 52 \<or> elf_magic (over bs junk) \<noteq> ELF_MAGIC then None else Some (over bs junk))))"

definition exec_segment :: "uint \<Rightarrow> nat \<Rightarrow> uint \<Rightarrow> nat \<Rightarrow> uint \<Rightarrow> (kern, unit + uint) prog" where
  \<comment> \<open>one round of the loop over the program headers; \<open>Inl\<close> is \<open>goto bad\<close>\<close>
  "exec_segment pgdir ip phoff i sz = kbind (on_fs (vop_read ip (phoff + 32 * of_nat i) 32)) (\<lambda>(r, bs).
     let ph = cview bs in
     if r \<noteq> 32 then kret (Inl ())
     else if ph_type ph \<noteq> 1 then kret (Inr sz)
     else if ph_memsz ph < ph_filesz ph then kret (Inl ())
     else kbind (kget k_end) (\<lambda>kend. kbind (on_mem (allocuvm kend pgdir sz (ph_vaddr ph + ph_memsz ph))) (\<lambda>sz.
       if sz = 0 then kret (Inl ())
       else kbind (on_memfs (loaduvm (read_into ip) pgdir (ph_vaddr ph) (ph_off ph) (ph_filesz ph))) (\<lambda>r.
         kret (if r < 0 then Inl () else Inr sz)))))"

definition exec_push :: "uint \<Rightarrow> uchar list \<Rightarrow> uint \<times> uint list \<Rightarrow> (kern, (uint \<times> uint list) option) prog" where
  \<comment> \<open>one round of the loop over \<open>argv\<close>: \<open>sp\<close> and the addresses pushed so far\<close>
  "exec_push pgdir arg st = (case st of (sp, us) \<Rightarrow>
     let sp = (sp - of_nat (length arg + 1)) AND NOT 3 in
     kbind (on_mem (copyout pgdir sp (cview arg) (of_nat (length arg + 1)))) (\<lambda>r.
     kret (if r < 0 then None else Some (sp, us @ [sp]))))"

primrec exec_args :: "uint \<Rightarrow> uchar list list \<Rightarrow> nat \<Rightarrow> uint \<times> uint list \<Rightarrow> (kern, (uint \<times> uint list) option) prog" where
  "exec_args pgdir [] argc st = kret (Some st)"
| "exec_args pgdir (arg # args) argc st =
     (if argc \<ge> MAXARG then kret None
      else kbind (exec_push pgdir arg st) (\<lambda>r. case r of None \<Rightarrow> kret None | Some st \<Rightarrow> exec_args pgdir args (Suc argc) st))"

definition exec_ustack :: "uint \<Rightarrow> uint list \<Rightarrow> uint list" where
  \<comment> \<open>return address, \<open>argc\<close>, \<open>argv\<close>, the pointers and a null pointer\<close>
  "exec_ustack sp us = [0xFFFFFFFF, of_nat (length us), sp - of_nat ((length us + 1) * 4)] @ us @ [0]"

definition exec_stack :: "uint \<Rightarrow> uint \<Rightarrow> uchar list list \<Rightarrow> (kern, (uint \<times> uint) option) prog" where
  \<comment> \<open>two pages, the first inaccessible, and what is pushed on the second: \<open>sz\<close> and \<open>sp\<close>\<close>
  "exec_stack pgdir sz argv = kbind (kget k_end) (\<lambda>kend.
     kbind (on_mem (allocuvm kend pgdir (PGROUNDUP sz) (PGROUNDUP sz + 2 * 4096))) (\<lambda>sz.
     if sz = 0 then kret None
     else
       kbind (on_mem (clearpteu pgdir (sz - 2 * 4096))) (\<lambda>_.
       kbind (exec_args pgdir argv 0 (sz, [])) (\<lambda>r. case r of None \<Rightarrow> kret None
       | Some (sp, us) \<Rightarrow>
           let bs = concat (map word_bytes (exec_ustack sp us)); sp = sp - of_nat ((3 + length us + 1) * 4) in
           kbind (on_mem (copyout pgdir sp (cview bs) (of_nat ((3 + length us + 1) * 4)))) (\<lambda>r.
           kret (if r < 0 then None else Some (sz, sp)))))))"

section \<open>The call\<close>

definition last_name :: "uchar list \<Rightarrow> uchar list" where
  \<comment> \<open>\<open>last\<close>: what follows the last slash\<close>
  "last_name path = rev (takeWhile (\<lambda>c. c \<noteq> 47) (rev path))"

definition exec_commit :: "uchar list \<Rightarrow> uint \<Rightarrow> uint \<Rightarrow> uint \<Rightarrow> uint \<Rightarrow> (kern, int) prog" where
  "exec_commit path pgdir sz sp entry = kbind cur (\<lambda>p.
     kbind (pset p (\<lambda>x. x\<lparr>pr_name := safestrcpy (pr_name x) 0 (cview (last_name path)) 16\<rparr>)) (\<lambda>_.
     kbind (pget p pr_pgdir) (\<lambda>oldpgdir.
     kbind (pset p (\<lambda>x. x\<lparr>pr_pgdir := pgdir, pr_sz := sz, pr_tf := (pr_tf x)\<lparr>tf_eip := entry, tf_esp := sp\<rparr>\<rparr>)) (\<lambda>_.
     kbind (switchuvm p) (\<lambda>_.
     kbind (kget k_end) (\<lambda>kend.
     kbind (on_mem (freevm kend oldpgdir)) (\<lambda>_. kret 0)))))))"

definition exec_bad :: "uint \<Rightarrow> nat option \<Rightarrow> (kern, int) prog" where
  "exec_bad pgdir ip = kbind (kget k_end) (\<lambda>kend.
     kbind (kwhen (pgdir \<noteq> 0) (on_mem (freevm kend pgdir))) (\<lambda>_.
     kbind (case ip of None \<Rightarrow> kret () | Some ip \<Rightarrow> on_fs (vop_iunlockput ip)) (\<lambda>_. kret (-1))))"

definition exec :: "uchar list \<Rightarrow> uchar list list \<Rightarrow> (kern, int) prog" where
  "exec path argv = kbind (as_cur (on_fs (vfs_lookup path))) (\<lambda>r. case r of None \<Rightarrow> kret (-1)
     | Some ip \<Rightarrow> kbind (on_fs (vop_ilock ip)) (\<lambda>_.
         kbind (exec_header ip) (\<lambda>r. case r of None \<Rightarrow> exec_bad 0 (Some ip)
         | Some elf \<Rightarrow> kbind (kget k_data) (\<lambda>data. kbind (on_mem (setupkvm data)) (\<lambda>pgdir.
             if pgdir = 0 then exec_bad 0 (Some ip)
             else
               kbind (kscan 0 (unat (elf_phnum elf)) (exec_segment pgdir ip (elf_phoff elf)) 0) (\<lambda>r. case r of
                 Inl _ \<Rightarrow> exec_bad pgdir (Some ip)
               | Inr sz \<Rightarrow> kbind (on_fs (vop_iunlockput ip)) (\<lambda>_.
                   kbind (exec_stack pgdir sz argv) (\<lambda>r. case r of None \<Rightarrow> exec_bad pgdir None
                   | Some (sz, sp) \<Rightarrow> exec_commit path pgdir sz sp (elf_entry elf)))))))))"

end
