(* ===== verification/Sysfile.thy ===== *)
theory Sysfile
  imports Exec
begin

text \<open>
  The system calls on files (\<^verbatim>\<open>fs/sysfile.c\<close>).

  The result of a call is the number it returns. What the calls print on the console is left out. Strings and buffers in the
  memory of the process are read and written there, byte by byte.
\<close>

section \<open>Descriptors\<close>

definition argfd :: "nat \<Rightarrow> (kern, (nat \<times> nat) option) prog" where
  "argfd n = kbind (argint n) (\<lambda>r. case r of None \<Rightarrow> kret None
     | Some w \<Rightarrow> let fd = sint w in
         if fd < 0 \<or> fd \<ge> int NOFILE then kret None
         else kbind (curget (\<lambda>x. pr_ofile x (nat fd))) (\<lambda>r. kret (map_option (Pair (nat fd)) r)))"

definition fdalloc :: "nat \<Rightarrow> (kern, nat option) prog" where
  "fdalloc f = kbind (curget (\<lambda>x. find (\<lambda>fd. pr_ofile x fd = None) [0..<NOFILE])) (\<lambda>r. case r of None \<Rightarrow> kret None
     | Some fd \<Rightarrow> kbind (curset (\<lambda>x. x\<lparr>pr_ofile := (pr_ofile x)(fd := Some f)\<rparr>)) (\<lambda>_. kret (Some fd)))"

definition sys_dup :: "(kern, int) prog" where
  "sys_dup = kbind (argfd 0) (\<lambda>r. case r of None \<Rightarrow> kret (-1)
     | Some (_, f) \<Rightarrow> kbind (fdalloc f) (\<lambda>r. case r of None \<Rightarrow> kret (-1)
         | Some fd \<Rightarrow> kbind (filedup f) (\<lambda>_. kret (int fd))))"

definition arg_file_buf :: "(kern, (nat \<times> int \<times> uint) option) prog" where
  \<comment> \<open>the arguments of \<open>read\<close> and \<open>write\<close>: file, length and buffer\<close>
  "arg_file_buf = kbind (argfd 0) (\<lambda>r. case r of None \<Rightarrow> kret None
     | Some (_, f) \<Rightarrow> kbind (argint 2) (\<lambda>r. case r of None \<Rightarrow> kret None
         | Some n \<Rightarrow> kbind (argptr 1 (sint n)) (\<lambda>r. kret (map_option (\<lambda>p. (f, sint n, p)) r))))"

definition sys_read :: "(kern, int) prog" where
  "sys_read = kbind arg_file_buf (\<lambda>r. case r of None \<Rightarrow> kret (-1)
     | Some (f, n, p) \<Rightarrow> kbind (as_cur (fileread f n)) (\<lambda>(r, bs). kbind (uwrite p bs) (\<lambda>_. kret r)))"

definition sys_write :: "(kern, int) prog" where
  "sys_write = kbind arg_file_buf (\<lambda>r. case r of None \<Rightarrow> kret (-1)
     | Some (f, n, p) \<Rightarrow> kbind (uread (nat n) p) (\<lambda>src. as_cur (filewrite f src n)))"

definition sys_close :: "(kern, int) prog" where
  "sys_close = kbind (argfd 0) (\<lambda>r. case r of None \<Rightarrow> kret (-1)
     | Some (fd, f) \<Rightarrow> kbind (curset (\<lambda>x. x\<lparr>pr_ofile := (pr_ofile x)(fd := None)\<rparr>)) (\<lambda>_.
         kbind (fileclose f) (\<lambda>_. kret 0)))"

definition put_stat :: "uint \<Rightarrow> stat \<Rightarrow> (kern, unit) prog" where
  \<comment> \<open>the fields of \<open>struct stat\<close> at \<open>st\<close>\<close>
  "put_stat st x = kbind (uwrite st (half_bytes (st_type x))) (\<lambda>_.
     kbind (uwrite (st + 4) (word_bytes (st_dev x))) (\<lambda>_.
     kbind (uwrite (st + 8) (word_bytes (st_ino x))) (\<lambda>_.
     kbind (uwrite (st + 12) (half_bytes (st_nlink x))) (\<lambda>_.
     kbind (uwrite (st + 16) (word_bytes (st_size x))) (\<lambda>_.
     uwrite (st + 20) (word_bytes (word_of_int (st_fstype x))))))))"

definition sys_fstat :: "(kern, int) prog" where
  "sys_fstat = kbind (argfd 0) (\<lambda>r. case r of None \<Rightarrow> kret (-1)
     | Some (_, f) \<Rightarrow> kbind (argptr 1 24) (\<lambda>r. case r of None \<Rightarrow> kret (-1)
         | Some st \<Rightarrow> kbind (filestat f) (\<lambda>(r, x). case x of None \<Rightarrow> kret r
             | Some x \<Rightarrow> kbind (put_stat st x) (\<lambda>_. kret r))))"

definition sys_pipe :: "(kern, int) prog" where
  "sys_pipe = kbind (argptr 0 8) (\<lambda>r. case r of None \<Rightarrow> kret (-1)
     | Some fd \<Rightarrow> kbind pipealloc (\<lambda>r. case r of None \<Rightarrow> kret (-1)
         | Some (rfile, wfile) \<Rightarrow> kbind (fdalloc rfile) (\<lambda>fd0. case fd0 of
               None \<Rightarrow> kbind (fileclose rfile) (\<lambda>_. kbind (fileclose wfile) (\<lambda>_. kret (-1)))
             | Some fd0 \<Rightarrow> kbind (fdalloc wfile) (\<lambda>fd1. case fd1 of
                   None \<Rightarrow> kbind (curset (\<lambda>x. x\<lparr>pr_ofile := (pr_ofile x)(fd0 := None)\<rparr>)) (\<lambda>_.
                     kbind (fileclose rfile) (\<lambda>_. kbind (fileclose wfile) (\<lambda>_. kret (-1))))
                 | Some fd1 \<Rightarrow> kbind (uwrite fd (word_bytes (of_nat fd0))) (\<lambda>_.
                     kbind (uwrite (fd + 4) (word_bytes (of_nat fd1))) (\<lambda>_. kret 0))))))"

section \<open>Paths\<close>

definition lookup :: "uchar list \<Rightarrow> (kern, nat option) prog" where
  "lookup path = as_cur (on_fs (vfs_lookup path))"

definition lookup_parent :: "uchar list \<Rightarrow> (kern, nat option \<times> uchar list) prog" where
  "lookup_parent path = as_cur (on_fs (vfs_lookup_parent path))"

definition link_bad :: "nat \<Rightarrow> (fsys, int) prog" where
  "link_bad ip = kbind (vop_ilock ip) (\<lambda>_. kbind (vop_link_dec ip) (\<lambda>_. kbind (vop_iupdate ip) (\<lambda>_.
     kbind (vop_iunlockput ip) (\<lambda>_. kbind commit_trans (\<lambda>_. kret (-1))))))"

definition link_into :: "nat \<Rightarrow> uchar list \<Rightarrow> nat \<Rightarrow> (fsys, int) prog" where
  \<comment> \<open>from the parent directory on\<close>
  "link_into dp name ip = kbind (vop_ilock dp) (\<lambda>_.
     kbind (vop_getdev dp) (\<lambda>d. kbind (vop_getdev ip) (\<lambda>e.
     kbind (if d \<noteq> e then kret (-1) else vop_dirlink dp name ip) (\<lambda>r.
     if r < 0 then kbind (vop_iunlockput dp) (\<lambda>_. link_bad ip)
     else kbind (vop_iunlockput dp) (\<lambda>_. kbind (vop_ref_dec ip) (\<lambda>_. kbind commit_trans (\<lambda>_. kret 0)))))))"

definition sys_link :: "(kern, int) prog" where
  "sys_link = kbind (argstr 0) (\<lambda>r. case r of None \<Rightarrow> kret (-1) | Some (_, old) \<Rightarrow>
     kbind (argstr 1) (\<lambda>r. case r of None \<Rightarrow> kret (-1) | Some (_, new) \<Rightarrow>
     kbind (lookup old) (\<lambda>r. case r of None \<Rightarrow> kret (-1) | Some ip \<Rightarrow>
     kbind (on_fs (kbind begin_trans (\<lambda>_. kbind (vop_ilock ip) (\<lambda>_. vop_gettype ip)))) (\<lambda>t.
     if t = T_DIR then on_fs (kbind (vop_iunlockput ip) (\<lambda>_. kbind commit_trans (\<lambda>_. kret (-1))))
     else
       kbind (on_fs (kbind (vop_link_inc ip) (\<lambda>_. kbind (vop_iupdate ip) (\<lambda>_. vop_iunlock ip)))) (\<lambda>_.
       kbind (lookup_parent new) (\<lambda>(dp, name). on_fs (case dp of None \<Rightarrow> link_bad ip | Some dp \<Rightarrow> link_into dp name ip)))))))"

definition sys_unlink :: "(kern, int) prog" where
  "sys_unlink = kbind (argstr 0) (\<lambda>r. case r of None \<Rightarrow> kret (-1) | Some (_, path) \<Rightarrow>
     kbind (lookup_parent path) (\<lambda>(dp, name). case dp of None \<Rightarrow> kret (-1) | Some dp \<Rightarrow>
     on_fs (kbind begin_trans (\<lambda>_. kbind (vop_unlink dp name) (\<lambda>r. kbind commit_trans (\<lambda>_.
       kret (if r \<noteq> 0 then -1 else 0)))))))"

definition create_at :: "nat \<Rightarrow> uchar list \<Rightarrow> 16 word \<Rightarrow> 16 word \<Rightarrow> 16 word \<Rightarrow> (fsys, nat option) prog" where
  \<comment> \<open>\<open>create\<close> in the parent directory\<close>
  "create_at dp name type major minor = kbind (vop_ilock dp) (\<lambda>_. kbind (vop_dirlookup dp name) (\<lambda>r. case r of
       Some ip \<Rightarrow> kbind (vop_iunlockput dp) (\<lambda>_. kbind (vop_ilock ip) (\<lambda>_.
         kbind (if type = T_FILE then vop_gettype ip else kret 0) (\<lambda>t.
         if type = T_FILE \<and> t = T_FILE then kret (Some ip)
         else kbind (vop_iunlockput ip) (\<lambda>_. kret None))))
     | None \<Rightarrow> kbind (vop_create_inode dp type major minor name) (\<lambda>ip. kbind (vop_iunlockput dp) (\<lambda>_. kret (Some ip)))))"

definition create :: "uchar list \<Rightarrow> 16 word \<Rightarrow> 16 word \<Rightarrow> 16 word \<Rightarrow> (kern, nat option) prog" where
  "create path type major minor = kbind (lookup_parent path) (\<lambda>(dp, name). case dp of None \<Rightarrow> kret None
     | Some dp \<Rightarrow> on_fs (create_at dp name type major minor))"

section \<open>Open\<close>

definition O_WRONLY :: uint where "O_WRONLY = 1"
definition O_RDWR :: uint where "O_RDWR = 2"
definition O_CREATE :: uint where "O_CREATE = 0x200"

definition open_inode :: "uchar list \<Rightarrow> uint \<Rightarrow> (kern, nat option) prog" where
  \<comment> \<open>the locked inode of the file to open\<close>
  "open_inode path omode =
     (if omode AND O_CREATE \<noteq> 0 then
        kbind (on_fs begin_trans) (\<lambda>_. kbind (create path T_FILE 0 0) (\<lambda>ip. kbind (on_fs commit_trans) (\<lambda>_. kret ip)))
      else
        kbind (lookup path) (\<lambda>r. case r of None \<Rightarrow> kret None
        | Some ip \<Rightarrow> on_fs (kbind (vop_ilock ip) (\<lambda>_. kbind (vop_open ip ip omode) (\<lambda>r.
            if r \<noteq> 0 then kbind (vop_iunlockput ip) (\<lambda>_. kret None) else kret (Some ip))))))"

definition inode_file :: "nat \<Rightarrow> uint \<Rightarrow> file_t \<Rightarrow> file_t" where
  "inode_file ip omode x = x\<lparr>f_type := FD_INODE, f_ip := ip, f_off := 0, f_readable := omode AND O_WRONLY = 0,
     f_writable := omode AND O_WRONLY \<noteq> 0 \<or> omode AND O_RDWR \<noteq> 0\<rparr>"

definition open_file :: "nat \<Rightarrow> uint \<Rightarrow> (kern, int) prog" where
  \<comment> \<open>a descriptor for it\<close>
  "open_file ip omode = kbind filealloc (\<lambda>r. case r of None \<Rightarrow> kbind (on_fs (vop_iunlockput ip)) (\<lambda>_. kret (-1))
     | Some f \<Rightarrow> kbind (fdalloc f) (\<lambda>r. case r of
           None \<Rightarrow> kbind (fileclose f) (\<lambda>_. kbind (on_fs (vop_iunlockput ip)) (\<lambda>_. kret (-1)))
         | Some fd \<Rightarrow> kbind (on_fs (vop_iunlock ip)) (\<lambda>_. kbind (fset f (inode_file ip omode)) (\<lambda>_. kret (int fd)))))"

definition sb_open :: "uchar list \<Rightarrow> uint \<Rightarrow> (kern, int) prog" where
  "sb_open path omode = kbind (open_inode path omode) (\<lambda>r. case r of None \<Rightarrow> kret (-1) | Some ip \<Rightarrow> open_file ip omode)"

definition sys_open :: "(kern, int) prog" where
  "sys_open = kbind (argstr 0) (\<lambda>r. case r of None \<Rightarrow> kret (-1) | Some (_, path) \<Rightarrow>
     kbind (argint 1) (\<lambda>r. case r of None \<Rightarrow> kret (-1) | Some omode \<Rightarrow>
     kbind (open_inode path omode) (\<lambda>r. case r of None \<Rightarrow> kret (-1) | Some ip \<Rightarrow> open_file ip omode)))"

section \<open>Creating nodes\<close>

definition create_node :: "uchar list \<Rightarrow> 16 word \<Rightarrow> 16 word \<Rightarrow> 16 word \<Rightarrow> (kern, int) prog" where
  \<comment> \<open>create, release and commit\<close>
  "create_node path type major minor = kbind (create path type major minor) (\<lambda>r. on_fs (case r of
       None \<Rightarrow> kbind commit_trans (\<lambda>_. kret (-1))
     | Some ip \<Rightarrow> kbind (vop_iunlockput ip) (\<lambda>_. kbind commit_trans (\<lambda>_. kret 0))))"

definition commit_fail :: "(kern, int) prog" where
  "commit_fail = on_fs (kbind commit_trans (\<lambda>_. kret (-1)))"

definition sys_mkdir :: "(kern, int) prog" where
  "sys_mkdir = kbind (on_fs begin_trans) (\<lambda>_. kbind (argstr 0) (\<lambda>r. case r of None \<Rightarrow> commit_fail
     | Some (_, path) \<Rightarrow> create_node path T_DIR 0 0))"

definition sys_mknod :: "(kern, int) prog" where
  "sys_mknod = kbind (on_fs begin_trans) (\<lambda>_. kbind (argstr 0) (\<lambda>r. case r of None \<Rightarrow> commit_fail | Some (_, path) \<Rightarrow>
     kbind (argint 1) (\<lambda>r. case r of None \<Rightarrow> commit_fail | Some major \<Rightarrow>
     kbind (argint 2) (\<lambda>r. case r of None \<Rightarrow> commit_fail | Some minor \<Rightarrow>
     create_node path T_DEV (ucast major) (ucast minor)))))"

definition sys_touch :: "(kern, int) prog" where
  "sys_touch = kbind (on_fs begin_trans) (\<lambda>_. kbind (argstr 0) (\<lambda>r. case r of None \<Rightarrow> commit_fail
     | Some (_, path) \<Rightarrow> create_node path T_FILE 0 0))"

section \<open>Directories\<close>

definition sys_chdir :: "(kern, int) prog" where
  "sys_chdir = kbind (argstr 0) (\<lambda>r. case r of None \<Rightarrow> kret (-1) | Some (_, path) \<Rightarrow>
     kbind (lookup path) (\<lambda>r. case r of None \<Rightarrow> kret (-1) | Some ip \<Rightarrow>
     kbind (on_fs (kbind (vop_ilock ip) (\<lambda>_. vop_gettype ip))) (\<lambda>t.
     if t \<noteq> T_DIR then on_fs (kbind (vop_iunlockput ip) (\<lambda>_. kret (-1)))
     else
       kbind (on_fs (vop_iunlock ip)) (\<lambda>_.
       kbind (curget pr_cwd) (\<lambda>c. kbind (nonnull c) (\<lambda>c.
       kbind (on_fs (vop_ref_dec c)) (\<lambda>_.
       kbind (curset (\<lambda>x. x\<lparr>pr_cwd := Some ip\<rparr>)) (\<lambda>_. kret 0))))))))"

definition sys_rmdir :: "(kern, int) prog" where
  "sys_rmdir = kbind (argstr 0) (\<lambda>r. case r of None \<Rightarrow> kret (-1) | Some (_, path) \<Rightarrow>
     kbind (lookup path) (\<lambda>r. case r of None \<Rightarrow> kret (-1) | Some ip \<Rightarrow>
     kbind (on_fs (vop_gettype ip)) (\<lambda>t. kret (if t \<noteq> T_DIR then -1 else 0))))"

definition sys_find :: "(kern, int) prog" where
  "sys_find = kret 0"

primrec put_changed :: "nat \<Rightarrow> uint \<Rightarrow> bytes \<Rightarrow> bytes \<Rightarrow> (kern, unit) prog" where
  \<comment> \<open>what changed among the first bytes of a buffer at \<open>va\<close>\<close>
  "put_changed 0 va b b' = kret ()"
| "put_changed (Suc n) va b b' = kbind (put_changed n va b b') (\<lambda>_. kwhen (b' n \<noteq> b n) (ust8 (va + of_nat n) (b' n)))"

definition sys_getcwd :: "(kern, int) prog" where
  "sys_getcwd = kbind (argstr 0) (\<lambda>r. case r of None \<Rightarrow> kret (-1) | Some (buf, _) \<Rightarrow>
     kbind (argint 1) (\<lambda>r. case r of None \<Rightarrow> kret (-1) | Some len \<Rightarrow>
     if len = 0 then kret (-1)
     else
       kbind (curget pr_pgdir) (\<lambda>d.
       kbind (kget (\<lambda>s i. mem (k_mem s) (unat (the (uaddr (mem (k_mem s)) d (buf + of_nat i) False))))) (\<lambda>b.
       kbind (as_cur (on_fs (vfs_getcwd b (sint len)))) (\<lambda>(r, b').
       kbind (put_changed (nat (sint len) + 6) buf b b') (\<lambda>_. kret r))))))"

primrec fetch_argv :: "nat \<Rightarrow> uint \<Rightarrow> (kern, uchar list list option) prog" where
  \<comment> \<open>the loop of \<open>sys_exec\<close>, with the number of elements of \<open>argv\<close> that are left\<close>
  "fetch_argv 0 uargv = kret None"
| "fetch_argv (Suc n) uargv = kbind (fetchint uargv) (\<lambda>r. case r of None \<Rightarrow> kret None | Some uarg \<Rightarrow>
     if uarg = 0 then kret (Some [])
     else kbind (fetchstr uarg) (\<lambda>r. case r of None \<Rightarrow> kret None | Some (_, str) \<Rightarrow>
       kbind (fetch_argv n (uargv + 4)) (\<lambda>r. kret (map_option ((#) str) r))))"

definition sys_exec :: "(kern, int) prog" where
  "sys_exec = kbind (argstr 0) (\<lambda>r. case r of None \<Rightarrow> kret (-1) | Some (_, path) \<Rightarrow>
     kbind (argint 1) (\<lambda>r. case r of None \<Rightarrow> kret (-1) | Some uargv \<Rightarrow>
     kbind (fetch_argv MAXARG uargv) (\<lambda>r. case r of None \<Rightarrow> kret (-1) | Some argv \<Rightarrow> exec path argv)))"

section \<open>Copy and move\<close>

text \<open>The loops over strings run in the memory of the process and end at the latest with a fault; the fuel covers the address
  space. The loop that copies a file ends with the file, whose size is less than \<open>2 ^ 32\<close>.\<close>

primrec name_start :: "nat \<Rightarrow> uint \<Rightarrow> uint \<Rightarrow> (kern, uint) prog" where
  \<comment> \<open>\<open>while (*srcfilename != '/' && srcfilename != srcpath) srcfilename--\<close>\<close>
  "name_start 0 srcpath p = kdiverge"
| "name_start (Suc n) srcpath p = kbind (uld8 p) (\<lambda>c. if c \<noteq> 47 \<and> p \<noteq> srcpath then name_start n srcpath (p - 1) else kret p)"

primrec append_name :: "nat \<Rightarrow> uint \<Rightarrow> uint \<Rightarrow> (kern, uint) prog" where
  \<comment> \<open>\<open>while (*srcfilename != 0) *destfullpath++ = *srcfilename++\<close>\<close>
  "append_name 0 d p = kdiverge"
| "append_name (Suc n) d p = kbind (uld8 p) (\<lambda>c. if c \<noteq> 0 then kbind (ust8 d c) (\<lambda>_. append_name n (d + 1) (p + 1)) else kret d)"

definition extend_dest :: "uint \<Rightarrow> uchar list \<Rightarrow> uint \<Rightarrow> uchar list \<Rightarrow> (kern, unit) prog" where
  \<comment> \<open>the destination is a directory: the name of the source is appended to \<open>destpath\<close>, where it lies\<close>
  "extend_dest srcpath srcstr destpath deststr =
     kbind (name_start (2 ^ 32) srcpath (srcpath + of_nat (length srcstr) - 1)) (\<lambda>p.
     kbind (uld8 p) (\<lambda>c. let d = destpath + of_nat (length deststr) in
     kbind (kwhen (c \<noteq> 47) (ust8 d 47)) (\<lambda>_.
     kbind (append_name (2 ^ 32) (if c \<noteq> 47 then d + 1 else d) p) (\<lambda>d. ust8 d 0))))"

primrec read_cstr :: "nat \<Rightarrow> uint \<Rightarrow> (kern, uchar list) prog" where
  \<comment> \<open>the string at an address, as \<open>create\<close> reads it\<close>
  "read_cstr 0 p = kdiverge"
| "read_cstr (Suc n) p = kbind (uld8 p) (\<lambda>c. if c = 0 then kret [] else kbind (read_cstr n (p + 1)) (\<lambda>cs. kret (c # cs)))"

primrec node_copy_loop :: "nat \<Rightarrow> nat \<Rightarrow> nat \<Rightarrow> uint \<Rightarrow> (fsys, unit) prog" where
  "node_copy_loop 0 src dest offset = kdiverge"
| "node_copy_loop (Suc n) src dest offset = kbind (vop_read src offset 512) (\<lambda>(count, bs).
     if count > 0 then kbind (vop_write dest bs offset (word_of_int count)) (\<lambda>_. node_copy_loop n src dest (offset + 512))
     else kret ())"

definition temp_dest :: "bytes \<Rightarrow> uchar list \<Rightarrow> (kern, uchar list) prog" where
  \<comment> \<open>the string in \<open>temppath[100]\<close> after \<open>strncpy(temppath, destpath, strlen(destpath))\<close>, which copies no zero\<close>
  "temp_dest temp deststr = (let b = over deststr temp in
     if length deststr > 100 \<or> (\<forall>i<100. b i \<noteq> 0) then kpanic ''overflow'' else kret (cstr_upto 100 b))"

definition copy_node :: "uint \<Rightarrow> uchar list \<Rightarrow> nat \<Rightarrow> uint \<Rightarrow> uchar list \<Rightarrow> bytes \<Rightarrow> (kern, bool) prog" where
  \<comment> \<open>what \<open>sys_copy\<close> and \<open>sys_move\<close> share, from the destination path to the copied file; \<open>False\<close> if it cannot be created\<close>
  "copy_node srcpath srcstr srcnode destpath deststr temp =
     kbind (temp_dest temp deststr) (\<lambda>t. kbind (lookup t) (\<lambda>r.
     kbind (case r of None \<Rightarrow> kret 0 | Some d \<Rightarrow> on_fs (vop_gettype d)) (\<lambda>ty.
     kbind (kwhen (r \<noteq> None \<and> ty = T_DIR) (extend_dest srcpath srcstr destpath deststr)) (\<lambda>_.
     kbind (on_fs (vop_getmajor srcnode)) (\<lambda>major. kbind (on_fs (vop_getminor srcnode)) (\<lambda>minor.
     kbind (read_cstr (2 ^ 32) destpath) (\<lambda>path.
     kbind (create path T_FILE major minor) (\<lambda>r. case r of None \<Rightarrow> kret False
     | Some destnode \<Rightarrow> on_fs (kbind (vop_iunlockput destnode) (\<lambda>_. kbind (vop_ilock srcnode) (\<lambda>_.
         kbind (node_copy_loop (2 ^ 24) srcnode destnode 0) (\<lambda>_.
         kbind (vop_iunlock srcnode) (\<lambda>_. kbind (vop_ref_dec srcnode) (\<lambda>_. kret True))))))))))))))"

definition copy_args :: "(kern, ((uint \<times> uchar list) \<times> nat \<times> (uint \<times> uchar list)) option) prog" where
  \<comment> \<open>the paths and the node of the source, if that is a file\<close>
  "copy_args = kbind (argstr 0) (\<lambda>r. case r of None \<Rightarrow> kret None | Some src \<Rightarrow>
     kbind (argstr 1) (\<lambda>r. case r of None \<Rightarrow> kret None | Some dest \<Rightarrow>
     kbind (lookup (snd src)) (\<lambda>r. case r of None \<Rightarrow> kret None | Some srcnode \<Rightarrow>
     kbind (on_fs (vop_gettype srcnode)) (\<lambda>t. kret (if t \<noteq> T_FILE then None else Some (src, srcnode, dest))))))"

definition sys_copy :: "(kern, int) prog" where
  "sys_copy = kbind (on_fs begin_trans) (\<lambda>_. kbind copy_args (\<lambda>r. case r of None \<Rightarrow> commit_fail
     | Some ((srcpath, srcstr), srcnode, (destpath, deststr)) \<Rightarrow>
         kbind (kget stack_junk) (\<lambda>junk.
         kbind (copy_node srcpath srcstr srcnode destpath deststr (memset junk 0 0 100)) (\<lambda>ok.
         if \<not> ok then commit_fail else on_fs (kbind commit_trans (\<lambda>_. kret 0))))))"

definition sys_move :: "(kern, int) prog" where
  "sys_move = kbind (on_fs begin_trans) (\<lambda>_. kbind copy_args (\<lambda>r. case r of None \<Rightarrow> commit_fail
     | Some ((srcpath, srcstr), srcnode, (destpath, deststr)) \<Rightarrow>
         kbind (kget stack_junk) (\<lambda>junk.
         kbind (copy_node srcpath srcstr srcnode destpath deststr junk) (\<lambda>ok.
         if \<not> ok then commit_fail
         else
           kbind (read_cstr (2 ^ 32) srcpath) (\<lambda>path. kbind (lookup_parent path) (\<lambda>(dp, _). case dp of None \<Rightarrow> commit_fail
           | Some dp \<Rightarrow> on_fs (kbind (vop_unlink dp path) (\<lambda>_. kbind commit_trans (\<lambda>_. kret 0)))))))))"

section \<open>Remove\<close>

definition sb_unlink :: "uchar list \<Rightarrow> (kern, int) prog" where
  "sb_unlink path = kbind (lookup_parent path) (\<lambda>(dp, name). case dp of None \<Rightarrow> kret (-1)
     | Some dp \<Rightarrow> kbind (on_fs (vop_unlink dp name)) (\<lambda>r. kret (if r \<noteq> 0 then -1 else 0)))"

definition sb_fstat :: "nat \<Rightarrow> (kern, int) prog" where
  "sb_fstat fd = kbind (curget (\<lambda>x. pr_ofile x fd)) (\<lambda>r. case r of None \<Rightarrow> kret (-1)
     | Some f \<Rightarrow> kbind (filestat f) (\<lambda>(r, _). kret r))"

definition sb_read :: "nat \<Rightarrow> int \<Rightarrow> (kern, int \<times> uchar list) prog" where
  "sb_read fd n = kbind (curget (\<lambda>x. pr_ofile x fd)) (\<lambda>r. case r of None \<Rightarrow> kret (-1, [])
     | Some f \<Rightarrow> as_cur (fileread f n))"

definition dot_name :: "uchar list \<Rightarrow> bool" where
  \<comment> \<open>the name is \<open>.\<close> or \<open>..\<close>\<close>
  "dot_name name \<longleftrightarrow> namecmp (cview name) (cview [46]) = 0 \<or> namecmp (cview name) (cview [46, 46]) = 0"

primrec remove_entries :: "nat \<Rightarrow> bool \<Rightarrow> nat \<Rightarrow> uchar list \<Rightarrow> uchar list \<Rightarrow> (uchar list \<Rightarrow> (kern, int) prog) \<Rightarrow> (kern, unit) prog" where
  \<comment> \<open>the loop over the entries of a directory open as \<open>fd\<close>: each is removed as \<open>base/entry\<close>, and then \<open>self\<close> unlinked.
      \<open>sys_remove\<close> ends the name with a zero, \<open>sb_remove\<close> (\<open>ended\<close> is \<open>False\<close>) reads on behind a name that fills its field\<close>
  "remove_entries 0 ended fd base self rm = kdiverge"
| "remove_entries (Suc n) ended fd base self rm = kbind (sb_read fd 16) (\<lambda>(r, de).
     if r \<noteq> 16 then kret ()
     else let name = cstr_upto DIRSIZ (de_name de) in
       kbind (if de_inum de = 0 \<or> name = [46] \<or> name = [46, 46] then kret 0
              else if length (base @ [47] @ name) \<ge> 512 \<or> \<not> ended \<and> length name = DIRSIZ then kpanic ''overflow''
              else kbind (rm (base @ [47] @ name)) (\<lambda>_. sb_unlink self)) (\<lambda>_.
       remove_entries n ended fd base self rm))"

definition remove_tree :: "bool \<Rightarrow> uchar list \<Rightarrow> uchar list \<Rightarrow> uchar list \<Rightarrow> int \<Rightarrow> (uchar list \<Rightarrow> (kern, int) prog) \<Rightarrow> (kern, bool) prog" where
  \<comment> \<open>a directory that is not empty; \<open>False\<close> is \<open>goto bad\<close>\<close>
  "remove_tree ended path base self fstype rm =
     (if fstype \<noteq> SFS_INODE then kret False
      else kbind (sb_open path 0) (\<lambda>fd. if fd < 0 then kret False
        else kbind (sb_fstat (nat fd)) (\<lambda>r. if r < 0 then kret False
          else kbind (remove_entries (2 ^ 28) ended (nat fd) base self rm) (\<lambda>_. kret True))))"

definition remove_target :: "nat \<Rightarrow> (kern, bool \<times> bool \<times> bool) prog" where
  \<comment> \<open>the locked inode to remove: whether it has links, is a file, is an empty directory\<close>
  "remove_target ip = on_fs (kbind (vop_ilock ip) (\<lambda>_. kbind (vop_getnlink ip) (\<lambda>nl.
     if sint nl < 1 then kret (False, False, False)
     else kbind (vop_gettype ip) (\<lambda>t. if t = T_FILE then kbind (vop_iunlockput ip) (\<lambda>_. kret (True, True, False))
       else kbind (vop_isdirempty ip ip) (\<lambda>e. kbind (vop_iunlockput ip) (\<lambda>_. kret (True, False, e)))))))"

primrec sb_remove :: "nat \<Rightarrow> uchar list \<Rightarrow> (kern, int) prog" where
  \<comment> \<open>the fuel bounds the depth of the recursion, which the kernel stack bounds\<close>
  "sb_remove 0 path = kdiverge"
| "sb_remove (Suc n) path = kbind (lookup_parent path) (\<lambda>(dp, name). case dp of None \<Rightarrow> kret (-1) | Some dp \<Rightarrow>
     if dot_name name then kret (-1)
     else kbind (on_fs (vop_dirlookup dp name)) (\<lambda>r. case r of None \<Rightarrow> kret (-1) | Some ip \<Rightarrow>
       kbind (on_fs (iinfo dp)) (\<lambda>d.
       kbind (remove_target ip) (\<lambda>(linked, isfile, empty).
       if \<not> linked then kret (-1)
       else if isfile then kbind (sb_unlink path) (\<lambda>_. kret (-1))
       else if empty then kbind (sb_unlink path) (\<lambda>_. kret 0)
       else kbind (remove_tree False path path path (i_fstype d) (sb_remove n)) (\<lambda>ok. kret (if ok then 0 else -1))))))"

definition sys_remove :: "(kern, int) prog" where
  "sys_remove = kbind (argstr 0) (\<lambda>r. case r of None \<Rightarrow> kret (-1) | Some (_, path) \<Rightarrow>
     kbind (lookup_parent path) (\<lambda>(dp, name). case dp of None \<Rightarrow> kret (-1) | Some dp \<Rightarrow>
     kbind (on_fs (kbind begin_trans (\<lambda>_. vop_ilock dp))) (\<lambda>_.
     if dot_name name then commit_fail
     else kbind (on_fs (vop_dirlookup dp name)) (\<lambda>r. case r of None \<Rightarrow> commit_fail | Some ip \<Rightarrow>
       kbind (on_fs (iinfo dp)) (\<lambda>d.
       kbind (on_fs (vop_iunlockput dp)) (\<lambda>_.
       kbind (remove_target ip) (\<lambda>(linked, isfile, empty).
       if \<not> linked then commit_fail
       else if isfile then kbind (sb_unlink name) (\<lambda>_. kret (-1))
       else kbind (if empty then kbind (sb_unlink name) (\<lambda>_. kret True)
                   else remove_tree True path name name (i_fstype d) (sb_remove 64)) (\<lambda>ok.
         if ok then on_fs (kbind commit_trans (\<lambda>_. kret 0)) else commit_fail))))))))"

end
