(* ===== verification/Trap.thy ===== *)
theory Trap
  imports Sysfile
begin

text \<open>
  System calls on processes (\<^verbatim>\<open>sysproc.c\<close>), the dispatch of system calls (\<^verbatim>\<open>syscall.c\<close>) and of traps (\<^verbatim>\<open>trap.c\<close>).

  A call ends as \<open>call\<close> says. One that gave up the CPU goes on when its process is switched to again: \<open>wait\<close> and \<open>sleep\<close>
  with another round of their loops. The handlers of the disk, the keyboard and the serial line work on the state of those
  devices; what they do to processes is to call \<open>wakeup\<close>.
\<close>

section \<open>Calls on processes\<close>

definition returns :: "(kern, int) prog \<Rightarrow> (kern, call) prog" where
  "returns m = kbind m (\<lambda>r. kret (Back r))"

definition exit_call :: "(kern, call) prog" where
  "exit_call = kbind kexit (\<lambda>_. kret Exited)"

definition sys_kill :: "(kern, int) prog" where
  "sys_kill = kbind (argint 0) (\<lambda>r. case r of None \<Rightarrow> kret (-1) | Some pid \<Rightarrow> kill (sint pid))"

definition sys_getpid :: "(kern, int) prog" where
  "sys_getpid = curget pr_pid"

definition sys_sbrk :: "(kern, int) prog" where
  "sys_sbrk = kbind (argint 0) (\<lambda>r. case r of None \<Rightarrow> kret (-1)
     | Some n \<Rightarrow> kbind (curget pr_sz) (\<lambda>addr. kbind (growproc (sint n)) (\<lambda>r. kret (if r < 0 then -1 else sint addr))))"

definition sleep_round :: "uint \<Rightarrow> uint \<Rightarrow> (kern, call) prog" where
  \<comment> \<open>one round of the loop; the comparison with \<open>n\<close> is unsigned\<close>
  "sleep_round ticks0 n = kbind (kget ticks) (\<lambda>now.
     if now - ticks0 < n then
       kbind (curget pr_killed) (\<lambda>k. if k then kret (Back (-1)) else kbind (sleep On_ticks) (\<lambda>_. kret Switched))
     else kret (Back 0))"

definition sys_sleep :: "(kern, call) prog" where
  "sys_sleep = kbind (argint 0) (\<lambda>r. case r of None \<Rightarrow> kret (Back (-1))
     | Some n \<Rightarrow> kbind (kget ticks) (\<lambda>ticks0. sleep_round ticks0 n))"

definition sys_uptime :: "(kern, int) prog" where
  "sys_uptime = kbind (kget ticks) (\<lambda>x. kret (sint x))"

definition sys_halt :: "(kern, int) prog" where
  \<comment> \<open>writes to a port of the emulator\<close>
  "sys_halt = kret 0"

section \<open>Dispatch\<close>

definition syscalls :: "int \<Rightarrow> (kern, call) prog option" where
  "syscalls = map_of [(1, returns fork), (2, exit_call), (3, wait), (4, returns sys_pipe), (5, returns sys_read), (6, returns sys_kill),
     (7, returns sys_exec), (8, returns sys_fstat), (9, returns sys_chdir), (10, returns sys_dup), (11, returns sys_getpid), (12, returns sys_sbrk),
     (13, sys_sleep), (14, returns sys_uptime), (15, returns sys_open), (16, returns sys_write), (17, returns sys_mknod), (18, returns sys_unlink),
     (19, returns sys_link), (20, returns sys_mkdir), (21, returns sys_close), (22, returns sys_halt), (23, returns sys_getcwd), (24, returns sys_copy),
     (25, returns sys_move), (26, returns sys_remove), (27, returns sys_rmdir), (28, returns sys_touch), (29, returns sys_find)]"

definition put_result :: "call \<Rightarrow> (kern, call) prog" where
  "put_result r = (case r of
       Back v \<Rightarrow> kbind (curset (\<lambda>x. x\<lparr>pr_tf := (pr_tf x)\<lparr>tf_eax := word_of_int v\<rparr>\<rparr>)) (\<lambda>_. kret r)
     | _ \<Rightarrow> kret r)"

definition syscall :: "(kern, call) prog" where
  "syscall = kbind (curget (\<lambda>x. tf_eax (pr_tf x))) (\<lambda>num. case syscalls (sint num) of
       Some m \<Rightarrow> kbind m put_result
     | None \<Rightarrow> put_result (Back (-1)))"

definition leave_call :: "call \<Rightarrow> (kern, call) prog" where
  \<comment> \<open>back in \<open>trap\<close>\<close>
  "leave_call r = (case r of
       Back _ \<Rightarrow> kbind (curget pr_killed) (\<lambda>k. if k then exit_call else kret r)
     | _ \<Rightarrow> kret r)"

definition trap_syscall :: "trapframe \<Rightarrow> (kern, call) prog" where
  "trap_syscall tf = kbind (curget pr_killed) (\<lambda>k. if k then exit_call
     else kbind (curset (\<lambda>x. x\<lparr>pr_tf := tf\<rparr>)) (\<lambda>_. kbind syscall leave_call))"

definition resumed_call :: "(kern, call) prog \<Rightarrow> (kern, call) prog" where
  \<comment> \<open>a call that gave up the CPU goes on with \<open>m\<close>\<close>
  "resumed_call m = kbind m (\<lambda>r. kbind (put_result r) leave_call)"

definition T_SYSCALL :: uint where "T_SYSCALL = 64"
definition T_TIMER :: uint where "T_TIMER = 32"

definition T_DEVICES :: "uint list" where
  \<comment> \<open>keyboard, serial line, spurious interrupts, disks\<close>
  "T_DEVICES = [33, 36, 39, 63, 46, 47]"

definition timer :: "(kern, unit) prog" where
  "timer = kbind (kget this_cpu) (\<lambda>c. kwhen (c = 0) (kbind (kmod (\<lambda>s. s\<lparr>ticks := ticks s + 1\<rparr>)) (\<lambda>_. wakeup On_ticks)))"

definition in_user :: "trapframe \<Rightarrow> bool" where
  "in_user tf \<longleftrightarrow> tf_cs tf AND 3 = 3"

definition fault :: "trapframe \<Rightarrow> (kern, unit) prog" where
  "fault tf = kbind (kget (\<lambda>s. cpu_proc s (this_cpu s))) (\<lambda>r.
     if r = None \<or> tf_cs tf AND 3 = 0 then kpanic ''trap'' else curset (\<lambda>x. x\<lparr>pr_killed := True\<rparr>))"

definition trap_return :: "trapframe \<Rightarrow> (kern, call) prog" where
  \<comment> \<open>up to \<open>yield\<close>; what follows it is \<open>exit_call\<close> for a process that was killed\<close>
  "trap_return tf = kbind (kget (\<lambda>s. cpu_proc s (this_cpu s))) (\<lambda>r. case r of None \<Rightarrow> kret (Back 0)
     | Some p \<Rightarrow> kbind (pget p id) (\<lambda>x.
         if pr_killed x \<and> in_user tf then exit_call
         else if pr_state x = RUNNING \<and> tf_trapno tf = T_TIMER then kbind yield (\<lambda>_. kret Switched)
         else kret (Back 0)))"

definition trap :: "trapframe \<Rightarrow> (kern, call) prog" where
  "trap tf =
     (if tf_trapno tf = T_SYSCALL then trap_syscall tf
      else kbind (if tf_trapno tf = T_TIMER then timer else if tf_trapno tf \<in> set T_DEVICES then kret () else fault tf) (\<lambda>_.
        trap_return tf))"

end
