(* ===== verification/Proc_Table.thy ===== *)
theory Proc_Table
  imports Proc
begin

text \<open>
  The invariant of the process table and what the functions of \<^verbatim>\<open>proc.c\<close> do to it.

  \<open>table\<close> is what the table says about the processes, without their memory and files. \<open>pt_ok\<close> says of it that process numbers are
  unique, that every CPU runs a process of its own, that every process has a parent that can still wait for it, and that no
  process sleeps in \<open>wait\<close> while one of its children is a zombie. \<open>keeps v\<close> collects the programs that leave a view \<open>v\<close> of the
  state as it is.
\<close>

section \<open>Programs that keep a view of the state\<close>

definition keeps :: "('s \<Rightarrow> 'v) \<Rightarrow> ('s, 'a) prog \<Rightarrow> bool" where
  "keeps v m \<longleftrightarrow> (\<forall>s. wlp m (\<lambda>_ t. v t = v s) s)"

named_theorems keeps_intros \<open>programs that keep a view\<close>

lemma keepsD: "keeps v m \<Longrightarrow> wlp m (\<lambda>_ t. v t = v s) s"
  by (simp add: keeps_def)

lemma keeps_wlp: "keeps v m \<Longrightarrow> (\<And>x t. v t = v s \<Longrightarrow> Q x t) \<Longrightarrow> wlp m Q s"
  by (rule wlp_mono[OF keepsD])

lemma keeps_kret [keeps_intros]: "keeps v (kret x)"
  and keeps_kpanic [keeps_intros]: "keeps v (kpanic e)"
  and keeps_kblock [keeps_intros]: "keeps v kblock"
  and keeps_kdiverge [keeps_intros]: "keeps v kdiverge"
  and keeps_kget [keeps_intros]: "keeps v (kget f)"
  by (simp_all add: keeps_def wp_simps)

lemma keeps_kmod: "(\<And>s. v (f s) = v s) \<Longrightarrow> keeps v (kmod f)"
  by (simp add: keeps_def wp_simps)

lemma keeps_kbind [keeps_intros]:
  assumes "keeps v m" "\<And>x. keeps v (f x)"
  shows "keeps v (kbind m f)"
  unfolding keeps_def
proof
  fix s
  have "wlp (f x) (\<lambda>_ t. v t = v s) s'" if "v s' = v s" for x s'
    using keepsD[OF assms(2)[of x], of s'] that by simp
  then show "wlp (kbind m f) (\<lambda>_ t. v t = v s) s" by (auto simp: wp_simps intro: keeps_wlp[OF assms(1)])
qed

lemma keeps_if [keeps_intros]: "keeps v m \<Longrightarrow> keeps v m' \<Longrightarrow> keeps v (if b then m else m')"
  by simp

lemma keeps_kwhen [keeps_intros]: "keeps v m \<Longrightarrow> keeps v (kwhen b m)"
  by (simp add: kwhen_def keeps_kret)

lemma keeps_option [keeps_intros]: "keeps v m \<Longrightarrow> (\<And>x. keeps v (f x)) \<Longrightarrow> keeps v (case r of None \<Rightarrow> m | Some x \<Rightarrow> f x)"
  by (simp split: option.split)

lemma keeps_prod [keeps_intros]: "(\<And>x y. keeps v (f x y)) \<Longrightarrow> keeps v (case r of (x, y) \<Rightarrow> f x y)"
  by (simp split: prod.split)

lemma keeps_sum [keeps_intros]: "(\<And>x. keeps v (f x)) \<Longrightarrow> (\<And>y. keeps v (g y)) \<Longrightarrow> keeps v (case r of Inl x \<Rightarrow> f x | Inr y \<Rightarrow> g y)"
  by (simp split: sum.split)

lemma keeps_run [keeps_intros]: "(\<And>x y. keeps v (f x y)) \<Longrightarrow> (\<And>y. keeps v (g y)) \<Longrightarrow> keeps v (case r of Returned x y \<Rightarrow> f x y | Slept y \<Rightarrow> g y)"
  by (simp split: run.split)

lemma keeps_Let [keeps_intros]: "(\<And>x. keeps v (f x)) \<Longrightarrow> keeps v (let x = e in f x)"
  by simp

lemma keeps_kfor [keeps_intros]: "(\<And>i. keeps v (f i)) \<Longrightarrow> keeps v (kfor a n f)"
  by (induction n arbitrary: a) (auto intro: keeps_intros)

lemma keeps_kscan [keeps_intros]: "(\<And>i st. keeps v (f i st)) \<Longrightarrow> keeps v (kscan a n f st)"
  by (induction n arbitrary: a st) (auto intro!: keeps_intros)

lemma keeps_zoom: "(\<And>t s. v (put t s) = v s) \<Longrightarrow> keeps v (kzoom get put m)"
  by (auto simp: keeps_def wp_simps intro: wlp_all)

section \<open>The table\<close>

record ptable =
  t_state :: "nat \<Rightarrow> procstate"
  t_pid :: "nat \<Rightarrow> int"
  t_parent :: "nat \<Rightarrow> nat option"
  t_chan :: "nat \<Rightarrow> chan option"
  t_next :: int
  t_init :: nat
  t_cpu :: "nat \<Rightarrow> nat option"
  t_this :: nat

definition table :: "kern \<Rightarrow> ptable" where
  "table s = \<lparr>t_state = \<lambda>p. pr_state (ptab s p), t_pid = \<lambda>p. pr_pid (ptab s p), t_parent = \<lambda>p. pr_parent (ptab s p),
     t_chan = \<lambda>p. pr_chan (ptab s p), t_next = nextpid s, t_init = initproc s, t_cpu = cpu_proc s, t_this = this_cpu s\<rparr>"

lemma table_other [simp]:
  "table (s\<lparr>k_fs := a\<rparr>) = table s" "table (s\<lparr>k_mem := b\<rparr>) = table s" "table (s\<lparr>ftable := c\<rparr>) = table s"
  "table (s\<lparr>pipes := d\<rparr>) = table s" "table (s\<lparr>pipe_wakeups := e\<rparr>) = table s" "table (s\<lparr>p_killed := f\<rparr>) = table s"
  "table (s\<lparr>ticks := g\<rparr>) = table s" "table (s\<lparr>first := h\<rparr>) = table s" "table (s\<lparr>ts_esp0 := i\<rparr>) = table s"
  "table (s\<lparr>stack_junk := j\<rparr>) = table s"
  by (simp_all add: table_def)

lemma table_fields [simp]:
  "t_state (table s) = (\<lambda>p. pr_state (ptab s p))" "t_pid (table s) = (\<lambda>p. pr_pid (ptab s p))"
  "t_parent (table s) = (\<lambda>p. pr_parent (ptab s p))" "t_chan (table s) = (\<lambda>p. pr_chan (ptab s p))"
  "t_next (table s) = nextpid s" "t_init (table s) = initproc s" "t_cpu (table s) = cpu_proc s" "t_this (table s) = this_cpu s"
  by (simp_all add: table_def)

lemma table_ptab:
  "table (s\<lparr>ptab := (ptab s)(p := y)\<rparr>) = \<lparr>t_state = (t_state (table s))(p := pr_state y), t_pid = (t_pid (table s))(p := pr_pid y),
     t_parent = (t_parent (table s))(p := pr_parent y), t_chan = (t_chan (table s))(p := pr_chan y),
     t_next = t_next (table s), t_init = t_init (table s), t_cpu = t_cpu (table s), t_this = t_this (table s)\<rparr>"
  by (auto simp: table_def fun_eq_iff)

lemma table_same [simp]:
  assumes "pr_state y = pr_state (ptab s p)" "pr_pid y = pr_pid (ptab s p)" "pr_parent y = pr_parent (ptab s p)" "pr_chan y = pr_chan (ptab s p)"
  shows "table (s\<lparr>ptab := (ptab s)(p := y)\<rparr>) = table s"
  unfolding table_ptab using assms by (simp add: fun_upd_idem table_def)

text \<open>Assigning to single fields of a process.\<close>

lemma table_set:
  "table (s\<lparr>ptab := (ptab s)(p := (ptab s p)\<lparr>pr_state := st\<rparr>)\<rparr>) = (table s)\<lparr>t_state := (t_state (table s))(p := st)\<rparr>"
  "table (s\<lparr>ptab := (ptab s)(p := (ptab s p)\<lparr>pr_pid := n\<rparr>)\<rparr>) = (table s)\<lparr>t_pid := (t_pid (table s))(p := n)\<rparr>"
  "table (s\<lparr>ptab := (ptab s)(p := (ptab s p)\<lparr>pr_chan := ch\<rparr>)\<rparr>) = (table s)\<lparr>t_chan := (t_chan (table s))(p := ch)\<rparr>"
  "table (s\<lparr>ptab := (ptab s)(p := (ptab s p)\<lparr>pr_parent := par\<rparr>)\<rparr>) = (table s)\<lparr>t_parent := (t_parent (table s))(p := par)\<rparr>"
  "table (s\<lparr>cpu_proc := cp\<rparr>) = (table s)\<lparr>t_cpu := cp\<rparr>" "table (s\<lparr>nextpid := k\<rparr>) = (table s)\<lparr>t_next := k\<rparr>"
  "table (s\<lparr>initproc := i\<rparr>) = (table s)\<lparr>t_init := i\<rparr>" "table (s\<lparr>this_cpu := c\<rparr>) = (table s)\<lparr>t_this := c\<rparr>"
  by (auto simp: table_def fun_eq_iff)

section \<open>The invariant\<close>

definition active :: "procstate \<Rightarrow> bool" where
  "active st \<longleftrightarrow> st = SLEEPING \<or> st = RUNNABLE \<or> st = RUNNING"

definition pids_ok :: "ptable \<Rightarrow> bool" where
  "pids_ok t \<longleftrightarrow> 0 < t_next t \<and> (\<forall>p<NPROC. t_pid t p < t_next t) \<and> (\<forall>p<NPROC. t_state t p \<noteq> UNUSED \<longrightarrow> 0 < t_pid t p) \<and>
     (\<forall>p<NPROC. \<forall>q<NPROC. t_state t p \<noteq> UNUSED \<and> t_state t q \<noteq> UNUSED \<and> t_pid t p = t_pid t q \<longrightarrow> p = q)"

definition cpus_ok :: "ptable \<Rightarrow> bool" where
  "cpus_ok t \<longleftrightarrow> (\<forall>c p. t_cpu t c = Some p \<longrightarrow> p < NPROC \<and> t_state t p = RUNNING) \<and>
     (\<forall>p<NPROC. t_state t p = RUNNING \<longrightarrow> (\<exists>c. t_cpu t c = Some p)) \<and>
     (\<forall>c d p. t_cpu t c = Some p \<and> t_cpu t d = Some p \<longrightarrow> c = d)"

definition family_ok :: "ptable \<Rightarrow> bool" where
  "family_ok t \<longleftrightarrow> t_init t < NPROC \<and> active (t_state t (t_init t)) \<and> t_parent t (t_init t) = None \<and>
     (\<forall>p<NPROC. t_parent t p \<noteq> Some p) \<and>
     (\<forall>p<NPROC. t_state t p = UNUSED \<or> t_state t p = EMBRYO \<longrightarrow> t_parent t p = None) \<and>
     (\<forall>p<NPROC. p \<noteq> t_init t \<and> t_state t p \<noteq> UNUSED \<and> t_state t p \<noteq> EMBRYO \<longrightarrow>
        (\<exists>q<NPROC. t_parent t p = Some q \<and> active (t_state t q)))"

definition waiting :: "ptable \<Rightarrow> nat \<Rightarrow> bool" where
  \<comment> \<open>the process sleeps in \<open>wait\<close>\<close>
  "waiting t q \<longleftrightarrow> t_state t q = SLEEPING \<and> t_chan t q = Some (On_proc q)"

definition waits_ok :: "ptable \<Rightarrow> bool" where
  "waits_ok t \<longleftrightarrow> (\<forall>p<NPROC. \<forall>q<NPROC. t_parent t p = Some q \<and> t_state t p = ZOMBIE \<longrightarrow> \<not> waiting t q)"

definition pt_ok :: "ptable \<Rightarrow> bool" where
  "pt_ok t \<longleftrightarrow> pids_ok t \<and> cpus_ok t \<and> family_ok t \<and> waits_ok t"

text \<open>Waking processes keeps it.\<close>

definition woken :: "ptable \<Rightarrow> ptable \<Rightarrow> bool" where
  "woken t u \<longleftrightarrow> (\<forall>p. t_state u p = t_state t p \<or> t_state t p = SLEEPING \<and> t_state u p = RUNNABLE) \<and>
     u = t\<lparr>t_state := t_state u\<rparr>"

lemma woken_refl [simp]: "woken t t"
  by (simp add: woken_def)

lemma wokenD:
  assumes "woken t u"
  shows "t_pid u = t_pid t" "t_parent u = t_parent t" "t_chan u = t_chan t" "t_next u = t_next t" "t_init u = t_init t"
    "t_cpu u = t_cpu t" "t_this u = t_this t"
    "\<And>p. t_state u p \<noteq> SLEEPING \<and> t_state u p \<noteq> RUNNABLE \<or> t_state t p \<noteq> SLEEPING \<and> t_state t p \<noteq> RUNNABLE \<Longrightarrow> t_state u p = t_state t p"
    "\<And>p. active (t_state u p) = active (t_state t p)" "\<And>p. waiting u p \<Longrightarrow> waiting t p"
proof -
  have u: "u = t\<lparr>t_state := t_state u\<rparr>" and st: "\<And>p. t_state u p = t_state t p \<or> t_state t p = SLEEPING \<and> t_state u p = RUNNABLE"
    using assms by (auto simp: woken_def)
  show f: "t_pid u = t_pid t" "t_parent u = t_parent t" "t_chan u = t_chan t" "t_next u = t_next t" "t_init u = t_init t"
    "t_cpu u = t_cpu t" "t_this u = t_this t"
    by (subst u, simp)+
  show "t_state u p \<noteq> SLEEPING \<and> t_state u p \<noteq> RUNNABLE \<or> t_state t p \<noteq> SLEEPING \<and> t_state t p \<noteq> RUNNABLE \<Longrightarrow> t_state u p = t_state t p" for p
    using st[of p] by auto
  show "active (t_state u p) = active (t_state t p)" for p using st[of p] by (auto simp: active_def)
  show "waiting u p \<Longrightarrow> waiting t p" for p using st[of p] f by (auto simp: waiting_def)
qed

lemma woken_trans:
  assumes "woken t u" "woken u w"
  shows "woken t w"
proof -
  have "t_state w p = t_state t p \<or> t_state t p = SLEEPING \<and> t_state w p = RUNNABLE" for p
  proof -
    have "t_state u p = t_state t p \<or> t_state t p = SLEEPING \<and> t_state u p = RUNNABLE"
      "t_state w p = t_state u p \<or> t_state u p = SLEEPING \<and> t_state w p = RUNNABLE"
      using assms by (simp_all add: woken_def)
    then show ?thesis by auto
  qed
  moreover have "w = t\<lparr>t_state := t_state w\<rparr>"
    by (rule ptable.equality) (simp_all add: wokenD[OF assms(1)] wokenD[OF assms(2)])
  ultimately show ?thesis unfolding woken_def by blast
qed

lemma woken_states:
  assumes "woken t u"
  shows "t_state u p = UNUSED \<longleftrightarrow> t_state t p = UNUSED" "t_state u p = EMBRYO \<longleftrightarrow> t_state t p = EMBRYO"
    "t_state u p = RUNNING \<longleftrightarrow> t_state t p = RUNNING" "t_state u p = ZOMBIE \<longleftrightarrow> t_state t p = ZOMBIE"
proof -
  have "t_state u p = t_state t p \<or> t_state t p = SLEEPING \<and> t_state u p = RUNNABLE" using assms by (simp add: woken_def)
  then show "t_state u p = UNUSED \<longleftrightarrow> t_state t p = UNUSED" "t_state u p = EMBRYO \<longleftrightarrow> t_state t p = EMBRYO"
    "t_state u p = RUNNING \<longleftrightarrow> t_state t p = RUNNING" "t_state u p = ZOMBIE \<longleftrightarrow> t_state t p = ZOMBIE" by auto
qed

lemma pt_ok_woken:
  assumes "pt_ok t" "woken t u"
  shows "pt_ok u"
proof -
  note w = wokenD(1-7,9)[OF assms(2)] woken_states[OF assms(2)]
  have "pids_ok u" using assms(1) by (simp add: pt_ok_def pids_ok_def w)
  moreover have "cpus_ok u" using assms(1) by (simp add: pt_ok_def cpus_ok_def w)
  moreover have "family_ok u" using assms(1) by (simp add: pt_ok_def family_ok_def w)
  moreover have "waits_ok u" using assms(1) wokenD(10)[OF assms(2)] unfolding pt_ok_def waits_ok_def w by blast
  ultimately show ?thesis by (simp add: pt_ok_def)
qed

section \<open>Transitions of the table\<close>

lemma pt_okD:
  assumes "pt_ok t"
  shows "\<And>c p. t_cpu t c = Some p \<Longrightarrow> p < NPROC \<and> t_state t p = RUNNING"
    "\<And>p. p < NPROC \<Longrightarrow> t_state t p = RUNNING \<Longrightarrow> \<exists>c. t_cpu t c = Some p"
    "\<And>c d p. t_cpu t c = Some p \<Longrightarrow> t_cpu t d = Some p \<Longrightarrow> c = d"
  using assms by (auto simp: pt_ok_def cpus_ok_def)

lemma family_okI:
  assumes "family_ok t" "t_init u = t_init t" "\<And>p. active (t_state t p) \<Longrightarrow> active (t_state u p)"
    and "\<And>p. p < NPROC \<Longrightarrow> t_state u p = UNUSED \<or> t_state u p = EMBRYO \<Longrightarrow> t_parent u p = None"
    and "\<And>p. p < NPROC \<Longrightarrow> p \<noteq> t_init t \<Longrightarrow> t_state u p \<noteq> UNUSED \<Longrightarrow> t_state u p \<noteq> EMBRYO \<Longrightarrow>
      t_state t p \<noteq> UNUSED \<and> t_state t p \<noteq> EMBRYO \<and> t_parent u p = t_parent t p \<or> (\<exists>q<NPROC. t_parent u p = Some q \<and> active (t_state u q))"
    and "\<And>p. p < NPROC \<Longrightarrow> t_parent u p = t_parent t p \<or> t_parent u p \<noteq> Some p" "t_parent u (t_init t) = None"
  shows "family_ok u"
  unfolding family_ok_def
proof (intro conjI allI impI)
  show "t_init u < NPROC" "active (t_state u (t_init u))" "t_parent u (t_init u) = None" using assms(1-3,7) by (auto simp: family_ok_def)
next
  fix p assume "p < NPROC" then show "t_parent u p \<noteq> Some p" using assms(1) assms(6)[of p] by (auto simp: family_ok_def)
next
  fix p assume p: "p < NPROC" and n: "p \<noteq> t_init u \<and> t_state u p \<noteq> UNUSED \<and> t_state u p \<noteq> EMBRYO"
  consider "t_state t p \<noteq> UNUSED" "t_state t p \<noteq> EMBRYO" "t_parent u p = t_parent t p"
    | "\<exists>q<NPROC. t_parent u p = Some q \<and> active (t_state u q)"
    using assms(5)[OF p] n assms(2) by auto
  then show "\<exists>q<NPROC. t_parent u p = Some q \<and> active (t_state u q)"
  proof cases
    case 1
    then obtain q where "q < NPROC" "t_parent t p = Some q" "active (t_state t q)"
      using assms(1) p n assms(2) unfolding family_ok_def by metis
    then show ?thesis using 1 assms(3) by auto
  qed
qed (use assms(4) in auto)

lemma family_okD:
  assumes "family_ok t"
  shows "p < NPROC \<Longrightarrow> t_state t p = UNUSED \<or> t_state t p = EMBRYO \<Longrightarrow> t_parent t p = None"
    "t_init t < NPROC" "active (t_state t (t_init t))" "t_parent t (t_init t) = None"
  using assms by (auto simp: family_ok_def)

lemma pids_okI:
  assumes "pids_ok t" "t_next u = t_next t" "\<And>q. q < NPROC \<Longrightarrow> t_pid u q = t_pid t q \<or> t_pid u q = 0"
    and "\<And>q. q < NPROC \<Longrightarrow> t_state u q \<noteq> UNUSED \<Longrightarrow> t_state t q \<noteq> UNUSED \<and> t_pid u q = t_pid t q"
  shows "pids_ok u"
  unfolding pids_ok_def
proof (intro conjI allI impI, goal_cases)
  case 1 then show ?case using assms(1,2) by (simp add: pids_ok_def)
next
  case (2 q) then show ?case using assms(1,2) assms(3)[OF 2] by (auto simp: pids_ok_def)
next
  case (3 q) then show ?case using assms(1) assms(4)[OF 3] by (simp add: pids_ok_def)
next
  case (4 a b) then show ?case using assms(1) assms(4)[of a] assms(4)[of b] by (simp add: pids_ok_def)
qed

lemma cpus_ok_leave:
  assumes ok: "pt_ok t" and c: "t_cpu t c = Some p" and X: "X \<noteq> RUNNING"
    and u: "t_cpu u = (t_cpu t)(c := None)" "t_state u = (t_state t)(p := X)"
  shows "cpus_ok u"
  unfolding cpus_ok_def
proof (intro conjI allI impI)
  fix d q assume d: "t_cpu u d = Some q"
  then have "d \<noteq> c" "t_cpu t d = Some q" by (auto simp: u split: if_splits)
  moreover from this have "q \<noteq> p" using pt_okD(3)[OF ok, of d q c] c by auto
  ultimately show "q < NPROC" "t_state u q = RUNNING" using pt_okD(1)[OF ok, of d q] by (auto simp: u)
next
  fix q assume "q < NPROC" "t_state u q = RUNNING"
  then have "q \<noteq> p" "t_state t q = RUNNING" using X by (auto simp: u split: if_splits)
  then obtain d where "t_cpu t d = Some q" using pt_okD(2)[OF ok, of q] \<open>q < NPROC\<close> by auto
  then show "\<exists>d. t_cpu u d = Some q" using c \<open>q \<noteq> p\<close> by (intro exI[of _ d]) (auto simp: u)
next
  fix d e q assume "t_cpu u d = Some q \<and> t_cpu u e = Some q"
  then show "d = e" using pt_okD(3)[OF ok] by (auto simp: u split: if_splits)
qed

lemma pt_ok_leave:
  \<comment> \<open>a running process gives up its CPU\<close>
  assumes ok: "pt_ok t" and c: "t_cpu t c = Some p" and X: "X = RUNNABLE \<or> X = SLEEPING"
    and w: "X = SLEEPING \<Longrightarrow> ch = Some (On_proc p) \<Longrightarrow> \<forall>q<NPROC. t_parent t q = Some p \<longrightarrow> t_state t q \<noteq> ZOMBIE"
  shows "pt_ok (t\<lparr>t_state := (t_state t)(p := X), t_chan := (t_chan t)(p := ch), t_cpu := (t_cpu t)(c := None)\<rparr>)" (is "pt_ok ?u")
proof -
  have fam: "family_ok t" using ok by (simp add: pt_ok_def)
  have p: "p < NPROC" "t_state t p = RUNNING" using pt_okD(1)[OF ok c] by auto
  have "pids_ok ?u" by (rule pids_okI[of t]) (use ok p X in \<open>auto simp: pt_ok_def split: if_splits\<close>)
  moreover have "cpus_ok ?u"
    by (rule cpus_ok_leave[OF ok c]) (use X in auto)
  moreover have a: "active X" "active (t_state t p)" using X p by (auto simp: active_def)
  have "family_ok ?u"
  proof (rule family_okI[OF fam], goal_cases)
    case (2 q) then show ?case using p X a by (cases "q = p") simp_all
  next
    case (3 q) then show ?case using p X a family_okD(1)[OF fam, of q] by (cases "q = p") auto
  next
    case (4 q) then show ?case using p X a by (cases "q = p") auto
  qed (use family_okD(2-4)[OF fam] p in \<open>auto simp: active_def\<close>)
  moreover have "waits_ok ?u" using ok p X w unfolding pt_ok_def waits_ok_def waiting_def by auto
  ultimately show ?thesis by (simp add: pt_ok_def)
qed

lemma pt_ok_yield:
  assumes "pt_ok t" "t_cpu t c = Some p"
  shows "pt_ok (t\<lparr>t_state := (t_state t)(p := RUNNABLE), t_cpu := (t_cpu t)(c := None)\<rparr>)"
  using pt_ok_leave[OF assms, of RUNNABLE "t_chan t p"] by simp

lemma pt_ok_run:
  \<comment> \<open>an idle CPU takes a process\<close>
  assumes ok: "pt_ok t" and c: "t_cpu t c = None" and p: "p < NPROC" "t_state t p = RUNNABLE"
  shows "pt_ok (t\<lparr>t_state := (t_state t)(p := RUNNING), t_chan := (t_chan t)(p := ch), t_cpu := (t_cpu t)(c := Some p)\<rparr>)" (is "pt_ok ?u")
proof -
  have fam: "family_ok t" using ok by (simp add: pt_ok_def)
  have "pids_ok ?u" by (rule pids_okI[of t]) (use ok p in \<open>auto simp: pt_ok_def split: if_splits\<close>)
  moreover have "cpus_ok ?u"
    unfolding cpus_ok_def
  proof (intro conjI allI impI)
    fix d q assume "t_cpu ?u d = Some q"
    then show "q < NPROC" "t_state ?u q = RUNNING" using pt_okD(1)[OF ok, of d q] p by (auto split: if_splits)
  next
    fix q assume "q < NPROC" "t_state ?u q = RUNNING"
    then show "\<exists>d. t_cpu ?u d = Some q"
    proof (cases "q = p")
      case False
      then obtain d where "t_cpu t d = Some q" using pt_okD(2)[OF ok, of q] \<open>q < NPROC\<close> \<open>t_state ?u q = RUNNING\<close> by auto
      then show ?thesis using c by (intro exI[of _ d]) auto
    qed auto
  next
    fix d e q assume "t_cpu ?u d = Some q \<and> t_cpu ?u e = Some q"
    then show "d = e" using pt_okD(1,3)[OF ok] p by (auto split: if_splits)
  qed
  moreover have a: "active (t_state t p)" "active RUNNING" using p by (auto simp: active_def)
  have "family_ok ?u"
  proof (rule family_okI[OF fam], goal_cases)
    case (2 q) then show ?case using p by (cases "q = p") (simp_all add: active_def)
  next
    case (3 q) then show ?case using p family_okD(1)[OF fam, of q] by (cases "q = p") auto
  next
    case (4 q) then show ?case using p by (cases "q = p") auto
  qed (use family_okD(2-4)[OF fam] p in \<open>auto simp: active_def\<close>)
  moreover have "waits_ok ?u" using ok p unfolding pt_ok_def waits_ok_def waiting_def by auto
  ultimately show ?thesis by (simp add: pt_ok_def)
qed

lemma cpus_ok_same:
  assumes "cpus_ok t" "t_cpu u = t_cpu t" "\<And>p. p < NPROC \<Longrightarrow> t_state u p = RUNNING \<longleftrightarrow> t_state t p = RUNNING"
  shows "cpus_ok u"
  using assms unfolding cpus_ok_def by (metis (no_types, lifting))

lemma pt_ok_alloc:
  assumes ok: "pt_ok t" and p: "p < NPROC" "t_state t p = UNUSED"
  shows "pt_ok (t\<lparr>t_state := (t_state t)(p := EMBRYO), t_pid := (t_pid t)(p := t_next t), t_next := t_next t + 1\<rparr>)" (is "pt_ok ?u")
proof -
  have fam: "family_ok t" using ok by (simp add: pt_ok_def)
  have lt: "t_pid t q < t_next t" if "q < NPROC" for q using ok that by (simp add: pt_ok_def pids_ok_def)
  have pos: "0 < t_next t" "\<And>q. q < NPROC \<Longrightarrow> t_state t q \<noteq> UNUSED \<Longrightarrow> 0 < t_pid t q" using ok by (simp_all add: pt_ok_def pids_ok_def)
  have inj: "a = b" if "a < NPROC" "b < NPROC" "t_state t a \<noteq> UNUSED" "t_state t b \<noteq> UNUSED" "t_pid t a = t_pid t b" for a b
    using ok that by (simp add: pt_ok_def pids_ok_def)
  have "pids_ok ?u"
    unfolding pids_ok_def
  proof (intro conjI allI impI, goal_cases)
    case (2 q) then show ?case using lt[of q] by (cases "q = p") simp_all
  next
    case (3 q) then show ?case using pos(1) pos(2)[of q] by (cases "q = p") simp_all
  next
    case (4 a b) then show ?case using lt[of a] lt[of b] inj[of a b] by (cases "a = p"; cases "b = p") simp_all
  qed (use pos(1) in simp)
  moreover have "cpus_ok ?u" by (rule cpus_ok_same[of t]) (use ok p in \<open>auto simp: pt_ok_def\<close>)
  moreover have "family_ok ?u"
  proof (rule family_okI[OF fam], goal_cases)
    case (2 q) then show ?case using p by (cases "q = p") (simp_all add: active_def)
  next
    case (3 q) then show ?case using p family_okD(1)[OF fam, of q] by (cases "q = p") auto
  next
    case (4 q) then show ?case using p by (cases "q = p") auto
  qed (use family_okD(2-4)[OF fam] p in \<open>auto simp: active_def\<close>)
  moreover have "waits_ok ?u" using ok p unfolding pt_ok_def waits_ok_def waiting_def by auto
  ultimately show ?thesis by (simp add: pt_ok_def)
qed

lemma pt_ok_unalloc:
  assumes ok: "pt_ok t" and p: "p < NPROC" "t_state t p = EMBRYO"
  shows "pt_ok (t\<lparr>t_state := (t_state t)(p := UNUSED)\<rparr>)" (is "pt_ok ?u")
proof -
  have fam: "family_ok t" using ok by (simp add: pt_ok_def)
  have "pids_ok ?u" by (rule pids_okI[of t]) (use ok p in \<open>auto simp: pt_ok_def split: if_splits\<close>)
  moreover have "cpus_ok ?u" by (rule cpus_ok_same[of t]) (use ok p in \<open>auto simp: pt_ok_def\<close>)
  moreover have "family_ok ?u"
  proof (rule family_okI[OF fam], goal_cases)
    case (2 q) then show ?case using p by (cases "q = p") (simp_all add: active_def)
  next
    case (3 q) then show ?case using p family_okD(1)[OF fam, of q] by (cases "q = p") auto
  next
    case (4 q) then show ?case using p by (cases "q = p") auto
  qed (use family_okD(2-4)[OF fam] p in \<open>auto simp: active_def\<close>)
  moreover have "waits_ok ?u" using ok p unfolding pt_ok_def waits_ok_def waiting_def by auto
  ultimately show ?thesis by (simp add: pt_ok_def)
qed

lemma pt_ok_birth:
  assumes ok: "pt_ok t" and np: "np < NPROC" "t_state t np = EMBRYO" and p: "p < NPROC" "active (t_state t p)"
  shows "pt_ok (t\<lparr>t_state := (t_state t)(np := RUNNABLE), t_parent := (t_parent t)(np := Some p)\<rparr>)" (is "pt_ok ?u")
proof -
  have fam: "family_ok t" using ok by (simp add: pt_ok_def)
  have "np \<noteq> p" using np p by (auto simp: active_def)
  have "pids_ok ?u" by (rule pids_okI[of t]) (use ok np in \<open>auto simp: pt_ok_def split: if_splits\<close>)
  moreover have "cpus_ok ?u" by (rule cpus_ok_same[of t]) (use ok np in \<open>auto simp: pt_ok_def\<close>)
  moreover have "family_ok ?u"
  proof (rule family_okI[OF fam], goal_cases)
    case (2 q) then show ?case using np p \<open>np \<noteq> p\<close> by (cases "q = np") (simp_all add: active_def)
  next
    case (3 q) then show ?case using np p \<open>np \<noteq> p\<close> family_okD(1)[OF fam, of q] by (cases "q = np") auto
  next
    case (4 q) then show ?case using np p \<open>np \<noteq> p\<close> by (cases "q = np") auto
  qed (use family_okD(2-4)[OF fam] p np \<open>np \<noteq> p\<close> in \<open>auto simp: active_def\<close>)
  moreover have "waits_ok ?u" using ok np unfolding pt_ok_def waits_ok_def waiting_def by auto
  ultimately show ?thesis by (simp add: pt_ok_def)
qed

lemma pt_ok_reap:
  assumes ok: "pt_ok t" and p: "p < NPROC" "t_state t p = ZOMBIE"
  shows "pt_ok (t\<lparr>t_state := (t_state t)(p := UNUSED), t_pid := (t_pid t)(p := 0), t_parent := (t_parent t)(p := None)\<rparr>)" (is "pt_ok ?u")
proof -
  have fam: "family_ok t" using ok by (simp add: pt_ok_def)
  have "pids_ok ?u" by (rule pids_okI[of t]) (use ok p in \<open>auto simp: pt_ok_def split: if_splits\<close>)
  moreover have "cpus_ok ?u" by (rule cpus_ok_same[of t]) (use ok p in \<open>auto simp: pt_ok_def\<close>)
  moreover have "family_ok ?u"
  proof (rule family_okI[OF fam], goal_cases)
    case (2 q) then show ?case using p by (cases "q = p") (simp_all add: active_def)
  next
    case (3 q) then show ?case using p family_okD(1)[OF fam, of q] by (cases "q = p") auto
  next
    case (4 q) then show ?case using p by (cases "q = p") auto
  qed (use family_okD(2-4)[OF fam] p in \<open>auto simp: active_def\<close>)
  moreover have "waits_ok ?u" using ok p unfolding pt_ok_def waits_ok_def waiting_def by auto
  ultimately show ?thesis by (simp add: pt_ok_def)
qed

lemma pt_ok_exit:
  \<comment> \<open>the children go to the first process, and the process is a zombie\<close>
  assumes ok: "pt_ok t" and c: "t_cpu t c = Some p" and p: "p \<noteq> t_init t"
    and w: "\<And>q. t_parent t p = Some q \<Longrightarrow> \<not> waiting t q"
    and z: "\<And>q. q < NPROC \<Longrightarrow> t_parent t q = Some p \<Longrightarrow> t_state t q = ZOMBIE \<Longrightarrow> \<not> waiting t (t_init t)"
  shows "pt_ok (t\<lparr>t_parent := \<lambda>q. if q < NPROC \<and> t_parent t q = Some p then Some (t_init t) else t_parent t q,
    t_state := (t_state t)(p := ZOMBIE), t_cpu := (t_cpu t)(c := None)\<rparr>)" (is "pt_ok ?u")
proof -
  have fam: "family_ok t" and wo: "waits_ok t" using ok by (simp_all add: pt_ok_def)
  have pN: "p < NPROC" "t_state t p = RUNNING" using pt_okD(1)[OF ok c] by auto
  have self: "t_parent t p \<noteq> Some p" using fam pN by (simp add: family_ok_def)
  have "pids_ok ?u" by (rule pids_okI[of t]) (use ok pN in \<open>auto simp: pt_ok_def split: if_splits\<close>)
  moreover have "cpus_ok ?u"
    by (rule cpus_ok_leave[OF ok c]) auto
  moreover have "family_ok ?u"
    unfolding family_ok_def
  proof (intro conjI allI impI)
    fix q assume q: "q < NPROC" and n: "q \<noteq> t_init ?u \<and> t_state ?u q \<noteq> UNUSED \<and> t_state ?u q \<noteq> EMBRYO"
    then have "t_state t q \<noteq> UNUSED \<and> t_state t q \<noteq> EMBRYO" using pN by (auto split: if_splits)
    then obtain r where r: "r < NPROC" "t_parent t q = Some r" "active (t_state t r)"
      using fam q n unfolding family_ok_def by auto
    show "\<exists>r<NPROC. t_parent ?u q = Some r \<and> active (t_state ?u r)"
      using r q family_okD(2,3)[OF fam] p by (cases "r = p") auto
  next
    fix q assume "q < NPROC" "t_state ?u q = UNUSED \<or> t_state ?u q = EMBRYO"
    then show "t_parent ?u q = None" using family_okD(1)[OF fam, of q] by (auto split: if_splits)
  next
    fix q assume "q < NPROC"
    then show "t_parent ?u q \<noteq> Some q" using fam family_okD(4)[OF fam] by (auto simp: family_ok_def)
  qed (use family_okD(2-4)[OF fam] p in auto)
  moreover have "waits_ok ?u"
    unfolding waits_ok_def
  proof (intro allI impI)
    fix q r assume q: "q < NPROC" "r < NPROC" and z': "t_parent ?u q = Some r \<and> t_state ?u q = ZOMBIE"
    show "\<not> waiting ?u r"
    proof (cases "q = p")
      case True
      then show ?thesis using w[of r] z' self by (auto simp: waiting_def)
    next
      case False
      then have zq: "t_state t q = ZOMBIE" using z' by simp
      show ?thesis
      proof (cases "t_parent t q = Some p")
        case True
        then show ?thesis using z[OF q(1) True zq] z' q by (auto simp: waiting_def)
      next
        case f: False
        then have "t_parent t q = Some r" using z' by simp
        then have "\<not> waiting t r" using wo q zq by (auto simp: waits_ok_def)
        then show ?thesis by (auto simp: waiting_def)
      qed
    qed
  qed
  ultimately show ?thesis by (simp add: pt_ok_def)
qed

text \<open>
  The state machine of the processes: \<open>tstep\<close>, and \<open>texit\<close> for the exit of a process. \<open>abandon_all\<close> is what an exiting process does to the table before it is a zombie: it wakes
  processes, among them its parent, passes its children to the first process, and wakes that if one of them is a zombie.
\<close>

definition abandon_all :: "ptable \<Rightarrow> nat \<Rightarrow> ptable \<Rightarrow> bool" where
  "abandon_all t p u \<longleftrightarrow> (\<exists>v. woken t v \<and>
     u = v\<lparr>t_parent := \<lambda>q. if q < NPROC \<and> t_parent t q = Some p then Some (t_init t) else t_parent t q\<rparr> \<and>
     (\<forall>q. t_parent t p = Some q \<longrightarrow> \<not> waiting v q) \<and>
     (\<forall>q<NPROC. t_parent t q = Some p \<and> t_state t q = ZOMBIE \<longrightarrow> \<not> waiting v (t_init t)))"

inductive tstep :: "ptable \<Rightarrow> ptable \<Rightarrow> bool" where
  yields: "t_cpu t c = Some p \<Longrightarrow> tstep t (t\<lparr>t_state := (t_state t)(p := RUNNABLE), t_cpu := (t_cpu t)(c := None)\<rparr>)"
| sleeps: "t_cpu t c = Some p \<Longrightarrow> (ch = On_proc p \<Longrightarrow> \<forall>q<NPROC. t_parent t q = Some p \<longrightarrow> t_state t q \<noteq> ZOMBIE) \<Longrightarrow>
    tstep t (t\<lparr>t_state := (t_state t)(p := SLEEPING), t_chan := (t_chan t)(p := Some ch), t_cpu := (t_cpu t)(c := None)\<rparr>)"
| runs: "t_cpu t c = None \<Longrightarrow> p < NPROC \<Longrightarrow> t_state t p = RUNNABLE \<Longrightarrow>
    tstep t (t\<lparr>t_state := (t_state t)(p := RUNNING), t_chan := (t_chan t)(p := ch), t_cpu := (t_cpu t)(c := Some p)\<rparr>)"
| wakes: "woken t u \<Longrightarrow> tstep t u"
| allocates: "p < NPROC \<Longrightarrow> t_state t p = UNUSED \<Longrightarrow>
    tstep t (t\<lparr>t_state := (t_state t)(p := EMBRYO), t_pid := (t_pid t)(p := t_next t), t_next := t_next t + 1\<rparr>)"
| gives_up: "p < NPROC \<Longrightarrow> t_state t p = EMBRYO \<Longrightarrow> tstep t (t\<lparr>t_state := (t_state t)(p := UNUSED)\<rparr>)"
| forks: "np < NPROC \<Longrightarrow> t_state t np = EMBRYO \<Longrightarrow> t_cpu t c = Some p \<Longrightarrow>
    tstep t (t\<lparr>t_state := (t_state t)(np := RUNNABLE), t_parent := (t_parent t)(np := Some p)\<rparr>)"
| reaps: "p < NPROC \<Longrightarrow> t_state t p = ZOMBIE \<Longrightarrow>
    tstep t (t\<lparr>t_state := (t_state t)(p := UNUSED), t_pid := (t_pid t)(p := 0), t_parent := (t_parent t)(p := None)\<rparr>)"

inductive texit :: "ptable \<Rightarrow> ptable \<Rightarrow> bool" where
  exits: "t_cpu t (t_this t) = Some p \<Longrightarrow> p \<noteq> t_init t \<Longrightarrow> abandon_all t p u \<Longrightarrow>
    texit t (u\<lparr>t_state := (t_state u)(p := ZOMBIE), t_cpu := (t_cpu u)(t_this t := None)\<rparr>)"

lemma pt_ok_abandon:
  assumes ok: "pt_ok t" and c: "t_cpu t c = Some p" and p: "p \<noteq> t_init t" and a: "abandon_all t p u"
  shows "pt_ok (u\<lparr>t_state := (t_state u)(p := ZOMBIE), t_cpu := (t_cpu u)(c := None)\<rparr>)"
proof -
  obtain v where v: "woken t v" "u = v\<lparr>t_parent := \<lambda>q. if q < NPROC \<and> t_parent t q = Some p then Some (t_init t) else t_parent t q\<rparr>"
    "\<forall>q. t_parent t p = Some q \<longrightarrow> \<not> waiting v q" "\<forall>q<NPROC. t_parent t q = Some p \<and> t_state t q = ZOMBIE \<longrightarrow> \<not> waiting v (t_init t)"
    using a by (auto simp: abandon_all_def)
  note f = wokenD(1-7)[OF v(1)]
  have "pt_ok (v\<lparr>t_parent := \<lambda>q. if q < NPROC \<and> t_parent v q = Some p then Some (t_init v) else t_parent v q,
    t_state := (t_state v)(p := ZOMBIE), t_cpu := (t_cpu v)(c := None)\<rparr>)"
    by (rule pt_ok_exit[OF pt_ok_woken[OF ok v(1)]]) (use c p v(3,4) f woken_states(4)[OF v(1)] in auto)
  then show ?thesis using v(2) f by (simp cong: if_cong)
qed

lemma pt_ok_step: "tstep t u \<Longrightarrow> pt_ok t \<Longrightarrow> pt_ok u"
proof (induction rule: tstep.induct)
  case (sleeps t c p ch)
  then show ?case by (intro pt_ok_leave) auto
next
  case (forks np t c p)
  then show ?case using pt_okD(1)[of t c p] by (intro pt_ok_birth) (auto simp: active_def)
qed (auto intro: pt_ok_yield pt_ok_run pt_ok_woken pt_ok_alloc pt_ok_unalloc pt_ok_reap)

lemma pt_ok_steps: "tstep\<^sup>*\<^sup>* t u \<Longrightarrow> pt_ok t \<Longrightarrow> pt_ok u"
  by (induction rule: rtranclp_induct) (auto intro: pt_ok_step)

lemma pt_ok_texit: "texit t u \<Longrightarrow> pt_ok t \<Longrightarrow> pt_ok u"
  by (auto elim!: texit.cases intro: pt_ok_abandon)

text \<open>Only an exit leaves a process behind that will not run again.\<close>

definition idle :: "ptable \<Rightarrow> nat \<Rightarrow> bool" where
  "idle t p \<longleftrightarrow> t_state t p = UNUSED \<or> t_state t p = EMBRYO \<or> t_state t p = ZOMBIE"

lemma idle_step: "tstep t u \<Longrightarrow> idle u p \<Longrightarrow> idle t p"
  by (induction rule: tstep.induct) (auto simp: idle_def woken_states split: if_splits)

lemma idle_steps: "tstep\<^sup>*\<^sup>* t u \<Longrightarrow> idle u p \<Longrightarrow> idle t p"
  by (induction rule: rtranclp_induct) (auto intro: idle_step)

lemma idle_texit: "texit t u \<Longrightarrow> idle u p \<Longrightarrow> idle t p \<or> t_cpu t (t_this t) = Some p"
  by (induction rule: texit.induct) (auto simp: idle_def abandon_all_def woken_states split: if_splits)

section \<open>Functions that do not touch the table\<close>

lemma keeps_table_on [keeps_intros]: "keeps table (on_fs m)" "keeps table (on_mem m')"
  by (simp_all add: on_fs_def on_mem_def keeps_zoom)

lemma keeps_table_pset [keeps_intros]:
  assumes "\<And>x. pr_state (f x) = pr_state x" "\<And>x. pr_pid (f x) = pr_pid x" "\<And>x. pr_parent (f x) = pr_parent x" "\<And>x. pr_chan (f x) = pr_chan x"
  shows "keeps table (pset p f)"
  using assms by (auto simp: pset_def intro: keeps_kmod)

lemma keeps_reads [keeps_intros]:
  "keeps v (pget p f)" "keeps v cur" "keeps v (curget f)" "keeps v (nonnull r)" "keeps v (finfo f')"
  by (auto simp: pget_def cur_def curget_def nonnull_def finfo_def intro!: keeps_intros)

lemma keeps_table_as_cur [keeps_intros]: "keeps table m \<Longrightarrow> keeps table (as_cur m)"
  unfolding as_cur_def by (intro keeps_intros keeps_kmod) auto

lemma keeps_table_switchuvm [keeps_intros]: "keeps table (switchuvm p)"
  unfolding switchuvm_def by (intro keeps_intros keeps_kmod) auto

lemma keeps_table_forkret [keeps_intros]: "keeps table forkret"
  unfolding forkret_def by (intro keeps_intros keeps_kmod) auto

lemma keeps_table_files [keeps_intros]:
  "keeps table (fset f g)" "keeps table (set_pipe p x)" "keeps table (wake_pipe p cs)"
  by (auto simp: fset_def set_pipe_def wake_pipe_def intro: keeps_kmod)

lemma keeps_table_file_ops [keeps_intros]: "keeps table filealloc" "keeps table (filedup f)" "keeps table (fileclose f)"
  unfolding filealloc_def filedup_def fileclose_def file_pipeclose_def by (intro keeps_intros)+

section \<open>Scheduling\<close>

lemma wlp_cur: "wlp cur Q s \<longleftrightarrow> (\<forall>p. cpu_proc s (this_cpu s) = Some p \<longrightarrow> Q p s)"
  by (auto simp: cur_def wp_simps split: option.split)

lemma wlp_pget [wp_simps]: "wlp (pget p f) Q s = Q (f (ptab s p)) s"
  by (simp add: pget_def wp_simps)

lemma wlp_pset [wp_simps]: "wlp (pset p g) Q s = Q () (s\<lparr>ptab := (ptab s)(p := g (ptab s p))\<rparr>)"
  by (simp add: pset_def wp_simps)

lemma wlp_nonnull: "wlp (nonnull r) Q s \<longleftrightarrow> (\<forall>x. r = Some x \<longrightarrow> Q x s)"
  by (auto simp: nonnull_def wp_simps split: option.split)

lemma sched_table: "wlp (sched c) (\<lambda>_ t. table t = (table s)\<lparr>t_cpu := (cpu_proc s)(this_cpu s := None)\<rparr>) s"
  by (simp add: sched_def wp_simps wlp_cur on_mem_def switchkvm_def table_set)

end
