(* ===== verification/Proc_Inv.thy ===== *)
theory Proc_Inv
  imports Proc_Table
begin

text \<open>
  The functions of \<^verbatim>\<open>proc.c\<close> refine the state machine of the processes: what they do to the table is a sequence of
  steps \<open>tstep\<close>, or the step \<open>texit\<close>.
\<close>

abbreviation tsteps :: "ptable \<Rightarrow> ptable \<Rightarrow> bool" where
  "tsteps \<equiv> tstep\<^sup>*\<^sup>*"


text \<open>The table as a normal form: what is read from the processes is read from the table.\<close>

declare table_fields [simp del]

lemma to_table:
  "pr_state (ptab s p) = t_state (table s) p" "pr_pid (ptab s p) = t_pid (table s) p" "pr_parent (ptab s p) = t_parent (table s) p"
  "pr_chan (ptab s p) = t_chan (table s) p" "nextpid s = t_next (table s)" "initproc s = t_init (table s)"
  "cpu_proc s = t_cpu (table s)" "this_cpu s = t_this (table s)"
  by (simp_all add: table_fields)

lemma table_upd:
  "table (s\<lparr>ptab := (ptab s)(p := y)\<rparr>) = (table s)\<lparr>t_state := (t_state (table s))(p := pr_state y), t_pid := (t_pid (table s))(p := pr_pid y),
     t_parent := (t_parent (table s))(p := pr_parent y), t_chan := (t_chan (table s))(p := pr_chan y)\<rparr>"
  by (simp add: table_ptab table_fields)

lemma table_commute:
  "table (s\<lparr>nextpid := n, ptab := h\<rparr>) = (table (s\<lparr>ptab := h\<rparr>))\<lparr>t_next := n\<rparr>"
  "table (s\<lparr>initproc := i, ptab := h\<rparr>) = (table (s\<lparr>ptab := h\<rparr>))\<lparr>t_init := i\<rparr>"
  by (simp_all add: table_def)

lemmas table_nf = table_commute to_table table_upd table_set(5-8)

declare table_nf [simp]

lemma keeps_bind: "keeps v m \<Longrightarrow> (\<And>x t. v t = v s \<Longrightarrow> wlp (f x) Q t) \<Longrightarrow> wlp (kbind m f) Q s"
  by (auto simp: wp_simps intro: keeps_wlp)

lemma pset_bind: "wlp (f ()) Q (s\<lparr>ptab := (ptab s)(p := g (ptab s p))\<rparr>) \<Longrightarrow> wlp (kbind (pset p g) f) Q s"
  by (simp add: wp_simps)

lemma kget_bind: "wlp (f (g s)) Q s \<Longrightarrow> wlp (kbind (kget g) f) Q s"
  by (simp add: wp_simps)

lemma pget_bind: "wlp (f (g (ptab s p))) Q s \<Longrightarrow> wlp (kbind (pget p g) f) Q s"
  by (simp add: wp_simps)

lemma cur_bind: "(\<And>p. cpu_proc s (this_cpu s) = Some p \<Longrightarrow> wlp (f p) Q s) \<Longrightarrow> wlp (kbind cur f) Q s"
  by (simp add: wp_simps wlp_cur)

lemma next_pid_bind: "wlp (f (nextpid s)) Q (s\<lparr>nextpid := nextpid s + 1\<rparr>) \<Longrightarrow> wlp (kbind next_pid f) Q s"
  by (simp add: next_pid_def wp_simps)

lemma wlp_bind: "wlp m R s \<Longrightarrow> (\<And>x t. R x t \<Longrightarrow> wlp (f x) Q t) \<Longrightarrow> wlp (kbind m f) Q s"
  by (auto simp: wlp_kbind intro: wlp_mono)

lemma find_below: "find P [0..<n] = Some p \<Longrightarrow> p < n \<and> P p"
  by (auto simp: find_Some_iff)

lemma yield_steps: "wlp yield (\<lambda>_ t. tsteps (table s) (table t)) s"
proof -
  have "wlp (sched At_yield) (\<lambda>_ t. tsteps (table s) (table t)) (s\<lparr>ptab := (ptab s)(p := (ptab s p)\<lparr>pr_state := RUNNABLE\<rparr>)\<rparr>)"
    if p: "cpu_proc s (this_cpu s) = Some p" for p
    using tstep.yields[of "table s" "this_cpu s" p] p by (intro wlp_mono[OF sched_table]) auto
  then show ?thesis by (simp add: yield_def curset_def wp_simps wlp_cur)
qed

lemma sleep_steps:
  assumes z: "\<And>p q. cpu_proc s (this_cpu s) = Some p \<Longrightarrow> c = On_proc p \<Longrightarrow> q < NPROC \<Longrightarrow> pr_parent (ptab s q) = Some p \<Longrightarrow> pr_state (ptab s q) \<noteq> ZOMBIE"
  shows "wlp (sleep c) (\<lambda>_ t. tsteps (table s) (table t)) s"
proof -
  have "wlp (sched At_sleep) (\<lambda>_ t. tsteps (table s) (table t))
      (s\<lparr>ptab := (ptab s)(p := (ptab s p)\<lparr>pr_chan := Some c, pr_state := SLEEPING\<rparr>)\<rparr>)"
    if p: "cpu_proc s (this_cpu s) = Some p" for p
    using tstep.sleeps[of "table s" "this_cpu s" p c] p z by (intro wlp_mono[OF sched_table]) auto
  then show ?thesis by (auto simp: sleep_def curset_def wp_simps wlp_cur)
qed

lemma ptable_order:
  "t\<lparr>t_next := n, t_state := st, t_pid := pid\<rparr> = t\<lparr>t_state := st, t_pid := pid, t_next := n\<rparr>"
  "t\<lparr>t_parent := par, t_state := st\<rparr> = t\<lparr>t_state := st, t_parent := par\<rparr>"
  "t\<lparr>t_cpu := cp, t_chan := ch\<rparr> = t\<lparr>t_chan := ch, t_cpu := cp\<rparr>" "t\<lparr>t_cpu := cp, t_state := st\<rparr> = t\<lparr>t_state := st, t_cpu := cp\<rparr>"
  by simp_all

lemma run_proc_steps:
  assumes c: "cpu_proc s (this_cpu s) = None" and p: "p < NPROC"
  shows "wlp (run_proc p) (\<lambda>_ t. tsteps (table s) (table t)) s"
proof -
  let ?Q = "\<lambda>_ t. tsteps (table s) (table t)"
  let ?u = "(table s)\<lparr>t_state := (t_state (table s))(p := RUNNING), t_cpu := (t_cpu (table s))(t_this (table s) := Some p)\<rparr>"
  have u: "tsteps (table s) (?u\<lparr>t_chan := (t_chan (table s))(p := ch)\<rparr>)" if "pr_state (ptab s p) = RUNNABLE" for ch
    using tstep.runs[of "table s" "this_cpu s" p ch] that c p by (simp add: ptable_order)
  have r: "wlp (resume p) ?Q t" if st: "pr_state (ptab s p) = RUNNABLE" and t: "table t = ?u" for t
    using u[OF st] u[OF st, of "t_chan (table s) p"] t
    by (auto simp: resume_def wp_simps ptable_order split: kcontext.split intro!: keeps_wlp[OF keeps_table_forkret])
  have "wlp (kbind (switchuvm p) (\<lambda>_. kbind (pset p (\<lambda>x. x\<lparr>pr_state := RUNNING\<rparr>)) (\<lambda>_. resume p))) ?Q
      (s\<lparr>cpu_proc := (cpu_proc s)(this_cpu s := Some p)\<rparr>)" if st: "pr_state (ptab s p) = RUNNABLE"
    using st by (intro keeps_bind[OF keeps_table_switchuvm] pset_bind r) (auto simp: ptable_order)
  then show ?thesis by (simp add: run_proc_def wp_simps)
qed

lemma wakeup1_table:
  "wlp (wakeup1 c) (\<lambda>_ t. woken (table s) (table t) \<and> (\<forall>q<NPROC. pr_state (ptab t q) = SLEEPING \<longrightarrow> pr_chan (ptab t q) \<noteq> c)) s"
proof -
  let ?I = "\<lambda>i t. woken (table s) (table t) \<and> (\<forall>q<i. pr_state (ptab t q) = SLEEPING \<longrightarrow> pr_chan (ptab t q) \<noteq> c)"
  have "wlp (wakeup1 c) (\<lambda>_. ?I (0 + NPROC)) s"
    unfolding wakeup1_def
  proof (rule wlp_kfor)
    fix i t assume I: "?I i t"
    have "woken (table t) (table (t\<lparr>ptab := (ptab t)(i := (ptab t i)\<lparr>pr_state := RUNNABLE\<rparr>)\<rparr>))" if "pr_state (ptab t i) = SLEEPING"
      using that by (simp add: woken_def)
    then show "wlp (kbind (pget i id) (\<lambda>x. kwhen (pr_state x = SLEEPING \<and> pr_chan x = c) (pset i (\<lambda>x. x\<lparr>pr_state := RUNNABLE\<rparr>)))) (\<lambda>_. ?I (Suc i)) t"
      using I by (auto simp: wp_simps less_Suc_eq intro: woken_trans)
  qed simp
  then show ?thesis by simp
qed

lemma wakeup_steps: "wlp (wakeup c) (\<lambda>_ t. tsteps (table s) (table t)) s"
  unfolding wakeup_def by (rule wlp_mono[OF wakeup1_table]) (auto intro: tstep.wakes)

lemma kill_steps: "wlp (kill pid) (\<lambda>_ t. tsteps (table s) (table t)) s"
proof -
  have "woken (table s) (table (s\<lparr>ptab := (ptab s)(p := (ptab s p)\<lparr>pr_killed := True, pr_state := RUNNABLE\<rparr>)\<rparr>))"
    if "pr_state (ptab s p) = SLEEPING" for p
    using that by (simp add: woken_def)
  then show ?thesis
    by (auto simp: kill_def wp_simps split: option.split intro: tstep.wakes)
qed

section \<open>Fork\<close>

lemma allocproc_steps:
  shows "wlp allocproc (\<lambda>r t. tsteps (table s) (table t) \<and> cpu_proc t = cpu_proc s \<and> this_cpu t = this_cpu s \<and>
    (\<forall>np. r = Some np \<longrightarrow> np < NPROC \<and> pr_state (ptab s np) = UNUSED \<and> pr_state (ptab t np) = EMBRYO)) s"
proof -
  let ?Q = "\<lambda>r t. tsteps (table s) (table t) \<and> cpu_proc t = cpu_proc s \<and> this_cpu t = this_cpu s \<and>
    (\<forall>np. r = Some np \<longrightarrow> np < NPROC \<and> pr_state (ptab s np) = UNUSED \<and> pr_state (ptab t np) = EMBRYO)"
  let ?rest = "\<lambda>p. kbind (on_mem kalloc) (\<lambda>k. kbind (pset p (\<lambda>x. x\<lparr>pr_kstack := k\<rparr>)) (\<lambda>_.
         if k = 0 then kbind (pset p (\<lambda>x. x\<lparr>pr_state := UNUSED\<rparr>)) (\<lambda>_. kret None)
         else kbind (pset p (\<lambda>x. x\<lparr>pr_context := At_forkret\<rparr>)) (\<lambda>_. kret (Some p))))"
  have rest: "wlp (?rest p) ?Q t" if p: "p < NPROC" "pr_state (ptab s p) = UNUSED" "pr_state (ptab t p) = EMBRYO" and t: "tsteps (table s) (table t)" "cpu_proc t = cpu_proc s" "this_cpu t = this_cpu s" for p t
  proof (rule keeps_bind[OF keeps_table_on(2)])
    fix k u assume u: "table u = table t"
    have "pr_state (ptab u p) = EMBRYO" "cpu_proc u = cpu_proc s" "this_cpu u = this_cpu s"
      using p t u by simp_all
    then show "wlp (kbind (pset p (\<lambda>x. x\<lparr>pr_kstack := k\<rparr>)) (\<lambda>_.
         if k = 0 then kbind (pset p (\<lambda>x. x\<lparr>pr_state := UNUSED\<rparr>)) (\<lambda>_. kret None)
         else kbind (pset p (\<lambda>x. x\<lparr>pr_context := At_forkret\<rparr>)) (\<lambda>_. kret (Some p)))) ?Q u"
      using rtranclp.rtrancl_into_rtrancl[OF t(1) tstep.gives_up[of p]] p t u by (simp add: wp_simps fun_upd_idem)
  qed
  show ?thesis
  proof (cases "find (\<lambda>p. pr_state (ptab s p) = UNUSED) [0..<NPROC]")
    case (Some p)
    then have p: "p < NPROC" "t_state (table s) p = UNUSED" using find_below[OF Some] by auto
    show ?thesis unfolding allocproc_def
      by (rule kget_bind, unfold Some option.case, intro pset_bind next_pid_bind rest)
        (use tstep.allocates[OF p] p in \<open>simp_all add: ptable_order\<close>)
  next
    case None
    show ?thesis unfolding allocproc_def by (rule kget_bind, unfold None option.case) (simp add: wp_simps)
  qed
qed

lemma keeps_table_dup [keeps_intros]: "keeps table (dup_file p np i)"
  unfolding dup_file_def by (intro keeps_intros) simp_all

lemma fork_steps: "wlp fork (\<lambda>_ t. tsteps (table s) (table t)) s"
proof -
  let ?Q = "\<lambda>_ t. tsteps (table s) (table t)"
  let ?finish = "\<lambda>me np p. kbind (kfor 0 NOFILE (dup_file p np)) (\<lambda>_.
           kbind (nonnull (pr_cwd me)) (\<lambda>c.
           kbind (on_fs (vop_ref_inc c)) (\<lambda>c.
           kbind (pset np (\<lambda>x. x\<lparr>pr_cwd := Some c\<rparr>)) (\<lambda>_.
           kbind (pget np pr_pid) (\<lambda>pid.
           kbind (pset np (\<lambda>x. x\<lparr>pr_state := RUNNABLE\<rparr>)) (\<lambda>_.
           kbind (pset np (\<lambda>x. x\<lparr>pr_name := safestrcpy (pr_name x) 0 (pr_name me) 16\<rparr>)) (\<lambda>_.
           kret pid)))))))"
  have finish: "wlp (?finish me np p) ?Q t" if "tsteps (table s) ((table t)\<lparr>t_state := (t_state (table t))(np := RUNNABLE)\<rparr>)" for me np p t
    using that
    by (intro keeps_bind[of table, OF keeps_kfor[OF keeps_table_dup]] keeps_bind[of table, OF keeps_reads(4)] keeps_bind[OF keeps_table_on(1)])
      (simp add: wp_simps)
  have rest: "wlp (kbind (on_mem m) (\<lambda>d. kbind (pset np (\<lambda>x. x\<lparr>pr_pgdir := d\<rparr>)) (\<lambda>_.
         if d = 0 then
           kbind (pget np pr_kstack) (\<lambda>k.
           kbind (on_mem (kfree kend k)) (\<lambda>_.
           kbind (pset np (\<lambda>x. x\<lparr>pr_kstack := 0, pr_state := UNUSED\<rparr>)) (\<lambda>_. kret (-1))))
         else
           kbind (pset np (\<lambda>x. x\<lparr>pr_sz := pr_sz me, pr_parent := Some p, pr_tf := (pr_tf me)\<lparr>tf_eax := 0\<rparr>\<rparr>)) (\<lambda>_. ?finish me np p)))) ?Q t"
    if t: "tsteps (table s) (table t)" "np < NPROC" "pr_state (ptab t np) = EMBRYO" "cpu_proc t c = Some p" for t m np kend me p c
  proof (rule keeps_bind[OF keeps_table_on(2)])
    fix d u assume u: "table u = table t"
    have b: "tsteps (table s) ((table t)\<lparr>t_state := (t_state (table t))(np := RUNNABLE), t_parent := (t_parent (table t))(np := Some p)\<rparr>)"
      using rtranclp.rtrancl_into_rtrancl[OF t(1) tstep.forks[of np _ c p]] t by simp
    have a: "tsteps (table s) ((table t)\<lparr>t_state := (t_state (table t))(np := UNUSED)\<rparr>)"
      using rtranclp.rtrancl_into_rtrancl[OF t(1) tstep.gives_up[of np]] t by simp
    show "wlp (kbind (pset np (\<lambda>x. x\<lparr>pr_pgdir := d\<rparr>)) (\<lambda>_.
         if d = 0 then
           kbind (pget np pr_kstack) (\<lambda>k.
           kbind (on_mem (kfree kend k)) (\<lambda>_.
           kbind (pset np (\<lambda>x. x\<lparr>pr_kstack := 0, pr_state := UNUSED\<rparr>)) (\<lambda>_. kret (-1))))
         else
           kbind (pset np (\<lambda>x. x\<lparr>pr_sz := pr_sz me, pr_parent := Some p, pr_tf := (pr_tf me)\<lparr>tf_eax := 0\<rparr>\<rparr>)) (\<lambda>_. ?finish me np p))) ?Q u"
    proof (cases "d = 0")
      case True
      then show ?thesis using a u by (auto simp: wp_simps intro!: keeps_wlp[OF keeps_table_on(2)])
    next
      case False
      show ?thesis unfolding if_not_P[OF False] by (intro pset_bind finish) (use b u in \<open>simp add: ptable_order\<close>)
    qed
  qed
  show ?thesis unfolding fork_def
  proof (rule wlp_bind[OF allocproc_steps], goal_cases)
    case (1 r t)
    show ?case
    proof (cases r)
      case (Some np)
      show ?thesis unfolding Some option.case using 1 Some by (intro cur_bind pget_bind kget_bind rest) auto
    qed (use 1 in \<open>simp add: wp_simps\<close>)
  qed
qed

section \<open>Wait\<close>

lemma wlp_kscan:
  assumes "I a st s"
    and "\<And>i st s. a \<le> i \<Longrightarrow> i < a + n \<Longrightarrow> I i st s \<Longrightarrow>
           wlp (body i st) (\<lambda>r s'. case r of Inl x \<Rightarrow> Q (Inl x) s' | Inr st \<Rightarrow> I (Suc i) st s') s"
    and "\<And>st s. I (a + n) st s \<Longrightarrow> Q (Inr st) s"
  shows "wlp (kscan a n body st) Q s"
  using assms
proof (induction n arbitrary: a st s)
  case 0
  then show ?case by (simp add: wlp_kret)
next
  case (Suc n)
  have *: "wlp (body a st) (\<lambda>r s'. case r of Inl x \<Rightarrow> Q (Inl x) s' | Inr st \<Rightarrow> I (Suc a) st s') s"
    using Suc.prems(2)[of a st s] Suc.prems(1) by simp
  have IH: "wlp (kscan (Suc a) n body st) Q s'" if "I (Suc a) st s'" for st s'
    using that by (intro Suc.IH) (auto intro: Suc.prems(2,3))
  show ?case unfolding kscan.simps wlp_kbind
    by (rule wlp_mono[OF *]) (use IH in \<open>simp add: wlp_kret split: sum.splits\<close>)
qed

lemma reap_steps:
  assumes p: "p < NPROC" "pr_state (ptab s p) = ZOMBIE"
  shows "wlp (reap p) (\<lambda>_ t. tsteps (table s) (table t)) s"
  unfolding reap_def
  by (intro pget_bind kget_bind keeps_bind[OF keeps_table_on(2)] pset_bind) (use tstep.reaps[of p "table s"] p in \<open>simp add: wp_simps\<close>)

lemma wait_steps: "wlp wait (\<lambda>_ t. tsteps (table s) (table t)) s"
  unfolding wait_def
proof (rule cur_bind, rule wlp_bind)
  fix me assume me: "cpu_proc s (this_cpu s) = Some me"
  let ?none = "\<lambda>i t. t = s \<and> (\<forall>q<i. pr_parent (ptab s q) = Some me \<longrightarrow> pr_state (ptab s q) \<noteq> ZOMBIE)"
  let ?R = "\<lambda>r t. case r of Inl _ \<Rightarrow> tsteps (table s) (table t) | Inr _ \<Rightarrow> ?none NPROC t"
  show "wlp (kscan 0 NPROC (wait_scan me) False) ?R s"
  proof (rule wlp_kscan[where I = "\<lambda>i _. ?none i"])
    fix i hk t assume i: "i < 0 + NPROC" and I: "?none i t"
    have "wlp (reap i) (\<lambda>_ t. tsteps (table s) (table t)) s" if "t_state (table s) i = ZOMBIE" using reap_steps[of i s] that i by simp
    then show "wlp (wait_scan me i hk) (\<lambda>r t. case r of Inl x \<Rightarrow> ?R (Inl x) t | Inr st \<Rightarrow> ?none (Suc i) t) t"
      using I by (auto simp: wait_scan_def wp_simps less_Suc_eq elim!: wlp_mono)
  qed auto
  fix r :: "int + bool" and t assume r: "?R r t"
  show "wlp (case r of Inl pid \<Rightarrow> kret (Back pid)
     | Inr havekids \<Rightarrow> kbind (pget me pr_killed) (\<lambda>k. if \<not> havekids \<or> k then kret (Back (-1))
         else kbind (sleep (On_proc me)) (\<lambda>_. kret Switched))) (\<lambda>_ t. tsteps (table s) (table t)) t"
  proof (cases r)
    case (Inr hk)
    then have t: "t = s" "\<forall>q<NPROC. pr_parent (ptab s q) = Some me \<longrightarrow> pr_state (ptab s q) \<noteq> ZOMBIE" using r by auto
    have "wlp (sleep (On_proc me)) (\<lambda>_ t. tsteps (table s) (table t)) s" using t(2) by (intro sleep_steps) auto
    then show ?thesis using Inr t(1) by (auto simp: wp_simps elim: wlp_mono)
  qed (use r in \<open>simp add: wp_simps\<close>)
qed

section \<open>Exit\<close>

lemma keeps_table_close [keeps_intros]: "keeps table (close_file p fd)"
  unfolding close_file_def by (intro keeps_intros) simp_all

definition abandoned :: "ptable \<Rightarrow> nat \<Rightarrow> nat \<Rightarrow> ptable \<Rightarrow> bool" where
  \<comment> \<open>the first \<open>i\<close> entries of the table were looked at\<close>
  "abandoned t p i u \<longleftrightarrow> (\<exists>v. woken t v \<and>
     u = v\<lparr>t_parent := \<lambda>q. if q < i \<and> t_parent t q = Some p then Some (t_init t) else t_parent t q\<rparr> \<and>
     (\<forall>q<i. t_parent t q = Some p \<and> t_state t q = ZOMBIE \<longrightarrow> \<not> waiting v (t_init t)))"

lemma abandoned_other:
  assumes "abandoned t p i u" "t_parent t i \<noteq> Some p"
  shows "abandoned t p (Suc i) u"
proof -
  obtain v where v: "woken t v" "u = v\<lparr>t_parent := \<lambda>q. if q < i \<and> t_parent t q = Some p then Some (t_init t) else t_parent t q\<rparr>"
    "\<forall>q<i. t_parent t q = Some p \<and> t_state t q = ZOMBIE \<longrightarrow> \<not> waiting v (t_init t)"
    using assms(1) by (auto simp: abandoned_def)
  have "(\<lambda>q. if q < Suc i \<and> t_parent t q = Some p then Some (t_init t) else t_parent t q) =
      (\<lambda>q. if q < i \<and> t_parent t q = Some p then Some (t_init t) else t_parent t q)"
    using assms(2) by (auto simp: less_Suc_eq)
  moreover have "\<forall>q<Suc i. t_parent t q = Some p \<and> t_state t q = ZOMBIE \<longrightarrow> \<not> waiting v (t_init t)"
    using v(3) assms(2) by (auto simp: less_Suc_eq)
  ultimately show ?thesis using v(1,2) unfolding abandoned_def by (intro exI[of _ v]) simp
qed

lemma abandoned_child:
  assumes a: "abandoned t p i u" and c: "t_parent t i = Some p"
    and w: "woken (u\<lparr>t_parent := (t_parent u)(i := Some (t_init t))\<rparr>) w" and z: "t_state t i = ZOMBIE \<Longrightarrow> \<not> waiting w (t_init t)"
  shows "abandoned t p (Suc i) w"
proof -
  obtain v where v: "woken t v" "u = v\<lparr>t_parent := \<lambda>q. if q < i \<and> t_parent t q = Some p then Some (t_init t) else t_parent t q\<rparr>"
    "\<forall>q<i. t_parent t q = Some p \<and> t_state t q = ZOMBIE \<longrightarrow> \<not> waiting v (t_init t)"
    using a by (auto simp: abandoned_def)
  let ?v = "w\<lparr>t_parent := t_parent t\<rparr>"
  have vv: "woken v ?v"
  proof -
    have "t_state w p = t_state v p \<or> t_state v p = SLEEPING \<and> t_state w p = RUNNABLE" for p
      using w v(2) by (simp add: woken_def)
    moreover have "?v = v\<lparr>t_state := t_state ?v\<rparr>"
      by (rule ptable.equality) (use wokenD(1-7)[OF w] wokenD(2)[OF v(1)] v(2) in simp_all)
    ultimately show ?thesis by (simp add: woken_def)
  qed
  have par: "t_parent w = (\<lambda>q. if q < Suc i \<and> t_parent t q = Some p then Some (t_init t) else t_parent t q)"
    using wokenD(2)[OF w] v(2) c by (auto simp: fun_eq_iff less_Suc_eq)
  have "\<not> waiting ?v (t_init t)" if "q < Suc i" "t_parent t q = Some p" "t_state t q = ZOMBIE" for q
  proof (cases "q = i")
    case True
    then show ?thesis using z that by (simp add: waiting_def)
  next
    case False
    then have "\<not> waiting v (t_init t)" using v(3) that by (auto simp: less_Suc_eq)
    then show ?thesis using wokenD(10)[OF vv] by blast
  qed
  moreover have "w = ?v\<lparr>t_parent := \<lambda>q. if q < Suc i \<and> t_parent t q = Some p then Some (t_init t) else t_parent t q\<rparr>"
    by (simp add: par[symmetric])
  ultimately show ?thesis using woken_trans[OF v(1) vv] unfolding abandoned_def by blast
qed

lemma abandon_step:
  assumes a: "abandoned t p i (table s)" and i: "t_init t < NPROC"
  shows "wlp (abandon p i) (\<lambda>_ s'. abandoned t p (Suc i) (table s')) s"
proof -
  obtain v where v: "woken t v" "table s = v\<lparr>t_parent := \<lambda>q. if q < i \<and> t_parent t q = Some p then Some (t_init t) else t_parent t q\<rparr>"
    using a by (auto simp: abandoned_def)
  have e: "t_parent (table s) i = t_parent t i" "t_init (table s) = t_init t" "t_state (table s) i = ZOMBIE \<longleftrightarrow> t_state t i = ZOMBIE"
    using v(2) wokenD(5)[OF v(1)] woken_states(4)[OF v(1), of i] by simp_all
  show ?thesis
  proof (cases "t_parent t i = Some p")
    case False
    then show ?thesis using abandoned_other[OF a False] e by (simp add: abandon_def wp_simps)
  next
    case True
    let ?s = "s\<lparr>ptab := (ptab s)(i := (ptab s i)\<lparr>pr_parent := Some (t_init t)\<rparr>)\<rparr>"
    have t: "table ?s = (table s)\<lparr>t_parent := (t_parent (table s))(i := Some (t_init t))\<rparr>" by simp
    have z: "wlp (wakeup1 (Some (On_proc (t_init t)))) (\<lambda>_ s'. abandoned t p (Suc i) (table s')) ?s"
    proof (rule wlp_mono[OF wakeup1_table])
      fix s' assume w: "woken (table ?s) (table s') \<and>
        (\<forall>q<NPROC. pr_state (ptab s' q) = SLEEPING \<longrightarrow> pr_chan (ptab s' q) \<noteq> Some (On_proc (t_init t)))"
      show "abandoned t p (Suc i) (table s')"
        by (rule abandoned_child[OF a True]) (use w i in \<open>simp_all add: waiting_def\<close>)
    qed
    have n: "abandoned t p (Suc i) (table ?s)" if "t_state t i \<noteq> ZOMBIE"
      using abandoned_child[OF a True, of "table ?s"] that t by simp
    show ?thesis using True e z n by (simp add: abandon_def wp_simps)
  qed
qed

lemma abandoned_0: "abandoned t p 0 t"
  by (auto simp: abandoned_def intro!: exI[of _ t])

lemma abandoned_all:
  assumes w: "woken t u" and a: "abandoned u p NPROC v" and n: "\<And>q. t_parent t p = Some q \<Longrightarrow> \<not> waiting u q"
  shows "abandon_all t p v" "t_this v = t_this t" "t_cpu v = t_cpu t"
proof -
  obtain x where x: "woken u x" "v = x\<lparr>t_parent := \<lambda>q. if q < NPROC \<and> t_parent u q = Some p then Some (t_init u) else t_parent u q\<rparr>"
    "\<forall>q<NPROC. t_parent u q = Some p \<and> t_state u q = ZOMBIE \<longrightarrow> \<not> waiting x (t_init u)"
    using a by (auto simp: abandoned_def)
  note f = wokenD(1-7)[OF w] woken_states(4)[OF w]
  have "\<not> waiting x q" if "t_parent t p = Some q" for q using n[OF that] wokenD(10)[OF x(1), of q] by blast
  then show "abandon_all t p v" using woken_trans[OF w x(1)] x(2,3) unfolding abandon_all_def f by (intro exI[of _ x]) auto
  show "t_this v = t_this t" "t_cpu v = t_cpu t" using x(2) wokenD(6,7)[OF x(1)] f by auto
qed

lemma parent_below:
  assumes "pt_ok t" "p < NPROC" "p \<noteq> t_init t" "t_parent t p = Some q"
  shows "q < NPROC"
proof -
  have fam: "family_ok t" using assms(1) by (simp add: pt_ok_def)
  then have "t_state t p \<noteq> UNUSED" "t_state t p \<noteq> EMBRYO" using family_okD(1)[OF fam assms(2)] assms(4) by auto
  then obtain r where "r < NPROC" "t_parent t p = Some r" using fam assms unfolding family_ok_def by blast
  then show ?thesis using assms(4) by simp
qed

lemma kexit_exits:
  assumes ok: "pt_ok (table s)"
  shows "wlp kexit (\<lambda>_ t. texit (table s) (table t)) s"
  unfolding kexit_def
proof (rule cur_bind, rule kget_bind)
  fix p assume p: "cpu_proc s (this_cpu s) = Some p"
  let ?Q = "\<lambda>_ t. texit (table s) (table t)"
  let ?locked = "kbind (pget p pr_parent) (\<lambda>q. kbind (wakeup1 (map_option On_proc q)) (\<lambda>_. kbind (kfor 0 NPROC (abandon p)) (\<lambda>_.
       kbind (pset p (\<lambda>x. x\<lparr>pr_state := ZOMBIE\<rparr>)) (\<lambda>_. sched At_exit))))"
  have locked: "wlp ?locked ?Q t" if t: "table t = table s" and pi: "p \<noteq> initproc s" for t
  proof (rule pget_bind, rule wlp_bind[OF wakeup1_table])
    fix u assume u: "woken (table t) (table u) \<and>
      (\<forall>q<NPROC. pr_state (ptab u q) = SLEEPING \<longrightarrow> pr_chan (ptab u q) \<noteq> map_option On_proc (pr_parent (ptab t p)))"
    then have w: "woken (table s) (table u)" by (simp add: t)
    have uok: "pt_ok (table u)" using pt_ok_woken[OF ok w] .
    have pN: "p < NPROC" and iN: "t_init (table u) < NPROC" using pt_okD(1)[OF ok, of "this_cpu s" p] p uok by (auto simp: pt_ok_def family_ok_def)
    have nowait: "\<not> waiting (table u) q" if q: "t_parent (table s) p = Some q" for q
      using u q t parent_below[OF ok pN _ q] pi by (auto simp: waiting_def)
    have "wlp (kfor 0 NPROC (abandon p)) (\<lambda>_ v. abandoned (table u) p (0 + NPROC) (table v)) u"
      by (rule wlp_kfor) (auto intro: abandoned_0 abandon_step iN)
    then show "wlp (kbind (kfor 0 NPROC (abandon p)) (\<lambda>_. kbind (pset p (\<lambda>x. x\<lparr>pr_state := ZOMBIE\<rparr>)) (\<lambda>_. sched At_exit))) ?Q u"
    proof (rule wlp_bind)
      fix v assume "abandoned (table u) p (0 + NPROC) (table v)"
      then have a: "abandoned (table u) p NPROC (table v)" by simp
      note x = abandoned_all[OF w a nowait]
      have "texit (table s) ((table v)\<lparr>t_state := (t_state (table v))(p := ZOMBIE), t_cpu := (t_cpu (table v))(t_this (table v) := None)\<rparr>)"
        using texit.exits[OF _ _ x(1)] p pi x by simp
      then show "wlp (kbind (pset p (\<lambda>x. x\<lparr>pr_state := ZOMBIE\<rparr>)) (\<lambda>_. sched At_exit)) ?Q v"
        by (intro pset_bind wlp_mono[OF sched_table]) auto
    qed
  qed
  show "wlp (if p = initproc s then kpanic ''init exiting'' else
       kbind (kfor 0 NOFILE (close_file p)) (\<lambda>_.
       kbind (pget p pr_cwd) (\<lambda>c. kbind (nonnull c) (\<lambda>c.
       kbind (on_fs (vop_ref_dec c)) (\<lambda>_.
       kbind (pset p (\<lambda>x. x\<lparr>pr_cwd := None\<rparr>)) (\<lambda>_. ?locked)))))) ?Q s"
  proof (cases "p = initproc s")
    case False
    show ?thesis unfolding if_not_P[OF False]
      by (intro keeps_bind[of table, OF keeps_kfor[OF keeps_table_close]] pget_bind keeps_bind[of table, OF keeps_reads(4)]
          keeps_bind[OF keeps_table_on(1)] pset_bind locked False) simp
  qed (simp add: wp_simps)
qed

end
