(* ===== verification/File_Refs.thy ===== *)
theory File_Refs
  imports Sysfile Proc_Inv
begin

text \<open>
  The reference counts of open files.

  \<open>fview\<close> is what the file table and the descriptor tables say. \<open>finv E S\<close> says that the count of every file is the number of
  descriptors that refer to it, and \<open>E\<close> more, which are the references a function holds in its variables; and that a file is in
  use exactly when it has a type, apart from the files \<open>S\<close> that were allocated and have no type yet. Between calls there
  are neither.
\<close>

record fview =
  v_ref :: "nat \<Rightarrow> int"
  v_type :: "nat \<Rightarrow> fd_type"
  v_file :: "nat \<Rightarrow> nat \<Rightarrow> nat option"

definition files_of :: "kern \<Rightarrow> fview" where
  "files_of s = \<lparr>v_ref = \<lambda>f. f_ref (ftable s f), v_type = \<lambda>f. f_type (ftable s f), v_file = \<lambda>p. pr_ofile (ptab s p)\<rparr>"

definition holders :: "fview \<Rightarrow> nat \<Rightarrow> (nat \<times> nat) set" where
  "holders v f = {(p, fd). p < NPROC \<and> fd < NOFILE \<and> v_file v p fd = Some f}"

definition finv :: "(nat \<Rightarrow> int) \<Rightarrow> nat set \<Rightarrow> fview \<Rightarrow> bool" where
  "finv E S v \<longleftrightarrow> (\<forall>f<NFILE. v_ref v f = int (card (holders v f)) + E f) \<and>
     (\<forall>f<NFILE. if f \<in> S then v_type v f = FD_NONE \<and> v_ref v f = 1 else (v_ref v f = 0 \<longleftrightarrow> v_type v f = FD_NONE)) \<and>
     (\<forall>p<NPROC. \<forall>fd<NOFILE. \<forall>f. v_file v p fd = Some f \<longrightarrow> f < NFILE)"

lemma finite_holders [simp]: "finite (holders v f)"
  by (rule finite_subset[of _ "{..<NPROC} \<times> {..<NOFILE}"]) (auto simp: holders_def)

section \<open>Steps\<close>

definition put_slot :: "nat \<Rightarrow> nat \<Rightarrow> nat option \<Rightarrow> fview \<Rightarrow> fview" where
  "put_slot p fd x v = v\<lparr>v_file := (v_file v)(p := (v_file v p)(fd := x))\<rparr>"

lemma put_slot_fields [simp]: "v_ref (put_slot p fd x v) = v_ref v" "v_type (put_slot p fd x v) = v_type v"
  "v_file (put_slot p fd x v) = (v_file v)(p := (v_file v p)(fd := x))"
  by (simp_all add: put_slot_def)

lemma holders_put:
  assumes "p < NPROC" "fd < NOFILE"
  shows "holders (put_slot p fd x v) f = (if x = Some f then insert (p, fd) (holders v f) else holders v f - {(p, fd)})"
  using assms by (auto simp: holders_def split: if_splits)

lemma finv_put:
  assumes i: "finv E S v" and p: "p < NPROC" "fd < NOFILE" "v_file v p fd = None" and f: "f < NFILE"
  shows "finv (E(f := E f - 1)) S (put_slot p fd (Some f) v)"
proof -
  have n: "(p, fd) \<notin> holders v g" for g using p by (simp add: holders_def)
  have "card (holders (put_slot p fd (Some f) v) g) = card (holders v g) + (if g = f then 1 else 0)" for g
    using n[of g] by (auto simp: holders_put[OF p(1,2)])
  then have "\<forall>g<NFILE. v_ref v g = int (card (holders (put_slot p fd (Some f) v) g)) + (E(f := E f - 1)) g"
    using i by (auto simp: finv_def)
  moreover have "\<forall>q<NPROC. \<forall>d<NOFILE. \<forall>g. v_file (put_slot p fd (Some f) v) q d = Some g \<longrightarrow> g < NFILE"
    using i f by (auto simp: finv_def split: if_splits)
  ultimately show ?thesis using i unfolding finv_def put_slot_fields(1,2) by blast
qed

lemma finv_take:
  assumes i: "finv E S v" and p: "p < NPROC" "fd < NOFILE" "v_file v p fd = Some f"
  shows "finv (E(f := E f + 1)) S (put_slot p fd None v)" "f < NFILE"
proof -
  show "f < NFILE" using i p unfolding finv_def by blast
  have h: "(p, fd) \<in> holders v g \<longleftrightarrow> g = f" for g using p by (auto simp: holders_def)
  have "holders (put_slot p fd None v) g = holders v g - {(p, fd)}" for g by (simp add: holders_put[OF p(1,2)])
  then have "int (card (holders (put_slot p fd None v) g)) = int (card (holders v g)) - (if g = f then 1 else 0)" for g
    using h[of g] card_Suc_Diff1[of "holders v f" "(p, fd)"] by auto
  then have "\<forall>g<NFILE. v_ref v g = int (card (holders (put_slot p fd None v) g)) + (E(f := E f + 1)) g"
    using i by (auto simp: finv_def)
  moreover have "\<forall>q<NPROC. \<forall>d<NOFILE. \<forall>g. v_file (put_slot p fd None v) q d = Some g \<longrightarrow> g < NFILE"
    using i by (auto simp: finv_def split: if_splits)
  ultimately show "finv (E(f := E f + 1)) S (put_slot p fd None v)" using i unfolding finv_def put_slot_fields(1,2) by blast
qed

lemma holders_same [simp]: "holders (v\<lparr>v_ref := r\<rparr>) f = holders v f" "holders (v\<lparr>v_type := t\<rparr>) f = holders v f"
  by (simp_all add: holders_def)

lemma finv_alloc:
  assumes i: "finv E S v" and f: "f < NFILE" "v_ref v f = 0"
  shows "finv (E(f := E f + 1)) (insert f S) (v\<lparr>v_ref := (v_ref v)(f := 1)\<rparr>)" "f \<notin> S"
proof -
  have "if f \<in> S then v_type v f = FD_NONE \<and> v_ref v f = 1 else (v_ref v f = 0 \<longleftrightarrow> v_type v f = FD_NONE)" using i f(1) unfolding finv_def by blast
  then show "f \<notin> S" and "finv (E(f := E f + 1)) (insert f S) (v\<lparr>v_ref := (v_ref v)(f := 1)\<rparr>)"
    using i f by (auto simp: finv_def split: if_splits)
qed

lemma finv_dup:
  assumes "finv E S v" "f < NFILE" "\<not> v_ref v f < 1" "f \<notin> S"
  shows "finv (E(f := E f + 1)) S (v\<lparr>v_ref := (v_ref v)(f := v_ref v f + 1)\<rparr>)"
  using assms by (auto simp: finv_def)

lemma finv_release:
  assumes "finv E S v" "f < NFILE" "1 < v_ref v f"
  shows "finv (E(f := E f - 1)) (S - {f}) (v\<lparr>v_ref := (v_ref v)(f := v_ref v f - 1)\<rparr>)"
  using assms by (auto simp: finv_def split: if_splits)

lemma finv_close:
  assumes "finv E S v" "f < NFILE" "v_ref v f = 1"
  shows "finv (E(f := E f - 1)) (S - {f}) (v\<lparr>v_ref := (v_ref v)(f := 0), v_type := (v_type v)(f := FD_NONE)\<rparr>)"
  using assms by (auto simp: finv_def)

lemma finv_type:
  assumes "finv E S v" "f < NFILE" "f \<in> S" "t \<noteq> FD_NONE"
  shows "finv E (S - {f}) (v\<lparr>v_type := (v_type v)(f := t)\<rparr>)"
  using assms by (auto simp: finv_def)

section \<open>The view of the state\<close>

lemma files_of_other [simp]:
  "files_of (s\<lparr>k_fs := a\<rparr>) = files_of s" "files_of (s\<lparr>k_mem := b\<rparr>) = files_of s" "files_of (s\<lparr>cpu_proc := c\<rparr>) = files_of s"
  "files_of (s\<lparr>pipes := d\<rparr>) = files_of s" "files_of (s\<lparr>pipe_wakeups := e\<rparr>) = files_of s" "files_of (s\<lparr>p_killed := f\<rparr>) = files_of s"
  "files_of (s\<lparr>ticks := g\<rparr>) = files_of s" "files_of (s\<lparr>first := h\<rparr>) = files_of s" "files_of (s\<lparr>ts_esp0 := i\<rparr>) = files_of s"
  "files_of (s\<lparr>stack_junk := j\<rparr>) = files_of s" "files_of (s\<lparr>nextpid := k\<rparr>) = files_of s" "files_of (s\<lparr>this_cpu := l\<rparr>) = files_of s"
  "files_of (s\<lparr>initproc := m\<rparr>) = files_of s"
  by (simp_all add: files_of_def)

lemma to_files [simp]:
  "f_ref (ftable s f) = v_ref (files_of s) f" "f_type (ftable s f) = v_type (files_of s) f" "pr_ofile (ptab s p) = v_file (files_of s) p"
  by (simp_all add: files_of_def)

lemma files_of_ptab [simp]: "files_of (s\<lparr>ptab := (ptab s)(p := y)\<rparr>) = (files_of s)\<lparr>v_file := (v_file (files_of s))(p := pr_ofile y)\<rparr>"
  by (auto simp: files_of_def fun_eq_iff simp del: to_files)

lemma files_of_ftable [simp]: "files_of (s\<lparr>ftable := (ftable s)(f := x)\<rparr>) =
    (files_of s)\<lparr>v_ref := (v_ref (files_of s))(f := f_ref x), v_type := (v_type (files_of s))(f := f_type x)\<rparr>"
  by (auto simp: files_of_def fun_eq_iff simp del: to_files)

definition kview :: "kern \<Rightarrow> ptable \<times> fview" where
  "kview s = (table s, files_of s)"

lemma keeps_kview: "keeps table m \<Longrightarrow> keeps files_of m \<Longrightarrow> keeps kview m"
  unfolding keeps_def kview_def by (auto intro: wlp_mono[OF wlp_conj])

lemma keeps_files_on [keeps_intros]: "keeps files_of (on_fs m)" "keeps files_of (on_mem m')"
  by (simp_all add: on_fs_def on_mem_def keeps_zoom)

lemma keeps_files_pset [keeps_intros]: "(\<And>x. pr_ofile (f x) = pr_ofile x) \<Longrightarrow> keeps files_of (pset p f)"
  by (auto simp: pset_def intro: keeps_kmod)

lemma keeps_files_fset [keeps_intros]:
  "(\<And>x. f_ref (g x) = f_ref x) \<Longrightarrow> (\<And>x. f_type (g x) = f_type x) \<Longrightarrow> keeps files_of (fset f g)"
  by (auto simp: fset_def intro: keeps_kmod)

lemma keeps_files_as_cur [keeps_intros]: "keeps files_of m \<Longrightarrow> keeps files_of (as_cur m)"
  unfolding as_cur_def by (intro keeps_intros keeps_kmod) auto

lemma keeps_files_pipes [keeps_intros]: "keeps files_of (set_pipe p x)" "keeps files_of (wake_pipe p cs)"
  by (auto simp: set_pipe_def wake_pipe_def intro: keeps_kmod)

lemma keeps_files_pipe_ops [keeps_intros]:
  "keeps files_of (file_pipeclose p w)" "keeps files_of (file_piperead p n)" "keeps files_of (file_pipewrite p src n)"
  unfolding file_pipeclose_def file_piperead_def file_pipewrite_def by (intro keeps_intros)+

lemma keeps_table_pipe_ops [keeps_intros]:
  "keeps table (file_pipeclose p w)" "keeps table (file_piperead p n)" "keeps table (file_pipewrite p src n)"
  unfolding file_pipeclose_def file_piperead_def file_pipewrite_def by (intro keeps_intros)+

section \<open>A call in progress\<close>

text \<open>The running process of the state \<open>s0\<close> is in a system call; only its descriptors may have changed.\<close>

definition during :: "kern \<Rightarrow> (nat \<Rightarrow> int) \<Rightarrow> nat set \<Rightarrow> kern \<Rightarrow> bool" where
  "during s0 E S s \<longleftrightarrow> table s = table s0 \<and> pt_ok (table s0) \<and> finv E S (files_of s) \<and>
     (\<forall>q. t_cpu (table s0) (t_this (table s0)) \<noteq> Some q \<longrightarrow> v_file (files_of s) q = v_file (files_of s0) q)"

lemma duringD:
  assumes "during s0 E S s"
  shows "table s = table s0" "pt_ok (table s0)" "finv E S (files_of s)"
  using assms by (simp_all add: during_def)

lemma during_keeps: "keeps kview m \<Longrightarrow> during s0 E S s \<Longrightarrow> wlp m (\<lambda>_. during s0 E S) s"
  by (rule keeps_wlp) (auto simp: kview_def during_def)

lemma during_upd:
  assumes "during s0 E S s" "table t = table s" "v_file (files_of t) = v_file (files_of s)" "finv E' S' (files_of t)"
  shows "during s0 E' S' t"
  using assms by (simp add: during_def)

lemma wlp_finfo [wp_simps]: "wlp (finfo f) Q s = Q (ftable s f) s"
  by (simp add: finfo_def wp_simps)

lemma wlp_fset [wp_simps]: "wlp (fset f g) Q s = Q () (s\<lparr>ftable := (ftable s)(f := g (ftable s f))\<rparr>)"
  by (simp add: fset_def wp_simps)

lemma filealloc_during:
  assumes d: "during s0 E S s"
  shows "wlp filealloc (\<lambda>r t. case r of None \<Rightarrow> during s0 E S t
    | Some f \<Rightarrow> f < NFILE \<and> f \<notin> S \<and> during s0 (E(f := E f + 1)) (insert f S) t) s"
proof (cases "find (\<lambda>f. f_ref (ftable s f) = 0) [0..<NFILE]")
  case None
  then show ?thesis using d by (simp add: filealloc_def wp_simps)
next
  case (Some f)
  then have f: "f < NFILE" "v_ref (files_of s) f = 0" using find_below[OF Some] by auto
  note a = finv_alloc[OF duringD(3)[OF d] f]
  have "during s0 (E(f := E f + 1)) (insert f S) (s\<lparr>ftable := (ftable s)(f := (ftable s f)\<lparr>f_ref := 1\<rparr>)\<rparr>)"
    by (rule during_upd[OF d]) (use a(1) in simp_all)
  then show ?thesis using Some f a(2) by (simp add: filealloc_def wp_simps)
qed

lemma filedup_during:
  assumes d: "during s0 E S s" and f: "f < NFILE" "f \<notin> S"
  shows "wlp (filedup f) (\<lambda>g t. g = f \<and> during s0 (E(f := E f + 1)) S t) s"
proof -
  have "during s0 (E(f := E f + 1)) S (s\<lparr>ftable := (ftable s)(f := (ftable s f)\<lparr>f_ref := v_ref (files_of s) f + 1\<rparr>)\<rparr>)"
    if "\<not> v_ref (files_of s) f < 1"
    by (rule during_upd[OF d]) (use finv_dup[OF duringD(3)[OF d] f(1) that f(2)] in simp_all)
  then show ?thesis by (simp add: filedup_def wp_simps)
qed

lemma fileclose_during:
  assumes d: "during s0 E S s" and f: "f < NFILE"
  shows "wlp (fileclose f) (\<lambda>_. during s0 (E(f := E f - 1)) (S - {f})) s"
proof -
  let ?Q = "\<lambda>_. during s0 (E(f := E f - 1)) (S - {f})"
  have a: "during s0 (E(f := E f - 1)) (S - {f}) (s\<lparr>ftable := (ftable s)(f := (ftable s f)\<lparr>f_ref := v_ref (files_of s) f - 1\<rparr>)\<rparr>)"
    if "1 < v_ref (files_of s) f"
    by (rule during_upd[OF d]) (use finv_release[OF duringD(3)[OF d] f that] in simp_all)
  have b: "during s0 (E(f := E f - 1)) (S - {f}) (s\<lparr>ftable := (ftable s)(f := (ftable s f)\<lparr>f_ref := 0, f_type := FD_NONE\<rparr>)\<rparr>)"
    if "v_ref (files_of s) f = 1"
    by (rule during_upd[OF d]) (use finv_close[OF duringD(3)[OF d] f that] in simp_all)
  have c: "keeps kview (if f_type ff = FD_PIPE then file_pipeclose (f_pipe ff) (f_writable ff)
       else if f_type ff = FD_INODE then
         kbind (on_fs begin_trans) (\<lambda>_. kbind (on_fs (vop_ref_dec (f_ip ff))) (\<lambda>_. on_fs commit_trans))
       else kret ())" for ff :: file_t
    by (intro keeps_kview keeps_intros)
  consider "v_ref (files_of s) f < 1" | "1 < v_ref (files_of s) f" | "v_ref (files_of s) f = 1" by linarith
  then show ?thesis
  proof cases
    case 3
    then show ?thesis using during_keeps[OF c b[OF 3], of "ftable s f"] by (simp add: fileclose_def wp_simps)
  qed (use a in \<open>auto simp: fileclose_def wp_simps\<close>)
qed

lemma fset_during:
  assumes d: "during s0 E S s" and f: "f < NFILE" "f \<in> S" and g: "\<And>x. f_ref (g x) = f_ref x" "\<And>x. f_type (g x) = t" "t \<noteq> FD_NONE"
  shows "wlp (fset f g) (\<lambda>_. during s0 E (S - {f})) s"
proof -
  have "during s0 E (S - {f}) (s\<lparr>ftable := (ftable s)(f := g (ftable s f))\<rparr>)"
    by (rule during_upd[OF d]) (use finv_type[OF duringD(3)[OF d] f g(3)] g in simp_all)
  then show ?thesis by (simp add: wp_simps)
qed

lemma cur_during:
  assumes "during s0 E S s" "t_cpu (table s) (t_this (table s)) = Some p"
  shows "p < NPROC" "t_cpu (table s0) (t_this (table s0)) = Some p"
  using assms pt_okD(1) by (auto simp: during_def)

lemma slot_during:
  assumes d: "during s0 E S s" and c: "t_cpu (table s) (t_this (table s)) = Some p"
    and t: "table t = table s" "files_of t = put_slot p fd x (files_of s)" "finv E' S (files_of t)"
  shows "during s0 E' S t"
proof -
  have "v_file (files_of t) q = v_file (files_of s) q" if "q \<noteq> p" for q using t(2) that by simp
  then show ?thesis using d t(1,3) cur_during(2)[OF d c] unfolding during_def by auto
qed

lemma fdalloc_during:
  assumes d: "during s0 E S s" and f: "f < NFILE"
  shows "wlp (fdalloc f) (\<lambda>r t. case r of None \<Rightarrow> t = s
    | Some fd \<Rightarrow> fd < NOFILE \<and> during s0 (E(f := E f - 1)) S t \<and>
        (\<forall>p. t_cpu (table s0) (t_this (table s0)) = Some p \<longrightarrow> v_file (files_of t) p fd = Some f)) s" (is "wlp _ ?Q s")
proof -
  have "wlp (case r of None \<Rightarrow> kret None
      | Some fd \<Rightarrow> kbind (curset (\<lambda>x. x\<lparr>pr_ofile := (pr_ofile x)(fd := Some f)\<rparr>)) (\<lambda>_. kret (Some fd))) ?Q s"
    if c: "t_cpu (table s) (t_this (table s)) = Some p" and r: "r = find (\<lambda>fd. v_file (files_of s) p fd = None) [0..<NOFILE]" for p r
  proof (cases r)
    case (Some fd)
    then have fd: "fd < NOFILE" "v_file (files_of s) p fd = None" using find_below[of _ NOFILE fd] r by auto
    let ?t = "s\<lparr>ptab := (ptab s)(p := (ptab s p)\<lparr>pr_ofile := (v_file (files_of s) p)(fd := Some f)\<rparr>)\<rparr>"
    have t: "files_of ?t = put_slot p fd (Some f) (files_of s)" by (simp add: put_slot_def)
    have "during s0 (E(f := E f - 1)) S ?t"
      by (rule slot_during[OF d c _ t]) (use finv_put[OF duringD(3)[OF d] cur_during(1)[OF d c] fd f] in \<open>simp_all add: put_slot_def\<close>)
    then show ?thesis using Some fd c cur_during(2)[OF d c] by (simp add: curset_def wp_simps wlp_cur)
  qed (simp add: wp_simps)
  then show ?thesis by (simp add: fdalloc_def curget_def wp_simps wlp_cur)
qed

lemma clear_during:
  assumes d: "during s0 E S s" and fd: "fd < NOFILE" and p: "t_cpu (table s0) (t_this (table s0)) = Some p" "v_file (files_of s) p fd = Some f"
  shows "wlp (curset (\<lambda>x. x\<lparr>pr_ofile := (pr_ofile x)(fd := None)\<rparr>)) (\<lambda>_. during s0 (E(f := E f + 1)) S) s" "f < NFILE"
proof -
  have c: "t_cpu (table s) (t_this (table s)) = Some p" using p(1) duringD(1)[OF d] by simp
  note n = finv_take[OF duringD(3)[OF d] cur_during(1)[OF d c] fd p(2)]
  show "f < NFILE" using n(2) .
  let ?t = "s\<lparr>ptab := (ptab s)(p := (ptab s p)\<lparr>pr_ofile := (v_file (files_of s) p)(fd := None)\<rparr>)\<rparr>"
  have t: "files_of ?t = put_slot p fd None (files_of s)" by (simp add: put_slot_def)
  have "during s0 (E(f := E f + 1)) S ?t" by (rule slot_during[OF d c _ t]) (use n(1) in \<open>simp_all add: put_slot_def\<close>)
  then show "wlp (curset (\<lambda>x. x\<lparr>pr_ofile := (pr_ofile x)(fd := None)\<rparr>)) (\<lambda>_. during s0 (E(f := E f + 1)) S) s"
    using c by (simp add: curset_def wp_simps wlp_cur)
qed

section \<open>The invariant of the kernel\<close>

definition kernel_ok :: "kern \<Rightarrow> bool" where
  "kernel_ok s \<longleftrightarrow> pt_ok (table s) \<and> finv (\<lambda>_. 0) {} (files_of s) \<and>
     (\<forall>p<NPROC. \<forall>fd<NOFILE. idle (table s) p \<longrightarrow> v_file (files_of s) p fd = None)"

definition safe :: "(kern, 'a) prog \<Rightarrow> bool" where
  "safe m \<longleftrightarrow> (\<forall>s. kernel_ok s \<longrightarrow> wlp m (\<lambda>_. kernel_ok) s)"

named_theorems safe_intros \<open>programs that keep the invariant of the kernel\<close>

lemma safeD: "safe m \<Longrightarrow> kernel_ok s \<Longrightarrow> wlp m (\<lambda>_. kernel_ok) s"
  by (simp add: safe_def)

lemma safe_keeps: "keeps kview m \<Longrightarrow> safe m"
  by (auto simp: safe_def kernel_ok_def kview_def intro!: keeps_wlp)

lemma safe_atoms [safe_intros]: "safe (kret x)" "safe (kpanic e)" "safe kblock" "safe kdiverge"
  by (simp_all add: safe_def wp_simps)

lemma safe_kbind [safe_intros]: "safe m \<Longrightarrow> (\<And>x. safe (f x)) \<Longrightarrow> safe (kbind m f)"
  by (auto simp: safe_def wlp_kbind intro: wlp_mono)

lemma safe_if [safe_intros]: "safe m \<Longrightarrow> safe m' \<Longrightarrow> safe (if b then m else m')"
  by simp

lemma safe_option [safe_intros]: "safe m \<Longrightarrow> (\<And>x. safe (f x)) \<Longrightarrow> safe (case r of None \<Rightarrow> m | Some x \<Rightarrow> f x)"
  by (simp split: option.split)

lemma safe_prod [safe_intros]: "(\<And>x y. safe (f x y)) \<Longrightarrow> safe (case r of (x, y) \<Rightarrow> f x y)"
  by (simp split: prod.split)

lemma safe_Let [safe_intros]: "(\<And>x. safe (f x)) \<Longrightarrow> safe (let x = e in f x)"
  by simp

lemma zero_upd [simp]: "(\<lambda>_. 0 :: int)(f := 0) = (\<lambda>_. 0)"
  by auto

lemma kernel_during: "kernel_ok s \<Longrightarrow> during s (\<lambda>_. 0) {} s"
  by (simp add: kernel_ok_def during_def)

lemma during_kernel:
  assumes "kernel_ok s" "during s (\<lambda>_. 0) {} t"
  shows "kernel_ok t"
  unfolding kernel_ok_def
proof (intro conjI allI impI)
  fix p fd assume p: "p < NPROC" "fd < NOFILE" "idle (table t) p"
  then have "t_cpu (table s) (t_this (table s)) \<noteq> Some p"
    using pt_okD(1)[OF duringD(2)[OF assms(2)], of "t_this (table s)" p] duringD(1)[OF assms(2)] by (auto simp: idle_def)
  then show "v_file (files_of t) p fd = None" using assms p by (auto simp: kernel_ok_def during_def)
qed (use duringD[OF assms(2)] in simp_all)

lemma safe_during: "(\<And>s. during s (\<lambda>_. 0) {} s \<Longrightarrow> wlp m (\<lambda>_. during s (\<lambda>_. 0) {}) s) \<Longrightarrow> safe m"
  by (auto simp: safe_def intro: wlp_mono kernel_during during_kernel)

section \<open>Arguments\<close>

lemma keeps_uld8 [keeps_intros]: "keeps v (uld8 va)"
  unfolding uld8_def upage_def by (intro keeps_intros)

lemma keeps_kview_on [keeps_intros]: "keeps kview (on_fs m)" "keeps kview (on_mem m')"
  by (intro keeps_kview keeps_intros)+

lemma keeps_ust8 [keeps_intros]: "keeps kview (ust8 va c)"
  unfolding ust8_def upage_def by (intro keeps_intros)

lemma keeps_uread [keeps_intros]: "keeps v (uread n va)"
  by (induction n arbitrary: va) (auto intro!: keeps_intros)

lemma keeps_uwrite [keeps_intros]: "keeps kview (uwrite va cs)"
  by (induction cs arbitrary: va) (auto intro!: keeps_intros)

lemma keeps_fetchstr_from [keeps_intros]: "keeps v (fetchstr_from n va)"
  by (induction n arbitrary: va) (auto intro!: keeps_intros)

lemma keeps_args [keeps_intros]:
  "keeps v (fetchint a)" "keeps v (fetchstr a)" "keeps v (argint n)" "keeps v (argptr n k)" "keeps v (argstr n)"
  unfolding argptr_def argstr_def argint_def fetchint_def fetchstr_def by (intro keeps_intros)+

lemma keeps_argfd [keeps_intros]: "keeps v (argfd n)"
  unfolding argfd_def by (intro keeps_intros)

lemma argfd_file:
  "wlp (argfd n) (\<lambda>r t. kview t = kview s \<and> (\<forall>fd f. r = Some (fd, f) \<longrightarrow> fd < NOFILE \<and>
     (\<exists>p. t_cpu (table t) (t_this (table t)) = Some p \<and> v_file (files_of t) p fd = Some f))) s"
  unfolding argfd_def
proof (rule keeps_bind[of kview, OF keeps_args(3)])
  fix r t assume "kview t = kview s"
  then show "wlp (case r of None \<Rightarrow> kret None
     | Some w \<Rightarrow> let fd = sint w in
         if fd < 0 \<or> fd \<ge> int NOFILE then kret None
         else kbind (curget (\<lambda>x. pr_ofile x (nat fd))) (\<lambda>r. kret (map_option (Pair (nat fd)) r)))
     (\<lambda>r t. kview t = kview s \<and> (\<forall>fd f. r = Some (fd, f) \<longrightarrow> fd < NOFILE \<and>
     (\<exists>p. t_cpu (table t) (t_this (table t)) = Some p \<and> v_file (files_of t) p fd = Some f))) t"
    by (auto simp: wp_simps curget_def wlp_cur Let_def split: option.split)
qed

lemma during_view: "during s0 E S t \<Longrightarrow> kview u = kview t \<Longrightarrow> during s0 E S u"
  by (simp add: during_def kview_def)

lemma argfd_bind:
  assumes d: "during s0 E S s" and n: "\<And>t. during s0 E S t \<Longrightarrow> wlp (f None) Q t"
    and y: "\<And>t p fd g. during s0 E S t \<Longrightarrow> t_cpu (table s0) (t_this (table s0)) = Some p \<Longrightarrow> fd < NOFILE \<Longrightarrow>
      v_file (files_of t) p fd = Some g \<Longrightarrow> g < NFILE \<Longrightarrow> wlp (f (Some (fd, g))) Q t"
  shows "wlp (kbind (argfd k) f) Q s"
proof (rule wlp_bind[OF argfd_file], goal_cases)
  case (1 r t)
  then have dt: "during s0 E S t" using d by (auto intro: during_view)
  show ?case
  proof (cases r)
    case (Some a)
    obtain fd g p where a: "a = (fd, g)" "fd < NOFILE" "t_cpu (table s0) (t_this (table s0)) = Some p" "v_file (files_of t) p fd = Some g"
      using 1 Some duringD(1)[OF dt] by (cases a) auto
    then show ?thesis using y[OF dt a(3,2,4) clear_during(2)[OF dt a(2,3,4)]] Some by simp
  qed (use n[OF dt] in simp)
qed

end
