(* ===== verification/Sysfile_Inv.thy ===== *)
theory Sysfile_Inv
  imports File_Refs
begin

text \<open>
  Every system call on files keeps the invariant of the kernel, on each of its paths: what it allocates it releases again
  when it fails, and a descriptor never refers to a file without a reference.
\<close>

section \<open>Descriptors\<close>

lemma fdalloc_bind:
  assumes d: "during s0 E S s" and g: "g < NFILE" and n: "wlp (f None) Q s"
    and y: "\<And>t fd. fd < NOFILE \<Longrightarrow> during s0 (E(g := E g - 1)) S t \<Longrightarrow>
      \<forall>p. t_cpu (table s0) (t_this (table s0)) = Some p \<longrightarrow> v_file (files_of t) p fd = Some g \<Longrightarrow> wlp (f (Some fd)) Q t"
  shows "wlp (kbind (fdalloc g) f) Q s"
  by (rule wlp_bind[OF fdalloc_during[OF d g]]) (use n y in \<open>auto split: option.splits\<close>)

lemma filealloc_bind:
  assumes d: "during s0 E S s" and n: "\<And>t. during s0 E S t \<Longrightarrow> wlp (f None) Q t"
    and y: "\<And>t g. g < NFILE \<Longrightarrow> g \<notin> S \<Longrightarrow> during s0 (E(g := E g + 1)) (insert g S) t \<Longrightarrow> wlp (f (Some g)) Q t"
  shows "wlp (kbind filealloc f) Q s"
  by (rule wlp_bind[OF filealloc_during[OF d]]) (use n y in \<open>auto split: option.splits\<close>)

lemma fileclose_bind:
  assumes "during s0 E S s" "g < NFILE" "\<And>t. during s0 (E(g := E g - 1)) (S - {g}) t \<Longrightarrow> wlp (f ()) Q t"
  shows "wlp (kbind (fileclose g) f) Q s"
  by (rule wlp_bind[OF fileclose_during[OF assms(1,2)]]) (use assms(3) in auto)

lemma keeps_during_bind:
  assumes "keeps kview m" "during s0 E S s" "\<And>x t. during s0 E S t \<Longrightarrow> wlp (f x) Q t"
  shows "wlp (kbind m f) Q s"
  by (rule wlp_bind[OF during_keeps[OF assms(1,2)]]) (use assms(3) in auto)

lemma during_eq: "during s0 E S t \<Longrightarrow> (\<And>f. E f = E' f) \<Longrightarrow> S = S' \<Longrightarrow> during s0 E' S' t"
  by (metis ext)

lemma if_wlp: "(b \<Longrightarrow> wlp m Q s) \<Longrightarrow> (\<not> b \<Longrightarrow> wlp m' Q s) \<Longrightarrow> wlp (if b then m else m') Q s"
  by simp

lemma sys_dup_safe [safe_intros]: "safe sys_dup"
  unfolding sys_dup_def
proof (rule safe_during, erule argfd_bind, goal_cases)
  case (2 s t p fd g)
  have "wlp (kbind (filedup g) (\<lambda>_. kret (int fd))) (\<lambda>_. during s (\<lambda>_. 0) {}) u" if "during s ((\<lambda>_. 0)(g := - 1)) {} u" for fd u
    using filedup_during[OF that 2(5)] by (auto simp: wp_simps elim: wlp_mono)
  then show ?case unfolding option.case prod.case using 2 by (intro fdalloc_bind[OF 2(1,5)]) (simp_all add: wlp_kret)
qed (simp add: wp_simps)

lemma sys_close_safe [safe_intros]: "safe sys_close"
  unfolding sys_close_def
proof (rule safe_during, erule argfd_bind, goal_cases)
  case (2 s t p fd g)
  show ?case unfolding option.case prod.case
    by (rule wlp_bind[OF clear_during(1)[OF 2(1,3,2,4)]], rule fileclose_bind[OF _ 2(5)], assumption)
      (auto simp: wlp_kret elim!: during_eq)
qed (simp add: wp_simps)

lemma pipe_file_type: "f_ref (pipe_file p w x) = f_ref x" "f_type (pipe_file p w x) = FD_PIPE"
  by (simp_all add: pipe_file_def)

lemma pipealloc_during:
  assumes d: "during s0 (\<lambda>_. 0) {} s"
  shows "wlp pipealloc (\<lambda>r t. case r of None \<Rightarrow> during s0 (\<lambda>_. 0) {} t
    | Some (f, g) \<Rightarrow> f < NFILE \<and> g < NFILE \<and> f \<noteq> g \<and> during s0 ((\<lambda>_. 0)(f := 1, g := 1)) {} t) s" (is "wlp _ ?Q s")
  unfolding pipealloc_def
proof (rule filealloc_bind[OF d], goal_cases)
  case (2 t f)
  show ?case unfolding option.case
  proof (rule filealloc_bind[OF 2(3)], goal_cases)
    case (1 t)
    then show ?case unfolding option.case by (rule fileclose_bind[OF _ 2(1)]) (auto simp: wlp_kret elim!: during_eq)
  next
    case g: (2 u g)
    let ?E = "(\<lambda>_. 0)(f := 1, g := 1) :: nat \<Rightarrow> int"
    have d: "during s0 ?E {f, g} u" and fg: "f \<noteq> g" using g(2,3) by (auto elim!: during_eq)
    have fail: "wlp (kbind (fileclose f) (\<lambda>_. kbind (fileclose g) (\<lambda>_. kret None))) ?Q t" if t: "during s0 ?E {f, g} t" for t
      by (rule fileclose_bind[OF t 2(1)], rule fileclose_bind[OF _ g(1)], assumption) (use fg in \<open>auto simp: wlp_kret elim!: during_eq\<close>)
    have typed: "wlp (kbind (fset f (pipe_file p False)) (\<lambda>_. kbind (fset g (pipe_file p True)) (\<lambda>_. kret (Some (f, g))))) ?Q t"
      if t: "during s0 ?E {f, g} t" for t p
      by (rule wlp_bind[OF fset_during[OF t 2(1) _ pipe_file_type]], simp_all, rule wlp_bind[OF fset_during[OF _ g(1) _ pipe_file_type]], assumption)
        (use fg 2(1) g(1) in \<open>auto simp: wlp_kret elim!: during_eq\<close>)
    show ?case unfolding option.case
      by (rule keeps_during_bind[OF keeps_kview_on(2) d], rule if_wlp, rule fail, assumption,
          rule kget_bind, rule keeps_during_bind[OF _ _ typed]) (auto intro: keeps_kview keeps_intros)
  qed
qed (simp add: wp_simps)

lemma keeps_write_fds: "keeps kview (kbind (uwrite a bs) (\<lambda>_. kbind (uwrite b cs) (\<lambda>_. kret x)))"
  by (intro keeps_intros)

lemma sys_pipe_safe [safe_intros]: "safe sys_pipe"
  unfolding sys_pipe_def
proof (rule safe_during, erule keeps_during_bind[OF keeps_args(4)], goal_cases)
  case (1 s r t)
  have fail: "wlp (kbind (fileclose f) (\<lambda>_. kbind (fileclose g) (\<lambda>_. kret (- 1)))) (\<lambda>_. during s (\<lambda>_. 0) {}) u"
    if u: "during s ((\<lambda>_. 0)(f := 1, g := 1)) {} u" "f < NFILE" "g < NFILE" "f \<noteq> g" for f g u
    by (rule fileclose_bind[OF u(1,2)], rule fileclose_bind[OF _ u(3)], assumption) (use u(4) in \<open>auto simp: wlp_kret elim!: during_eq\<close>)
  show ?case
  proof (cases r)
    case (Some a)
    show ?thesis unfolding Some option.case
    proof (rule wlp_bind[OF pipealloc_during[OF 1]], goal_cases)
      case (1 r u)
      show ?case
      proof (cases r)
        case (Some fg)
        obtain f g where fg: "fg = (f, g)" by (cases fg)
        have u: "during s ((\<lambda>_. 0)(f := 1, g := 1)) {} u" "f < NFILE" "g < NFILE" "f \<noteq> g" using 1 Some fg by auto
        show ?thesis unfolding Some fg option.case prod.case
        proof (rule fdalloc_bind[OF u(1,2)], unfold option.case, rule fail[OF u], goal_cases)
          case w: (1 w fd)
          have c: "wlp (kbind (curset (\<lambda>x. x\<lparr>pr_ofile := (pr_ofile x)(fd := None)\<rparr>)) (\<lambda>_.
              kbind (fileclose f) (\<lambda>_. kbind (fileclose g) (\<lambda>_. kret (- 1))))) (\<lambda>_. during s (\<lambda>_. 0) {}) w"
          proof (cases "t_cpu (table s) (t_this (table s))")
            case None
            then show ?thesis using duringD(1)[OF w(2)] by (simp add: curset_def wp_simps wlp_cur)
          next
            case (Some p)
            have v: "v_file (files_of w) p fd = Some f" using w(3) Some by simp
            show ?thesis by (rule wlp_bind[OF clear_during(1)[OF w(2,1) Some v]], rule fail[OF _ u(2-4)]) (erule during_eq; simp)
          qed
          show ?case
            by (rule fdalloc_bind[OF w(2) u(3)], unfold option.case, rule c, rule wlp_mono[OF during_keeps[OF keeps_write_fds]], assumption)
              (use u(4) in \<open>auto elim!: during_eq\<close>)
        qed
      qed (use 1 in \<open>simp add: wp_simps\<close>)
    qed
  qed (use 1 in \<open>simp add: wp_simps\<close>)
qed

lemma inode_file_type: "f_ref (inode_file ip m x) = f_ref x" "f_type (inode_file ip m x) = FD_INODE"
  by (simp_all add: inode_file_def)

lemma open_file_safe [safe_intros]: "safe (open_file ip omode)"
  unfolding open_file_def
proof (rule safe_during, erule filealloc_bind, goal_cases)
  case (1 s t)
  then show ?case unfolding option.case by (rule keeps_during_bind[OF keeps_kview_on(1)]) (simp add: wlp_kret)
next
  case (2 s t f)
  have "wlp (kbind (fileclose f) (\<lambda>_. kbind (on_fs (vop_iunlockput ip)) (\<lambda>_. kret (- 1)))) (\<lambda>_. during s (\<lambda>_. 0) {}) t"
    by (rule fileclose_bind[OF 2(3,1)], rule keeps_during_bind[OF keeps_kview_on(1)], assumption) (auto simp: wlp_kret elim!: during_eq)
  moreover have "wlp (kbind (on_fs (vop_iunlock ip)) (\<lambda>_. kbind (fset f (inode_file ip omode)) (\<lambda>_. kret (int fd)))) (\<lambda>_. during s (\<lambda>_. 0) {}) u"
    if u: "during s ((\<lambda>_. 0)(f := 0)) {f} u" for u fd
    by (rule keeps_during_bind[OF keeps_kview_on(1) u], rule wlp_bind[OF fset_during[OF _ 2(1) _ inode_file_type]], assumption)
      (auto simp: wlp_kret elim!: during_eq)
  ultimately show ?case unfolding option.case by (intro fdalloc_bind[OF 2(3,1)]) (auto elim!: during_eq)
qed

section \<open>Calls that leave tables and descriptors alone\<close>

lemma keeps_kview_pset [keeps_intros]:
  assumes "\<And>x. pr_state (f x) = pr_state x" "\<And>x. pr_pid (f x) = pr_pid x" "\<And>x. pr_parent (f x) = pr_parent x" "\<And>x. pr_chan (f x) = pr_chan x"
    "\<And>x. pr_ofile (f x) = pr_ofile x"
  shows "keeps kview (pset p f)" "keeps kview (curset f)"
  using assms by (auto simp: curset_def intro!: keeps_intros keeps_kview)

lemma keeps_kview_as_cur [keeps_intros]: "keeps kview m \<Longrightarrow> keeps kview (as_cur m)"
  unfolding as_cur_def by (intro keeps_intros keeps_kmod) (auto simp: kview_def)

lemma keeps_kview_fset [keeps_intros]:
  "(\<And>x. f_ref (g x) = f_ref x) \<Longrightarrow> (\<And>x. f_type (g x) = f_type x) \<Longrightarrow> keeps kview (fset f g)"
  by (intro keeps_kview keeps_intros)

lemma keeps_kview_pipe [keeps_intros]: "keeps kview (file_piperead p n)" "keeps kview (file_pipewrite p src n)"
  by (intro keeps_kview keeps_intros)+

lemma keeps_file_io [keeps_intros]: "keeps kview (fileread f n)" "keeps kview (filestat f)"
  unfolding fileread_def filestat_def by (intro keeps_intros; simp)+

lemma keeps_filewrite_loop [keeps_intros]: "keeps kview (filewrite_loop n f src i)"
  by (induction n arbitrary: i) (auto simp: file_chunk_def intro!: keeps_intros)

lemma keeps_filewrite [keeps_intros]: "keeps kview (filewrite f src n)"
  unfolding filewrite_def by (intro keeps_intros)

lemma keeps_paths [keeps_intros]: "keeps kview (lookup path)" "keeps kview (lookup_parent path)"
  unfolding lookup_def lookup_parent_def by (intro keeps_intros)+

lemma keeps_create [keeps_intros]: "keeps kview (create path ty ma mi)" "keeps kview (create_node path ty ma mi)" "keeps kview commit_fail"
  unfolding create_def create_node_def commit_fail_def by (intro keeps_intros)+

lemma keeps_open_inode [keeps_intros]: "keeps kview (open_inode path m)"
  unfolding open_inode_def by (intro keeps_intros)

lemma keeps_put_changed [keeps_intros]: "keeps kview (put_changed n va b b')"
  by (induction n) (auto intro!: keeps_intros)

lemma keeps_calls [keeps_intros]:
  "keeps kview sys_read" "keeps kview sys_write" "keeps kview sys_fstat" "keeps kview sys_link" "keeps kview sys_unlink"
  "keeps kview sys_mkdir" "keeps kview sys_mknod" "keeps kview sys_touch" "keeps kview sys_rmdir" "keeps kview sys_find" "keeps kview sys_getcwd"
  unfolding sys_read_def sys_write_def sys_fstat_def sys_link_def sys_unlink_def sys_mkdir_def sys_mknod_def sys_touch_def
    sys_rmdir_def sys_find_def sys_getcwd_def arg_file_buf_def put_stat_def
  by (intro keeps_intros)+

lemma keeps_chdir [keeps_intros]: "keeps kview sys_chdir"
  unfolding sys_chdir_def by (intro keeps_intros) simp_all

lemma keeps_memfs [keeps_intros]: "keeps kview (on_memfs m)"
  unfolding on_memfs_def by (rule keeps_zoom) (simp add: kview_def)

lemma keeps_switchuvm [keeps_intros]: "keeps kview (switchuvm p)"
  unfolding switchuvm_def by (intro keeps_intros keeps_kmod) (simp_all add: kview_def)

lemma keeps_exec_args [keeps_intros]: "keeps kview (exec_args pgdir args argc st)"
  by (induction args arbitrary: argc st) (auto simp: exec_push_def intro!: keeps_intros)

lemma keeps_exec_parts [keeps_intros]:
  "keeps kview (exec_header ip)" "keeps kview (exec_segment pgdir ip off i sz)" "keeps kview (exec_stack pgdir sz args)" "keeps kview (exec_bad pgdir r)"
  unfolding exec_header_def exec_segment_def exec_stack_def exec_bad_def by (intro keeps_intros)+

lemma keeps_exec [keeps_intros]: "keeps kview (exec path argv)"
  unfolding exec_def exec_commit_def by (intro keeps_intros) simp_all

lemma keeps_fetch_argv [keeps_intros]: "keeps kview (fetch_argv n a)"
  by (induction n arbitrary: a) (auto intro!: keeps_intros)

lemma keeps_sys_exec [keeps_intros]: "keeps kview sys_exec"
  unfolding sys_exec_def by (intro keeps_intros)

lemma keeps_growproc [keeps_intros]: "keeps kview (growproc n)"
  unfolding growproc_def Let_def by (intro keeps_intros) simp_all

lemma keeps_strings [keeps_intros]: "keeps kview (name_start n a p)" "keeps kview (append_name n d p)" "keeps kview (read_cstr n p)"
  by (induction n arbitrary: p d) (auto intro!: keeps_intros)

lemma keeps_copy [keeps_intros]: "keeps kview (copy_node sp ss sn dp ds t)" "keeps kview copy_args"
  unfolding copy_node_def temp_dest_def extend_dest_def copy_args_def by (intro keeps_intros)+

lemma keeps_copy_calls [keeps_intros]: "keeps kview sys_copy" "keeps kview sys_move"
  unfolding sys_copy_def sys_move_def by (intro keeps_intros)+

section \<open>Open and remove\<close>

lemma keeps_sb [keeps_intros]: "keeps kview (sb_unlink path)" "keeps kview (sb_fstat fd)" "keeps kview (sb_read fd n)" "keeps kview (remove_target ip)"
  unfolding sb_unlink_def sb_fstat_def sb_read_def remove_target_def by (intro keeps_intros)+

lemmas safe_parts [safe_intros] = keeps_sb[THEN safe_keeps] keeps_args[THEN safe_keeps] keeps_paths[THEN safe_keeps]
  keeps_create[THEN safe_keeps] keeps_open_inode[THEN safe_keeps] keeps_kview_on[THEN safe_keeps]

lemma open_safe [safe_intros]: "safe (sb_open path m)" "safe sys_open"
  unfolding sb_open_def sys_open_def by (intro safe_intros)+

lemma remove_entries_safe [safe_intros]: "(\<And>p. safe (rm p)) \<Longrightarrow> safe (remove_entries n ended fd base self rm)"
  by (induction n) (auto intro!: safe_intros)

lemma remove_tree_safe [safe_intros]: "(\<And>p. safe (rm p)) \<Longrightarrow> safe (remove_tree ended path base self ty rm)"
  unfolding remove_tree_def by (intro safe_intros)

lemma sb_remove_safe [safe_intros]: "safe (sb_remove n path)"
  by (induction n arbitrary: path) (auto intro!: safe_intros)

lemma sys_remove_safe [safe_intros]: "safe sys_remove"
  unfolding sys_remove_def by (intro safe_intros)

end
