(* ===== verification/Proc_Files.thy ===== *)
theory Proc_Files
  imports Sysfile_Inv
begin

text \<open>
  Processes and the files they hold: \<open>fork\<close> shares the files of the parent, \<open>exit\<close> closes those of the process, and every
  function of \<^verbatim>\<open>proc.c\<close> keeps the invariant of the kernel.
\<close>

lemma keeps_files_alloc [keeps_intros]: "keeps files_of allocproc"
  unfolding allocproc_def next_pid_def by (intro keeps_intros keeps_kmod) simp_all

lemma keeps_files_curset [keeps_intros]: "(\<And>x. pr_ofile (f x) = pr_ofile x) \<Longrightarrow> keeps files_of (curset f)"
  unfolding curset_def by (intro keeps_intros)

lemma keeps_files_sched [keeps_intros]: "keeps files_of (sched c)" "keeps files_of (wakeup1 ch)"
  unfolding sched_def wakeup1_def by (intro keeps_intros keeps_kmod; simp)+

lemma keeps_files_abandon [keeps_intros]: "keeps files_of (abandon p q)"
  unfolding abandon_def by (intro keeps_intros) simp_all

lemma keeps_files_switchuvm [keeps_intros]: "keeps files_of (switchuvm p)"
  unfolding switchuvm_def by (intro keeps_intros keeps_kmod) simp_all

lemma keeps_files_resume [keeps_intros]: "keeps files_of (resume p)"
proof -
  have "keeps files_of forkret" unfolding forkret_def by (intro keeps_intros keeps_kmod) simp_all
  then show ?thesis unfolding resume_def by (intro keeps_intros) (auto split: kcontext.split intro!: keeps_intros)
qed

lemma keeps_files_procs [keeps_intros]:
  "keeps files_of yield" "keeps files_of (sleep c)" "keeps files_of (wakeup c)" "keeps files_of (run_proc p)" "keeps files_of (kill pid)"
  unfolding yield_def sleep_def wakeup_def run_proc_def kill_def by (intro keeps_intros keeps_kmod; simp)+

lemma keeps_files_wait [keeps_intros]: "keeps files_of wait"
  unfolding wait_def wait_scan_def reap_def by (intro keeps_intros) simp_all

text \<open>A function that keeps the files and goes by the state machine keeps the invariant.\<close>

lemma steps_ok:
  assumes ok: "kernel_ok s" and f: "keeps files_of m" and t: "wlp m (\<lambda>_ t. tsteps (table s) (table t)) s"
  shows "wlp m (\<lambda>_. kernel_ok) s"
proof (rule wlp_mono[OF wlp_conj[OF keepsD[OF f] t]])
  fix t assume t: "files_of t = files_of s \<and> tsteps (table s) (table t)"
  then show "kernel_ok t" using ok pt_ok_steps[of "table s" "table t"] idle_steps[of "table s" "table t"] by (auto simp: kernel_ok_def)
qed

lemma procs_safe [safe_intros]: "safe yield" "safe (wakeup c)" "safe (kill pid)" "safe wait"
  unfolding safe_def
  by (auto intro!: steps_ok keeps_intros yield_steps wakeup_steps kill_steps wait_steps)

lemma sleep_object_safe: "(\<And>p. c \<noteq> On_proc p) \<Longrightarrow> safe (sleep c)"
  unfolding safe_def by (auto intro!: steps_ok keeps_intros sleep_steps)

lemma run_proc_kernel: "kernel_ok s \<Longrightarrow> cpu_proc s (this_cpu s) = None \<Longrightarrow> p < NPROC \<Longrightarrow> wlp (run_proc p) (\<lambda>_. kernel_ok) s"
  by (intro steps_ok keeps_intros run_proc_steps)

section \<open>Exit\<close>

lemma keeps_comp: "keeps v m \<Longrightarrow> keeps (\<lambda>s. w (v s)) m"
  unfolding keeps_def by (intro allI, rule wlp_mono, erule spec) simp

lemma keeps_slots [keeps_intros]:
  "keeps (\<lambda>s. v_file (files_of s)) (fileclose f)" "keeps (\<lambda>s. v_file (files_of s)) (filedup f)"
proof -
  have a: "keeps (\<lambda>s. v_file (files_of s)) (fset f g)" for g by (auto simp: fset_def intro!: keeps_kmod)
  note k = keeps_files_on(1)[THEN keeps_comp[of _ _ v_file]] keeps_files_pipe_ops(1)[THEN keeps_comp[of _ _ v_file]]
  show "keeps (\<lambda>s. v_file (files_of s)) (fileclose f)" "keeps (\<lambda>s. v_file (files_of s)) (filedup f)"
    unfolding fileclose_def filedup_def by (intro keeps_intros a k)+
qed

lemma close_files:
  assumes d: "during s (\<lambda>_. 0) {} s" and p: "t_cpu (table s) (t_this (table s)) = Some p"
  shows "wlp (kfor 0 NOFILE (close_file p)) (\<lambda>_ t. during s (\<lambda>_. 0) {} t \<and> (\<forall>fd<NOFILE. v_file (files_of t) p fd = None)) s"
proof -
  let ?I = "\<lambda>i t. during s (\<lambda>_. 0) {} t \<and> (\<forall>fd<i. v_file (files_of t) p fd = None)"
  have "wlp (kfor 0 NOFILE (close_file p)) (\<lambda>_. ?I (0 + NOFILE)) s"
  proof (rule wlp_kfor)
    fix i t assume i: "i < 0 + NOFILE" and I: "?I i t"
    then have dt: "during s (\<lambda>_. 0) {} t" and c: "t_cpu (table t) (t_this (table t)) = Some p" using p duringD(1)[of s _ _ t] by auto
    show "wlp (close_file p i) (\<lambda>_. ?I (Suc i)) t"
    proof (cases "v_file (files_of t) p i")
      case None
      then show ?thesis using I by (auto simp: close_file_def wp_simps less_Suc_eq)
    next
      case (Some f)
      have iN: "i < NOFILE" using i by simp
      note f = finv_take(2)[OF duringD(3)[OF dt] cur_during(1)[OF dt c] iN Some]
      have "wlp (fileclose f) (\<lambda>_ u. during s ((\<lambda>_. 0)(f := - 1)) {} u \<and> v_file (files_of u) = v_file (files_of t)) t"
        using wlp_conj[OF fileclose_during[OF dt f] keepsD[OF keeps_slots(1)]] by simp
      moreover have "?I (Suc i) (u\<lparr>ptab := (ptab u)(p := (ptab u p)\<lparr>pr_ofile := (v_file (files_of u) p)(i := None)\<rparr>)\<rparr>)"
        if u: "during s ((\<lambda>_. 0)(f := - 1)) {} u" "v_file (files_of u) = v_file (files_of t)" for u
      proof -
        have cu: "t_cpu (table u) (t_this (table u)) = Some p" using p duringD(1)[OF u(1)] by simp
        have "finv (\<lambda>_. 0) {} (put_slot p i None (files_of u))"
          using finv_take(1)[OF duringD(3)[OF u(1)] cur_during(1)[OF u(1) cu] iN, of f] Some u(2) by simp
        then show ?thesis using I u(2) slot_during[OF u(1) cu] by (auto simp: put_slot_def less_Suc_eq)
      qed
      ultimately show ?thesis using Some by (auto simp: close_file_def wp_simps elim!: wlp_mono)
    qed
  qed (use d in simp)
  then show ?thesis by simp
qed

lemma kexit_safe [safe_intros]: "safe kexit"
  unfolding safe_def
proof (intro allI impI)
  fix s assume ok: "kernel_ok s"
  let ?P = "\<lambda>_ t. finv (\<lambda>_. 0) {} (files_of t) \<and> (\<forall>p. t_cpu (table s) (t_this (table s)) = Some p \<longrightarrow>
    (\<forall>fd<NOFILE. v_file (files_of t) p fd = None) \<and> (\<forall>q. q \<noteq> p \<longrightarrow> v_file (files_of t) q = v_file (files_of s) q))"
  have "wlp kexit ?P s"
    unfolding kexit_def
  proof (rule cur_bind, rule kget_bind, rule if_wlp)
    fix p assume "cpu_proc s (this_cpu s) = Some p"
    then have p: "t_cpu (table s) (t_this (table s)) = Some p" by simp
    have "keeps files_of (kbind (pget p pr_cwd) (\<lambda>c. kbind (nonnull c) (\<lambda>c.
       kbind (on_fs (vop_ref_dec c)) (\<lambda>_.
       kbind (pset p (\<lambda>x. x\<lparr>pr_cwd := None\<rparr>)) (\<lambda>_.
       kbind (pget p pr_parent) (\<lambda>q.
       kbind (wakeup1 (map_option On_proc q)) (\<lambda>_.
       kbind (kfor 0 NPROC (abandon p)) (\<lambda>_.
       kbind (pset p (\<lambda>x. x\<lparr>pr_state := ZOMBIE\<rparr>)) (\<lambda>_. sched At_exit)))))))))" (is "keeps _ ?rest")
      by (intro keeps_intros) simp_all
    then show "wlp (kbind (kfor 0 NOFILE (close_file p)) (\<lambda>_. ?rest)) ?P s"
      by (intro wlp_bind[OF close_files[OF kernel_during[OF ok] p]] keeps_wlp[of files_of]) (use p in \<open>auto simp: during_def\<close>)
  qed (simp add: wp_simps)
  moreover have "wlp kexit (\<lambda>_ t. texit (table s) (table t)) s" using ok by (intro kexit_exits) (simp add: kernel_ok_def)
  ultimately show "wlp kexit (\<lambda>_. kernel_ok) s"
  proof (rule wlp_mono[OF wlp_conj])
    fix t assume t: "?P () t \<and> texit (table s) (table t)"
    have "v_file (files_of t) q fd = None" if q: "q < NPROC" "fd < NOFILE" "idle (table t) q" for q fd
    proof (cases "t_cpu (table s) (t_this (table s)) = Some q")
      case False
      obtain p where "t_cpu (table s) (t_this (table s)) = Some p" using t by (auto elim: texit.cases)
      moreover have "idle (table s) q" using idle_texit[of "table s" "table t" q] t q False by blast
      ultimately show ?thesis using t False q ok by (auto simp: kernel_ok_def)
    qed (use t q in auto)
    then show "kernel_ok t" using t ok pt_ok_texit[of "table s" "table t"] by (simp add: kernel_ok_def)
  qed
qed

section \<open>Fork\<close>

lemma files_of_both [simp]: "files_of (s\<lparr>ftable := a, ptab := (ptab s)(p := y)\<rparr>) =
    (files_of (s\<lparr>ftable := a\<rparr>))\<lparr>v_file := (v_file (files_of s))(p := pr_ofile y)\<rparr>"
  by (auto simp: files_of_def fun_eq_iff simp del: to_files)

lemma dup_files:
  assumes i: "finv (\<lambda>_. 0) {} (files_of s)" and p: "p < NPROC" "np < NPROC" "p \<noteq> np" and n: "\<forall>fd<NOFILE. v_file (files_of s) np fd = None"
  shows "wlp (kfor 0 NOFILE (dup_file p np)) (\<lambda>_ t. finv (\<lambda>_. 0) {} (files_of t) \<and> (\<forall>q. q \<noteq> np \<longrightarrow> v_file (files_of t) q = v_file (files_of s) q)) s"
proof -
  let ?I = "\<lambda>i t. finv (\<lambda>_. 0) {} (files_of t) \<and> (\<forall>q. q \<noteq> np \<longrightarrow> v_file (files_of t) q = v_file (files_of s) q) \<and>
    (\<forall>fd. i \<le> fd \<and> fd < NOFILE \<longrightarrow> v_file (files_of t) np fd = None)"
  have "wlp (kfor 0 NOFILE (dup_file p np)) (\<lambda>_. ?I (0 + NOFILE)) s"
  proof (rule wlp_kfor)
    fix k t assume k: "k < 0 + NOFILE" and I: "?I k t"
    show "wlp (dup_file p np k) (\<lambda>_. ?I (Suc k)) t"
    proof (cases "v_file (files_of t) p k")
      case (Some f)
      have kN: "k < NOFILE" "v_file (files_of t) np k = None" and fi: "finv (\<lambda>_. 0) {} (files_of t)" using k I by auto
      have f: "f < NFILE" using finv_take(2)[OF fi p(1) kN(1) Some] .
      let ?u = "t\<lparr>ftable := (ftable t)(f := (ftable t f)\<lparr>f_ref := v_ref (files_of t) f + 1\<rparr>)\<rparr>"
      have "?I (Suc k) (?u\<lparr>ptab := (ptab ?u)(np := (ptab ?u np)\<lparr>pr_ofile := (v_file (files_of t) np)(k := Some f)\<rparr>)\<rparr>)" if r: "\<not> v_ref (files_of t) f < 1"
      proof -
        have "finv ((\<lambda>_. 0)(f := 1)) {} (files_of ?u)" using finv_dup[OF fi f r] by simp
        from finv_put[OF this p(2) kN(1) _ f] have "finv (\<lambda>_. 0) {} (put_slot np k (Some f) (files_of ?u))" using kN by simp
        then show ?thesis using I by (auto simp: put_slot_def)
      qed
      then show ?thesis using Some by (auto simp: dup_file_def filedup_def wp_simps)
    qed (use I in \<open>auto simp: dup_file_def wp_simps\<close>)
  qed (use i n in auto)
  then show ?thesis by (rule wlp_mono) auto
qed

lemma allocproc_slot:
  "wlp allocproc (\<lambda>r t. files_of t = files_of s \<and> t_cpu (table t) = t_cpu (table s) \<and> t_this (table t) = t_this (table s) \<and>
    (\<forall>np. r = Some np \<longrightarrow> np < NPROC \<and> t_state (table s) np = UNUSED \<and> t_state (table t) np = EMBRYO)) s"
  using wlp_conj[OF keepsD[OF keeps_files_alloc] allocproc_steps] by (rule wlp_mono) auto

lemma fork_files:
  assumes ok: "kernel_ok s"
  shows "wlp fork (\<lambda>_ t. finv (\<lambda>_. 0) {} (files_of t) \<and> (\<forall>q. idle (table t) q \<longrightarrow> v_file (files_of t) q = v_file (files_of s) q)) s"
    (is "wlp _ ?P s")
  unfolding fork_def
proof (rule wlp_bind[OF allocproc_slot], goal_cases)
  case (1 r t)
  show ?case
  proof (cases r)
    case None
    then show ?thesis using 1 ok by (simp add: wp_simps kernel_ok_def)
  next
    case (Some np)
    then have np: "np < NPROC" "t_state (table s) np = UNUSED" "\<forall>fd<NOFILE. v_file (files_of t) np fd = None" "files_of t = files_of s" "finv (\<lambda>_. 0) {} (files_of t)"
      using 1 ok by (auto simp: kernel_ok_def idle_def)
    have share: "wlp (kbind (kfor 0 NOFILE (dup_file p np)) (\<lambda>_.
           kbind (nonnull (pr_cwd me)) (\<lambda>c.
           kbind (on_fs (vop_ref_inc c)) (\<lambda>c.
           kbind (pset np (\<lambda>x. x\<lparr>pr_cwd := Some c\<rparr>)) (\<lambda>_.
           kbind (pget np pr_pid) (\<lambda>pid.
           kbind (pset np (\<lambda>x. x\<lparr>pr_state := RUNNABLE\<rparr>)) (\<lambda>_.
           kbind (pset np (\<lambda>x. x\<lparr>pr_name := safestrcpy (pr_name x) 0 (pr_name me) 16\<rparr>)) (\<lambda>_.
           kret pid)))))))) ?P u" if u: "files_of u = files_of t" and p: "t_cpu (table s) (t_this (table s)) = Some p" for u p me
    proof (rule wlp_bind[OF dup_files], goal_cases)
      case (6 x w)
      show ?case
        by (intro keeps_bind[of files_of, OF keeps_reads(4)] keeps_bind[OF keeps_files_on(1)] pset_bind pget_bind)
          (use 6 u np in \<open>auto simp: wlp_kret idle_def fun_eq_iff\<close>)
    qed (use u np pt_okD(1)[of "table s" "t_this (table s)" p] p ok in \<open>auto simp: kernel_ok_def\<close>)
    show ?thesis unfolding Some option.case
    proof (rule cur_bind, intro pget_bind kget_bind keeps_bind[OF keeps_files_on(2)] pset_bind if_wlp, goal_cases)
      case (2 p d u)
      show ?case by (intro pset_bind share) (use 1 2 in simp_all)
    qed (use np ok in \<open>auto simp: wlp_kret kernel_ok_def\<close>)
  qed
qed

lemma fork_safe [safe_intros]: "safe fork"
  unfolding safe_def
proof (intro allI impI, rule wlp_mono[OF wlp_conj[OF fork_files fork_steps]], assumption)
  fix s t assume ok: "kernel_ok s" and t: "(finv (\<lambda>_. 0) {} (files_of t) \<and>
    (\<forall>q. idle (table t) q \<longrightarrow> v_file (files_of t) q = v_file (files_of s) q)) \<and> tsteps (table s) (table t)"
  then show "kernel_ok t" using pt_ok_steps[of "table s" "table t"] idle_steps[of "table s" "table t"] by (auto simp: kernel_ok_def)
qed

end
