(* ===== verification/Kernel.thy ===== *)
theory Kernel
  imports Trap Proc_Files
begin

text \<open>
  The kernel as a machine that runs processes on several CPUs, and what holds in every state it reaches.

  A step of \<open>kstep\<close> is what one CPU does: it takes a process, handles a trap or an interrupt, goes on with a call that had given up
  the CPU, or the kernel code of a call sleeps or wakes others; or the processes run in user mode and change memory. The
  machine starts as \<open>userinit\<close> leaves it.
\<close>

section \<open>The machine\<close>

definition NCPU :: nat where "NCPU = 8"

definition zeroed :: "kern \<Rightarrow> bool" where
  \<comment> \<open>the static data before \<open>userinit\<close>\<close>
  "zeroed s \<longleftrightarrow> (\<forall>p. pr_state (ptab s p) = UNUSED \<and> pr_pid (ptab s p) = 0 \<and> pr_parent (ptab s p) = None \<and> pr_chan (ptab s p) = None \<and>
     (\<forall>fd. pr_ofile (ptab s p) fd = None)) \<and> (\<forall>f. f_ref (ftable s f) = 0 \<and> f_type (ftable s f) = FD_NONE) \<and>
     nextpid s = 1 \<and> (\<forall>c. cpu_proc s c = None)"

definition booted :: "kern \<Rightarrow> bool" where
  \<comment> \<open>and after it: the first process can run\<close>
  "booted s \<longleftrightarrow> (\<forall>p. pr_state (ptab s p) = (if p = 0 then RUNNABLE else UNUSED) \<and> pr_pid (ptab s p) = (if p = 0 then 1 else 0) \<and>
     pr_parent (ptab s p) = None \<and> pr_chan (ptab s p) = None \<and> (\<forall>fd. pr_ofile (ptab s p) fd = None)) \<and>
     (\<forall>f. f_ref (ftable s f) = 0 \<and> f_type (ftable s f) = FD_NONE) \<and> nextpid s = 2 \<and> initproc s = 0 \<and> (\<forall>c. cpu_proc s c = None)"

inductive kstep :: "kern \<Rightarrow> kern \<Rightarrow> bool" where
  schedules: "c < NCPU \<Longrightarrow> cpu_proc s c = None \<Longrightarrow> p < NPROC \<Longrightarrow> run_proc p (s\<lparr>this_cpu := c\<rparr>) = Ret (u, t) \<Longrightarrow> kstep s t"
| traps: "c < NCPU \<Longrightarrow> trap tf (s\<lparr>this_cpu := c\<rparr>) = Ret (r, t) \<Longrightarrow> kstep s t"
| waits_on: "c < NCPU \<Longrightarrow> resumed_call wait (s\<lparr>this_cpu := c\<rparr>) = Ret (r, t) \<Longrightarrow> kstep s t"
| sleeps_on: "c < NCPU \<Longrightarrow> resumed_call (sleep_round ticks0 n) (s\<lparr>this_cpu := c\<rparr>) = Ret (r, t) \<Longrightarrow> kstep s t"
| killed: "c < NCPU \<Longrightarrow> exit_call (s\<lparr>this_cpu := c\<rparr>) = Ret (r, t) \<Longrightarrow> kstep s t"
| kernel_sleep: "c < NCPU \<Longrightarrow> sleep (On_object a) (s\<lparr>this_cpu := c\<rparr>) = Ret (u, t) \<Longrightarrow> kstep s t"
| kernel_wakeup: "wakeup ch s = Ret (u, t) \<Longrightarrow> kstep s t"
| user: "kstep s (s\<lparr>k_mem := m, stack_junk := j\<rparr>)"

inductive reachable :: "kern \<Rightarrow> bool" where
  boot: "booted s \<Longrightarrow> reachable s"
| step: "reachable s \<Longrightarrow> kstep s t \<Longrightarrow> reachable t"

section \<open>Every step keeps the invariant\<close>

lemma safe_keeps_curset [safe_intros]:
  "safe (curset (\<lambda>x. x\<lparr>pr_tf := f x\<rparr>))" "safe (curset (\<lambda>x. x\<lparr>pr_killed := True\<rparr>))" "safe (curget g)" "safe (kget h)" "safe (pget p g)"
  by (auto intro!: safe_keeps keeps_intros)

lemma returns_safe [safe_intros]: "safe m \<Longrightarrow> safe (returns m)"
  unfolding returns_def by (intro safe_intros)

lemma exit_call_safe [safe_intros]: "safe exit_call"
  unfolding exit_call_def by (intro safe_intros)

lemma sleep_round_safe [safe_intros]: "safe (sleep_round t n)"
  unfolding sleep_round_def by (intro safe_intros sleep_object_safe) simp

lemma sysproc_safe [safe_intros]: "safe sys_kill" "safe sys_getpid" "safe sys_sbrk" "safe sys_sleep" "safe sys_uptime" "safe sys_halt"
  unfolding sys_kill_def sys_getpid_def sys_sbrk_def sys_sleep_def sys_uptime_def sys_halt_def
  by (intro safe_intros safe_keeps[OF keeps_growproc])+

lemmas calls_safe [safe_intros] = keeps_calls[THEN safe_keeps] keeps_chdir[THEN safe_keeps] keeps_sys_exec[THEN safe_keeps]
  keeps_copy_calls[THEN safe_keeps]

lemma syscalls_safe: "syscalls n = Some m \<Longrightarrow> safe m"
  unfolding syscalls_def by (drule map_of_SomeD) (auto intro!: safe_intros)

lemma call_safe [safe_intros]: "safe (put_result r)" "safe (leave_call r)"
  unfolding put_result_def leave_call_def by (cases r; auto intro!: safe_intros)+

lemma syscall_safe [safe_intros]: "safe syscall"
  unfolding syscall_def
proof (rule safe_kbind)
  show "safe (case syscalls (sint num) of Some m \<Rightarrow> kbind m put_result | None \<Rightarrow> put_result (Back (- 1)))" for num :: uint
    by (cases "syscalls (sint num)") (auto intro: safe_kbind call_safe syscalls_safe)
qed (rule safe_intros)

lemma trap_parts_safe [safe_intros]: "safe (trap_syscall tf)" "safe (fault tf)" "safe (trap_return tf)"
  unfolding trap_syscall_def fault_def trap_return_def by (intro safe_intros)+

lemma timer_safe [safe_intros]: "safe timer"
proof -
  have "safe (kmod (\<lambda>s. s\<lparr>ticks := ticks s + 1\<rparr>))" by (rule safe_keeps, rule keeps_kmod) (simp add: kview_def)
  then show ?thesis unfolding timer_def kwhen_def by (intro safe_intros)
qed

lemma trap_safe [safe_intros]: "safe (trap tf)"
  unfolding trap_def by (intro safe_intros)

lemma resumed_call_safe [safe_intros]: "safe m \<Longrightarrow> safe (resumed_call m)"
  unfolding resumed_call_def by (intro safe_intros)

lemma kernel_ok_cpu [simp]: "kernel_ok (s\<lparr>this_cpu := c\<rparr>) = kernel_ok s"
proof -
  have "pt_ok (t\<lparr>t_this := c\<rparr>) = pt_ok t" for t
    by (simp add: pt_ok_def pids_ok_def cpus_ok_def family_ok_def waits_ok_def waiting_def)
  then show ?thesis by (simp add: kernel_ok_def idle_def)
qed

lemma kernel_ok_user [simp]: "kernel_ok (s\<lparr>k_mem := m, stack_junk := j\<rparr>) = kernel_ok s"
  by (simp add: kernel_ok_def)

lemma safe_run:
  assumes "safe m" "kernel_ok s" "m (s\<lparr>this_cpu := c\<rparr>) = Ret (r, t)"
  shows "kernel_ok t"
  using wlpD[OF safeD[OF assms(1), of "s\<lparr>this_cpu := c\<rparr>"] assms(3)] assms(2) by simp

lemma kstep_ok: "kstep s t \<Longrightarrow> kernel_ok s \<Longrightarrow> kernel_ok t"
proof (induction rule: kstep.induct)
  case schedules
  then show ?case using wlpD[OF run_proc_kernel schedules(4)] by simp
next
  case traps
  show ?case by (rule safe_run[OF trap_safe traps(3,2)])
next
  case waits_on
  show ?case by (rule safe_run[OF resumed_call_safe[OF procs_safe(4)] waits_on(3,2)])
next
  case sleeps_on
  show ?case by (rule safe_run[OF resumed_call_safe[OF sleep_round_safe] sleeps_on(3,2)])
next
  case killed
  show ?case by (rule safe_run[OF exit_call_safe killed(3,2)])
next
  case kernel_sleep
  show ?case by (rule safe_run[OF sleep_object_safe kernel_sleep(3,2)]) simp
next
  case kernel_wakeup
  show ?case by (rule wlpD[OF safeD[OF procs_safe(2) kernel_wakeup(2)] kernel_wakeup(1)])
qed simp

lemma booted_ok:
  assumes "booted s"
  shows "kernel_ok s"
proof -
  have t: "table s = \<lparr>t_state = \<lambda>p. if p = 0 then RUNNABLE else UNUSED, t_pid = \<lambda>p. if p = 0 then 1 else 0, t_parent = \<lambda>_. None,
      t_chan = \<lambda>_. None, t_next = 2, t_init = 0, t_cpu = \<lambda>_. None, t_this = this_cpu s\<rparr>"
    using assms by (auto simp: booted_def table_def fun_eq_iff simp del: table_nf)
  have f: "v_ref (files_of s) = (\<lambda>_. 0)" "v_type (files_of s) = (\<lambda>_. FD_NONE)" "v_file (files_of s) = (\<lambda>_ _. None)"
    using assms by (auto simp: booted_def files_of_def fun_eq_iff simp del: to_files)
  have "pt_ok (table s)"
    unfolding t pt_ok_def pids_ok_def cpus_ok_def family_ok_def waits_ok_def by (auto simp: active_def NPROC_def)
  moreover have "finv (\<lambda>_. 0) {} (files_of s)" unfolding finv_def holders_def f by simp
  ultimately show ?thesis by (simp add: kernel_ok_def f)
qed

lemma reachable_ok: "reachable s \<Longrightarrow> kernel_ok s"
  by (induction rule: reachable.induct) (auto intro: booted_ok kstep_ok)

section \<open>The first process\<close>

lemma booted_kview: "booted s \<longleftrightarrow> t_state (table s) = (\<lambda>_. UNUSED)(0 := RUNNABLE) \<and> t_pid (table s) = (\<lambda>_. 0)(0 := 1) \<and>
    t_parent (table s) = (\<lambda>_. None) \<and> t_chan (table s) = (\<lambda>_. None) \<and> t_next (table s) = 2 \<and> t_init (table s) = 0 \<and> t_cpu (table s) = (\<lambda>_. None) \<and>
    files_of s = \<lparr>v_ref = \<lambda>_. 0, v_type = \<lambda>_. FD_NONE, v_file = \<lambda>_ _. None\<rparr>"
  by (auto simp: booted_def table_def files_of_def fun_eq_iff simp del: table_nf to_files)

lemma zeroed_kview: "zeroed s \<longleftrightarrow> t_state (table s) = (\<lambda>_. UNUSED) \<and> t_pid (table s) = (\<lambda>_. 0) \<and>
    t_parent (table s) = (\<lambda>_. None) \<and> t_chan (table s) = (\<lambda>_. None) \<and> t_next (table s) = 1 \<and> t_cpu (table s) = (\<lambda>_. None) \<and>
    files_of s = \<lparr>v_ref = \<lambda>_. 0, v_type = \<lambda>_. FD_NONE, v_file = \<lambda>_ _. None\<rparr>"
  by (auto simp: zeroed_def table_def files_of_def fun_eq_iff simp del: table_nf to_files)

lemma keeps_kview_more: "keeps kview (on_fs m)" "keeps kview (on_mem m')" "keeps kview (nonnull r)"
  "keeps kview (pset p (\<lambda>x. x\<lparr>pr_pgdir := d\<rparr>))" "keeps kview (pset p (\<lambda>x. x\<lparr>pr_cwd := c\<rparr>))" "keeps kview (pset p (\<lambda>x. x\<lparr>pr_kstack := k\<rparr>))"
  "keeps kview (pset p (\<lambda>x. x\<lparr>pr_context := kc\<rparr>))"
  "keeps kview (pset p (\<lambda>x. x\<lparr>pr_sz := z, pr_tf := fr, pr_name := nm x\<rparr>))"
  by (auto intro!: keeps_kview keeps_intros simp: nonnull_def)

lemma kview_eq: "kview t = kview s \<longleftrightarrow> table t = table s \<and> files_of t = files_of s"
  by (simp add: kview_def)


lemma files_of_pid: "files_of (s\<lparr>nextpid := n, ptab := h\<rparr>) = files_of (s\<lparr>ptab := h\<rparr>)"
  by (simp add: files_of_def del: to_files)

lemma allocproc_first:
  assumes z: "zeroed s"
  shows "wlp allocproc (\<lambda>r t. r = None \<or> r = Some 0 \<and> table t = (table s)\<lparr>t_state := (t_state (table s))(0 := EMBRYO), t_pid := (t_pid (table s))(0 := 1), t_next := 2\<rparr> \<and>
     files_of t = files_of s) s"
proof -
  have f: "find (\<lambda>p. pr_state (ptab s p) = UNUSED) [0..<NPROC] = Some 0" "nextpid s = 1" 
    using z by (simp_all add: zeroed_def NPROC_def upt_conv_Cons del: table_nf)
  show ?thesis
    unfolding allocproc_def
    apply (rule kget_bind)
    apply (simp only: f option.case)
    apply (rule pset_bind, rule next_pid_bind, rule pset_bind)
    apply (rule keeps_bind[OF keeps_kview_more(2)], rule keeps_bind[OF keeps_kview_more(6)])
    apply (rule if_wlp)
    apply (simp add: wp_simps)
    apply (rule keeps_bind[OF keeps_kview_more(7)])
    using f(2) by (simp add: wp_simps kview_eq fun_upd_idem files_of_pid)
qed

lemma userinit_boots:
  assumes z: "zeroed s"
  shows "wlp userinit (\<lambda>_. booted) s"
proof -
  show ?thesis
    unfolding userinit_def
    apply (rule wlp_bind[OF allocproc_first[OF z]])
    subgoal for r t
    apply (cases r)
     apply (simp add: nonnull_def wp_simps)
    using z apply (simp add: nonnull_def zeroed_kview)
    apply (rule wlp_bind[where R = "\<lambda>_ u. table u = (table t)\<lparr>t_init := 0\<rparr> \<and> files_of u = files_of t"])
     apply (simp add: wp_simps)
    apply (rule kget_bind)
    apply (rule keeps_bind[OF keeps_kview_more(2)], rule keeps_bind[OF keeps_kview_more(4)])
    apply (rule if_wlp)
     apply (simp add: wp_simps)
    apply (rule kget_bind)
    apply (rule keeps_bind[OF keeps_kview_more(2)], rule keeps_bind[OF keeps_kview_more(8)])
    apply (rule keeps_bind[OF keeps_kview_more(1)], rule keeps_bind[OF keeps_kview_more(5)])
    by (simp add: wp_simps booted_kview kview_eq fun_upd_idem)
    done
qed

section \<open>The mark of a killed process\<close>

lemma keeps_killed:
  "keeps (\<lambda>s. pr_killed (ptab s p)) (on_fs m)" "keeps (\<lambda>s. pr_killed (ptab s p)) (on_mem m')"
  "keeps (\<lambda>s. pr_killed (ptab s p)) (pget q h)" "keeps (\<lambda>s. pr_killed (ptab s p)) cur" "keeps (\<lambda>s. pr_killed (ptab s p)) (nonnull r)"
  "keeps (\<lambda>s. pr_killed (ptab s p)) next_pid" "keeps (\<lambda>s. pr_killed (ptab s p)) (filedup f)"
  unfolding on_fs_def on_mem_def pget_def nonnull_def cur_def next_pid_def filedup_def finfo_def fset_def
  by (intro keeps_intros keeps_zoom keeps_kmod; simp)+

lemma keeps_killed_pset: "(\<And>x. pr_killed (g x) = pr_killed x) \<Longrightarrow> keeps (\<lambda>s. pr_killed (ptab s p)) (pset q g)"
  unfolding pset_def by (rule keeps_kmod) simp

lemma fork_keeps_killed: "keeps (\<lambda>s. pr_killed (ptab s p)) allocproc" "keeps (\<lambda>s. pr_killed (ptab s p)) fork"
  unfolding fork_def allocproc_def dup_file_def by (intro keeps_intros keeps_killed keeps_killed_pset; simp)+

lemma find_at: "find P [0..<n] = Some p" if "p < n" "P p" "\<And>q. q < p \<Longrightarrow> \<not> P q"
  using that by (auto simp: find_Some_iff intro!: exI[of _ p])

section \<open>Checked arguments\<close>

lemma wlp_same_bind: "wlp m (\<lambda>_ t. t = s) s \<Longrightarrow> (\<And>x. wlp (f x) Q s) \<Longrightarrow> wlp (kbind m f) Q s"
  by (erule wlp_bind) simp

lemma uread_same: "wlp (uread n va) (\<lambda>_ t. t = s) s"
proof (induction n arbitrary: va)
  case (Suc n)
  have u: "wlp (uld8 va) (\<lambda>_ t. t = s) s"
    by (simp add: uld8_def upage_def curget_def nonnull_def wp_simps wlp_cur split: option.split)
  show ?case unfolding uread.simps by (rule wlp_same_bind[OF u wlp_same_bind[OF Suc.IH]]) (simp add: wp_simps)
qed (simp add: wp_simps)

lemma argint_same: "wlp (argint n) (\<lambda>_ t. t = s) s"
  unfolding argint_def fetchint_def curget_def
  by (auto simp: wp_simps wlp_cur intro!: wlp_same_bind[OF uread_same] wlp_mono[OF uread_same])

lemma argptr_checks: "wlp (argptr n nb) (\<lambda>r t. t = s \<and> (\<forall>i p. r = Some i \<and> cpu_proc s (this_cpu s) = Some p \<longrightarrow>
    i < pr_sz (ptab s p) \<and> i + word_of_int nb \<le> pr_sz (ptab s p))) s"
  unfolding argptr_def curget_def
  by (rule wlp_same_bind[OF argint_same]) (auto simp: wp_simps wlp_cur split: option.split)

section \<open>A concrete machine\<close>

text \<open>
  A kernel that has just started, with one page of user memory for the first process; it runs the process, which calls
  \<open>pipe(16)\<close>.
\<close>

definition demo_fsys :: fsys where
  "demo_fsys = log.extend demo_log (fsys.fields (\<lambda>_. \<lparr>i_dev = 1, i_inum = 1, i_ref = 1, i_busy = False, i_valid = False, i_type = 1, i_major = 0, i_minor = 0, i_nlink = 1,
     i_size = 0, i_addrs = \<lambda>_. 0, i_fstype = 1, i_ops = Some sfs_node_dirops\<rparr>) (\<lambda>_. \<lparr>dv_read = False, dv_write = False, dv_in = [], dv_out = []\<rparr>) (\<lambda>_. 0) 0)"

definition demo_mem :: vm where
  "demo_mem = \<lparr>mem = st32 (st32 (st32 zero_bytes 0x80101000 0x102007) 0x80102000 0x103007) 0x80103804 16,
     freelist = 0x80104000, use_lock = True, kpgdir = 0x80101000, cr3 = 0x101000\<rparr>"

definition demo_proc :: proc_t where
  "demo_proc = \<lparr>pr_sz = 4096, pr_pgdir = 0x80101000, pr_kstack = 0x80105000, pr_state = RUNNABLE, pr_pid = 1, pr_parent = None, pr_tf = user_frame,
     pr_context = At_forkret, pr_chan = None, pr_killed = False, pr_ofile = \<lambda>_. None, pr_cwd = Some 0, pr_name = zero_bytes\<rparr>"

definition demo_boot :: kern where
  "demo_boot = \<lparr>k_fs = demo_fsys, ftable = \<lambda>_. \<lparr>f_type = FD_NONE, f_ref = 0, f_readable = False, f_writable = False, f_pipe = 0, f_ip = 0, f_off = 0\<rparr>,
     pipes = \<lambda>_. pipe_init zero_bytes, pipe_wakeups = [], k_mem = demo_mem, k_end = 0x80100000, p_killed = False,
     ptab = \<lambda>p. if p = 0 then demo_proc else demo_proc\<lparr>pr_state := UNUSED, pr_pid := 0, pr_kstack := 0\<rparr>,
     nextpid = 2, initproc = 0, cpu_proc = \<lambda>_. None, this_cpu = 0, ts_esp0 = 0, ticks = 0, first = False, stack_junk = zero_bytes,
     k_data = 0, k_initcode = []\<rparr>"

definition outcome_state :: "('a \<times> 's) outcome \<Rightarrow> 's \<Rightarrow> 's" where
  "outcome_state r s = (case r of Ret (_, t) \<Rightarrow> t | _ \<Rightarrow> s)"

definition demo_running :: kern where
  "demo_running = demo_boot\<lparr>cpu_proc := (\<lambda>_. None)(0 := Some 0), ts_esp0 := 0x80106000,
     ptab := (ptab demo_boot)(0 := demo_proc\<lparr>pr_state := RUNNING\<rparr>)\<rparr>"

lemma demo_booted: "booted demo_boot"
  by (simp add: booted_def demo_boot_def demo_proc_def del: table_nf to_files)

lemma run_proc_demo: "run_proc 0 demo_boot = Ret ((), demo_running)"
  by (simp add: run_proc_def demo_running_def demo_boot_def demo_proc_def switchuvm_def resume_def forkret_def pget_def pset_def curget_def cur_def
      on_mem_def kzoom_def kmonad_defs kwhen_def demo_mem_def v2p_def KERNBASE_def KSTACKSIZE_def del: table_nf to_files)

lemma demo_running_reachable: "reachable demo_running"
proof -
  have "demo_boot\<lparr>this_cpu := 0\<rparr> = demo_boot" "cpu_proc demo_boot 0 = None" by (simp_all add: demo_boot_def del: table_nf to_files)
  then show ?thesis using run_proc_demo
    by (intro step[OF boot[OF demo_booted]] schedules[of 0 demo_boot 0]) (simp_all add: NCPU_def NPROC_def del: table_nf)
qed

definition demo_call :: trapframe where
  "demo_call = user_frame\<lparr>tf_trapno := T_SYSCALL, tf_eax := 4, tf_esp := 0x800\<rparr>"

definition demo_maps :: "kern \<Rightarrow> bool" where
  "demo_maps s \<longleftrightarrow> cpu_proc s (this_cpu s) = Some 0 \<and> pr_pgdir (ptab s 0) = 0x80101000 \<and> ld32 (mem (k_mem s)) 0x80101000 = 0x102007 \<and> ld32 (mem (k_mem s)) 0x80102000 = 0x103007"

lemma upage_demo: "demo_maps s \<Longrightarrow> va \<in> {0x804, 0x805, 0x806, 0x807, 16, 17, 18, 19, 20, 21, 22, 23} \<Longrightarrow> upage va w s = Ret (0x80103000 + va, s)"
  by (auto simp: demo_maps_def upage_def curget_def cur_def pget_def kmonad_defs nonnull_def uaddr_def pte_of_def pde_of_def table_of_def PDX_def PTX_def PTE_ADDR_def p2v_def KERNBASE_def
     simp del: table_nf to_files)

lemma uld8_demo: "demo_maps s \<Longrightarrow> va \<in> {0x804, 0x805, 0x806, 0x807} \<Longrightarrow> uld8 va s = Ret (mem (k_mem s) (unat (0x80103000 + va)), s)"
  using upage_demo[of s va False] by (auto simp: uld8_def kmonad_defs)

lemma ust8_demo: "demo_maps s \<Longrightarrow> va \<in> {16, 17, 18, 19, 20, 21, 22, 23} \<Longrightarrow>
    ust8 va c s = Ret ((), s\<lparr>k_mem := (k_mem s)\<lparr>mem := (mem (k_mem s))(unat (0x80103000 + va) := c)\<rparr>\<rparr>) \<and> 
    demo_maps (s\<lparr>k_mem := (k_mem s)\<lparr>mem := (mem (k_mem s))(unat (0x80103000 + va) := c)\<rparr>\<rparr>)"
  using upage_demo[of s va True] by (auto simp: demo_maps_def ust8_def on_mem_def kzoom_def kmonad_defs ld32_def simp del: table_nf to_files)

lemma uwrite_demo: "demo_maps s \<Longrightarrow> (\<And>i. i < length bs \<Longrightarrow> va + of_nat i \<in> {16, 17, 18, 19, 20, 21, 22, 23}) \<Longrightarrow>
   \<exists>m. uwrite va bs s = Ret ((), s\<lparr>k_mem := m\<rparr>) \<and> demo_maps (s\<lparr>k_mem := m\<rparr>)"
proof (induction bs arbitrary: s va)
  case Nil
  then show ?case by (auto simp: kmonad_defs intro!: exI[of _ "k_mem s"])
next
  case (Cons c bs)
  let ?t = "s\<lparr>k_mem := (k_mem s)\<lparr>mem := (mem (k_mem s))(unat (0x80103000 + va) := c)\<rparr>\<rparr>"
  have "va \<in> {16, 17, 18, 19, 20, 21, 22, 23}" using Cons.prems(2)[of 0] by simp
  then have t: "ust8 va c s = Ret ((), ?t)" "demo_maps ?t" using ust8_demo[of s va c] Cons.prems by auto
  have "va + 1 + of_nat i \<in> {16, 17, 18, 19, 20, 21, 22, 23}" if "i < length bs" for i
    using Cons.prems(2)[of "Suc i"] that by (simp add: add.assoc)
  then obtain m where "uwrite (va + 1) bs ?t = Ret ((), ?t\<lparr>k_mem := m\<rparr>)" "demo_maps (?t\<lparr>k_mem := m\<rparr>)"
    using Cons.IH[OF t(2)] by blast
  then show ?case using t by (auto simp: kmonad_defs intro!: exI[of _ m])
qed

definition demo_s1 :: kern where
  \<comment> \<open>in the call\<close>
  "demo_s1 = demo_running\<lparr>ptab := (ptab demo_running)(0 := (ptab demo_running 0)\<lparr>pr_tf := demo_call\<rparr>)\<rparr>"

lemma demo_s1_maps: "demo_maps demo_s1"
  by (simp add: demo_maps_def demo_s1_def demo_running_def demo_boot_def demo_proc_def demo_mem_def del: table_nf to_files)

lemma uread4: "uread 4 va = kbind (uld8 va) (\<lambda>a. kbind (uld8 (va + 1)) (\<lambda>b. kbind (uld8 (va + 2)) (\<lambda>c. kbind (uld8 (va + 3)) (\<lambda>d. kret [a, b, c, d]))))"
  by (simp add: numeral_eq_Suc add.assoc)

lemma demo_argptr: "argptr 0 8 demo_s1 = Ret (Some 16, demo_s1)"
proof -
  have f: "cpu_proc demo_s1 (this_cpu demo_s1) = Some 0" "pr_sz (ptab demo_s1 0) = 4096" "tf_esp (pr_tf (ptab demo_s1 0)) = 0x800" "mem (k_mem demo_s1) = mem demo_mem"
    by (simp_all add: demo_s1_def demo_running_def demo_boot_def demo_proc_def demo_call_def del: table_nf to_files)
  have "uread 4 0x804 demo_s1 = Ret ([16, 0, 0, 0], demo_s1)"
    using f by (simp add: uread4 kmonad_defs uld8_demo[OF demo_s1_maps] demo_mem_def st32_def del: table_nf to_files)
  then show ?thesis
    using f by (simp add: argptr_def argint_def fetchint_def curget_def cur_def pget_def kmonad_defs nonnull_def ld32_def cview_def del: table_nf to_files)
qed

lemma find_first: "0 < n \<Longrightarrow> P 0 \<Longrightarrow> find P [0..<n] = Some 0" "1 < n \<Longrightarrow> \<not> P 0 \<Longrightarrow> P 1 \<Longrightarrow> find P [0..<n] = Some 1"
  by (simp_all add: upt_conv_Cons)

definition demo_files :: "nat \<Rightarrow> file_t" where
  "demo_files = (ftable demo_boot)(0 := pipe_file 0x80104000 False ((ftable demo_boot 0)\<lparr>f_ref := 1\<rparr>), 1 := pipe_file 0x80104000 True ((ftable demo_boot 1)\<lparr>f_ref := 1\<rparr>))"

lemma demo_pipealloc:
  "\<exists>ps. pipealloc demo_s1 = Ret (Some (0, 1), demo_s1\<lparr>k_mem := demo_mem\<lparr>freelist := 0\<rparr>, pipes := ps, ftable := demo_files\<rparr>)"
proof -
  have f: "ftable demo_s1 = ftable demo_boot" "f_ref (ftable demo_boot f) = 0" "k_mem demo_s1 = demo_mem" "freelist demo_mem = 0x80104000"
     "ld32 (mem demo_mem) 0x80104000 = 0" for f
    by (simp_all add: demo_s1_def demo_running_def demo_boot_def demo_mem_def del: table_nf to_files)
  show ?thesis
    by (intro exI[of _ "(pipes demo_s1)(0x80104000 := pipe_init (\<lambda>i. mem demo_mem (0x80104000 + i)))"])
      (simp add: pipealloc_def filealloc_def fset_def finfo_def on_mem_def kzoom_def kalloc_def kwhen_def set_pipe_def kmonad_defs f find_first NFILE_def demo_files_def
       pipe_file_def fun_upd_twist del: table_nf to_files)
qed

definition demo_fds :: "nat \<Rightarrow> nat option" where "demo_fds = (\<lambda>_. None)(0 := Some 0, 1 := Some 1)"

lemma demo_fdalloc:
  assumes "cpu_proc s (this_cpu s) = Some 0" "pr_ofile (ptab s 0) fd = None" "fd = 0 \<or> (fd = 1 \<and> pr_ofile (ptab s 0) 0 \<noteq> None)"
  shows "fdalloc f s = Ret (Some fd, s\<lparr>ptab := (ptab s)(0 := (ptab s 0)\<lparr>pr_ofile := (pr_ofile (ptab s 0))(fd := Some f)\<rparr>)\<rparr>)"
  using assms
  by (auto simp add: fdalloc_def curget_def curset_def cur_def pget_def pset_def kmonad_defs nonnull_def find_first NOFILE_def simp del: table_nf to_files)

lemma uwrite_word:
  assumes "demo_maps s" "va = 16 \<or> va = 20"
  shows "\<exists>m. uwrite va (word_bytes v) s = Ret ((), s\<lparr>k_mem := m\<rparr>) \<and> demo_maps (s\<lparr>k_mem := m\<rparr>)"
proof (rule uwrite_demo[OF assms(1)])
  fix i assume "i < length (word_bytes v)"
  then have "i = 0 \<or> i = 1 \<or> i = 2 \<or> i = 3" by (auto simp: word_bytes_def)
  then show "va + of_nat i \<in> {16, 17, 18, 19, 20, 21, 22, 23}" using assms(2) by auto
qed

lemma demo_sys_pipe:
  "\<exists>ps m. sys_pipe demo_s1 = Ret (0, demo_s1\<lparr>pipes := ps, ftable := demo_files, ptab := (ptab demo_s1)(0 := (ptab demo_s1 0)\<lparr>pr_ofile := demo_fds\<rparr>), k_mem := m\<rparr>)"
proof -
  have f: "cpu_proc demo_s1 (this_cpu demo_s1) = Some 0" "pr_ofile (ptab demo_s1 0) = (\<lambda>_. None)" "pr_pgdir (ptab demo_s1 0) = 0x80101000"
    by (simp_all add: demo_s1_def demo_running_def demo_boot_def demo_proc_def del: table_nf to_files)
  have n: "(1::nat) = Suc 0" by simp
  obtain ps where ps: "pipealloc demo_s1 = Ret (Some (0, 1), demo_s1\<lparr>k_mem := demo_mem\<lparr>freelist := 0\<rparr>, pipes := ps, ftable := demo_files\<rparr>)"
    using demo_pipealloc by blast
  let ?s2 = "demo_s1\<lparr>k_mem := demo_mem\<lparr>freelist := 0\<rparr>, pipes := ps, ftable := demo_files, ptab := (ptab demo_s1)(0 := (ptab demo_s1 0)\<lparr>pr_ofile := demo_fds\<rparr>)\<rparr>"
  have "demo_maps ?s2" using demo_s1_maps by (simp add: demo_maps_def f demo_mem_def del: table_nf to_files)
  then obtain m where m: "uwrite 16 (word_bytes 0) ?s2 = Ret ((), ?s2\<lparr>k_mem := m\<rparr>)" "demo_maps (?s2\<lparr>k_mem := m\<rparr>)"
    using uwrite_word[of ?s2 16] by blast
  then obtain m' where m': "uwrite 20 (word_bytes 1) (?s2\<lparr>k_mem := m\<rparr>) = Ret ((), ?s2\<lparr>k_mem := m\<rparr>\<lparr>k_mem := m'\<rparr>)"
    using uwrite_word[of "?s2\<lparr>k_mem := m\<rparr>" 20] by blast
  have "sys_pipe demo_s1 = Ret (0, ?s2\<lparr>k_mem := m'\<rparr>)"
    unfolding sys_pipe_def using m(1) m'
    by (simp add: kmonad_defs demo_argptr ps demo_fdalloc[where fd = 0] demo_fdalloc[where fd = "Suc 0"] f demo_fds_def del: table_nf to_files)
  then show ?thesis by auto
qed


definition demo_piped :: kern where
  "demo_piped = outcome_state (trap demo_call demo_running) demo_running"

lemma trap_demo: "\<exists>r. trap demo_call demo_running = Ret (r, demo_piped) \<and> ftable demo_piped = demo_files \<and> pr_ofile (ptab demo_piped 0) = demo_fds"
proof -
  have f: "cpu_proc demo_running (this_cpu demo_running) = Some 0" "\<not> pr_killed (ptab demo_running 0)"
      "cpu_proc demo_s1 (this_cpu demo_s1) = Some 0" "\<not> pr_killed (ptab demo_s1 0)" "tf_eax (pr_tf (ptab demo_s1 0)) = 4" "tf_trapno demo_call = T_SYSCALL"
    by (simp_all add: demo_s1_def demo_running_def demo_boot_def demo_proc_def demo_call_def del: table_nf to_files)
  have s1: "demo_running\<lparr>ptab := (ptab demo_running)(0 := (ptab demo_running 0)\<lparr>pr_tf := demo_call\<rparr>)\<rparr> = demo_s1" by (simp add: demo_s1_def)
  obtain ps m where p: "sys_pipe demo_s1 = Ret (0, demo_s1\<lparr>pipes := ps, ftable := demo_files,
      ptab := (ptab demo_s1)(0 := (ptab demo_s1 0)\<lparr>pr_ofile := demo_fds\<rparr>), k_mem := m\<rparr>)" using demo_sys_pipe by blast
  have "syscalls 4 = Some (returns sys_pipe)" by (simp add: syscalls_def)
  then have "trap demo_call demo_running = Ret (Back 0, demo_s1\<lparr>pipes := ps, ftable := demo_files, k_mem := m,
      ptab := (ptab demo_s1)(0 := (ptab demo_s1 0)\<lparr>pr_ofile := demo_fds, pr_tf := (pr_tf (ptab demo_s1 0))\<lparr>tf_eax := 0\<rparr>\<rparr>)\<rparr>)"
    using p by (simp add: trap_def trap_syscall_def syscall_def put_result_def leave_call_def returns_def curget_def curset_def cur_def pget_def pset_def
        kmonad_defs nonnull_def f s1 del: table_nf to_files)
  then show ?thesis by (simp add: demo_piped_def outcome_state_def del: to_files)
qed

lemma demo_piped_reachable: "reachable demo_piped"
proof -
  have "demo_running\<lparr>this_cpu := 0\<rparr> = demo_running" by (simp add: demo_running_def demo_boot_def del: table_nf to_files)
  then show ?thesis using trap_demo by (auto intro!: step[OF demo_running_reachable] traps[of 0 demo_call] simp: NCPU_def)
qed

section \<open>What holds in every state the kernel reaches\<close>





text \<open>C6: in every state the kernel reaches, two processes in use have different process numbers, a process is RUNNING exactly when
  a CPU runs it, no process is on two CPUs, and every process but the first has a parent that has not exited.\<close>

theorem processes_wellformed:
  assumes "reachable s" "p < NPROC" "q < NPROC"
  shows "(pr_state (ptab s p) \<noteq> UNUSED \<and> pr_state (ptab s q) \<noteq> UNUSED \<and> pr_pid (ptab s p) = pr_pid (ptab s q) \<longrightarrow> p = q) \<and>
    (pr_state (ptab s p) = RUNNING \<longleftrightarrow> (\<exists>!c. cpu_proc s c = Some p)) \<and>
    (pr_state (ptab s p) \<in> {SLEEPING, RUNNABLE, RUNNING, ZOMBIE} \<and> p \<noteq> initproc s \<longrightarrow>
       (\<exists>r<NPROC. pr_parent (ptab s p) = Some r \<and> r \<noteq> p \<and> pr_state (ptab s r) \<in> {SLEEPING, RUNNABLE, RUNNING}))"
proof -
  have k: "pids_ok (table s)" "cpus_ok (table s)" "family_ok (table s)" using reachable_ok[OF assms(1)] by (simp_all add: kernel_ok_def pt_ok_def)
  have "t_state (table s) p = RUNNING \<longleftrightarrow> (\<exists>!c. t_cpu (table s) c = Some p)"
    using k(2) assms(2) unfolding cpus_ok_def by blast
  moreover have "\<exists>r<NPROC. t_parent (table s) p = Some r \<and> r \<noteq> p \<and> active (t_state (table s) r)"
    if "t_state (table s) p \<noteq> UNUSED" "t_state (table s) p \<noteq> EMBRYO" "p \<noteq> t_init (table s)"
    using k(3) assms(2) that unfolding family_ok_def by blast
  ultimately show ?thesis using k(1) assms(2,3) by (auto simp: pids_ok_def active_def)
qed

theorem processes_wellformed_witness:
  "reachable demo_running \<and> pr_state (ptab demo_running 0) = RUNNING \<and> (\<exists>!c. cpu_proc demo_running c = Some 0)"
  using processes_wellformed[OF demo_running_reachable, of 0 0] demo_running_reachable
  by (simp add: NPROC_def demo_running_def demo_proc_def del: table_nf)

text \<open>C7: no child is lost between \<open>wait\<close> and \<open>exit\<close>: in no state the kernel reaches does a process sleep in \<open>wait\<close>, on its own
  entry of the table, while it has a child that is a zombie. The check of the children and the sleep of \<open>wait\<close> are one critical
  section, and \<open>exit\<close> wakes the parent, and the first process for the children it passes on.\<close>

theorem wait_no_lost_child:
  assumes "reachable s" "p < NPROC" "q < NPROC"
  shows "\<not> (pr_state (ptab s p) = ZOMBIE \<and> pr_parent (ptab s p) = Some q \<and> pr_state (ptab s q) = SLEEPING \<and> pr_chan (ptab s q) = Some (On_proc q))"
  using reachable_ok[OF assms(1)] assms(2,3) by (auto simp: kernel_ok_def pt_ok_def waits_ok_def waiting_def)

theorem wait_no_lost_child_witness:
  "reachable demo_piped \<and> \<not> (pr_state (ptab demo_piped 1) = ZOMBIE \<and> pr_parent (ptab demo_piped 1) = Some 0 \<and>
     pr_state (ptab demo_piped 0) = SLEEPING \<and> pr_chan (ptab demo_piped 0) = Some (On_proc 0))"
  using demo_piped_reachable wait_no_lost_child[OF demo_piped_reachable, of 1 0] by (simp add: NPROC_def del: table_nf)

text \<open>C23: \<open>argptr\<close> keeps the kernel inside the memory of the process: for a size that is not negative, and a process that
  stays below the kernel, the block it accepts lies in the first \<open>sz\<close> bytes, also where \<open>i + size\<close> is computed with wrap-around; and it
  changes nothing.\<close>

theorem argptr_inside:
  assumes "argptr n nb s = Ret (Some i, t)" "0 \<le> nb" "nb < 2 ^ 31" "cpu_proc s (this_cpu s) = Some p" "unat (pr_sz (ptab s p)) \<le> 2 ^ 31"
  shows "t = s \<and> unat i + nat nb \<le> unat (pr_sz (ptab s p))"
proof -
  have *: "t = s" "i < pr_sz (ptab s p)" "i + word_of_int nb \<le> pr_sz (ptab s p)"
    using wlpD[OF argptr_checks assms(1)] assms(4) by auto
  have "unat (word_of_int nb :: uint) = nat nb"
    using assms(2,3) by (simp add: unat_eq_nat_uint uint_word_of_int)
  then have "unat (i + word_of_int nb) = unat i + nat nb"
    using *(2) assms(2,3,5) by (subst unat_add_lem[THEN iffD1]) (auto simp: word_less_nat_alt)
  then show ?thesis using * by (simp add: word_le_nat_alt)
qed

theorem argptr_inside_witness:
  "argptr 0 8 demo_s1 = Ret (Some 16, demo_s1) \<and> unat (16::uint) + nat 8 \<le> unat (pr_sz (ptab demo_s1 0))"
proof -
  have "cpu_proc demo_s1 (this_cpu demo_s1) = Some 0" "pr_sz (ptab demo_s1 0) = 4096"
    by (simp_all add: demo_s1_def demo_running_def demo_boot_def demo_proc_def del: table_nf to_files)
  then show ?thesis using demo_argptr argptr_inside[OF demo_argptr, of 0] by (simp del: table_nf)
qed

text \<open>C38: \<open>kill\<close> does not look at the state of the entry it finds, so \<open>kill(0)\<close> succeeds and marks the first free entry of the table, one
  never used or freed by \<open>wait\<close>, as killed. Nothing on the way from there to a new process clears the mark: \<open>allocproc\<close> takes this
  entry, and the child that \<open>fork\<close> makes in it is killed at its first trap.\<close>

theorem kill_zero:
  assumes "p < NPROC" "pr_state (ptab s p) = UNUSED" "pr_pid (ptab s p) = 0"
    and "\<And>q. q < p \<Longrightarrow> pr_state (ptab s q) \<noteq> UNUSED \<and> pr_pid (ptab s q) \<noteq> 0"
    and "nextpid s < 2 ^ 31 - 1" "freelist (k_mem s) \<noteq> 0"
    and t: "t = s\<lparr>ptab := (ptab s)(p := (ptab s p)\<lparr>pr_killed := True\<rparr>)\<rparr>"
  shows "kill 0 s = Ret (0, t) \<and> wp allocproc (\<lambda>r u. r = Some p \<and> pr_killed (ptab u p)) t \<and> wlp fork (\<lambda>_ u. pr_killed (ptab u p)) t"
proof (intro conjI)
  have "find (\<lambda>p. pr_pid (ptab s p) = 0) [0..<NPROC] = Some p"
    by (rule find_at) (use assms(1-4) in \<open>simp_all del: table_nf\<close>)
  then show "kill 0 s = Ret (0, t)" using assms(2)
    by (simp add: kill_def kmonad_defs pset_def pget_def kwhen_def t del: table_nf)
  have "find (\<lambda>q. pr_state (ptab t q) = UNUSED) [0..<NPROC] = Some p"
    by (rule find_at) (use assms(1-4) in \<open>simp_all add: t del: table_nf\<close>)
  moreover have "nextpid t < 2 ^ 31 - 1" "freelist (k_mem t) \<noteq> 0" "pr_killed (ptab t p)" using assms(5,6) by (simp_all add: t del: table_nf)
  ultimately show "wp allocproc (\<lambda>r u. r = Some p \<and> pr_killed (ptab u p)) t"
    by (simp add: allocproc_def next_pid_def pset_def on_mem_def kalloc_def wp_simps kwhen_def del: table_nf)
  show "wlp fork (\<lambda>_ u. pr_killed (ptab u p)) t"
    by (rule keeps_wlp[OF fork_keeps_killed(2)[of p]]) (simp add: t)
qed

theorem kill_zero_witness:
  "kill 0 demo_running = Ret (0, demo_running\<lparr>ptab := (ptab demo_running)(1 := (ptab demo_running 1)\<lparr>pr_killed := True\<rparr>)\<rparr>) \<and>
   wp allocproc (\<lambda>r u. r = Some 1 \<and> pr_killed (ptab u 1)) (demo_running\<lparr>ptab := (ptab demo_running)(1 := (ptab demo_running 1)\<lparr>pr_killed := True\<rparr>)\<rparr>)"
  using kill_zero[of 1 demo_running, OF _ _ _ _ _ _ refl]
  by (simp add: NPROC_def demo_running_def demo_boot_def demo_proc_def demo_mem_def del: table_nf)

end
