(* ===== verification/Spec2Isabelle.thy ===== *)
theory Spec2Isabelle
  imports Sfs_Write Spinlock Lines Console Sh_Run Kernel
begin

text \<open>
  A verification of the xv6 kernel with its two file systems (\<^verbatim>\<open>src/xv6\<close>).
\<close>

end
